(* ===== verification/Prelude.thy ===== *)
theory Prelude
  imports Main "HOL-Library.Char_ord"
begin

text \<open>
  What the component theories share.

  \<^item> \<open>time\<close>: a JavaScript \<open>Date\<close> as the whole number of milliseconds its \<open>getTime()\<close> returns.
  \<^item> Results: a thrown error is \<open>Inl\<close>, a returned value \<open>Inr\<close>; \<open>bindR\<close> sequences them, and a
    transaction that throws leaves its caller with the state it had before.
  \<^item> Tables: a PostgreSQL table is the list of its rows. \<open>update_many\<close> is what the sources rely
    on Prisma's \<open>updateMany\<close> for (every row that matches the \<open>where\<close> is rewritten by \<open>data\<close>, the
    count of matching rows is returned), \<open>row_at\<close> is \<open>findUnique\<close> on a key column. A comparison
    with a NULL column is false, as in SQL (\<open>lte_opt\<close>, \<open>gt_opt\<close>).
  \<^item> Strings: a JavaScript string is a list of code units below 256 (\<open>char\<close>), with the string
    operations of the language that the sources call.
\<close>

subsection \<open>Time\<close>

type_synonym time = int

named_theorems table_simps \<open>rewriting table operations\<close>
named_theorems lease_laws \<open>facts the lease interpretations rest on\<close>

definition add_milliseconds :: "time \<Rightarrow> int \<Rightarrow> time" where
  "add_milliseconds now duration_ms = now + max 1000 duration_ms"

lemma add_milliseconds_future [simp]: "now < add_milliseconds now d"
  by (simp add: add_milliseconds_def)

lemma add_milliseconds_mono: "now \<le> now' \<Longrightarrow> add_milliseconds now d \<le> add_milliseconds now' d"
  by (simp add: add_milliseconds_def)

subsection \<open>Results\<close>

fun bindR :: "'e + 'a \<Rightarrow> ('a \<Rightarrow> 'e + 'b) \<Rightarrow> 'e + 'b" where
  "bindR (Inl e) f = Inl e"
| "bindR (Inr a) f = f a"

lemma bindR_eq_Inr: "bindR r f = Inr b \<longleftrightarrow> (\<exists>a. r = Inr a \<and> f a = Inr b)"
  by (cases r) auto

lemma bindR_eq_Inl: "bindR r f = Inl e \<longleftrightarrow> r = Inl e \<or> (\<exists>a. r = Inr a \<and> f a = Inl e)"
  by (cases r) auto

lemma bindR_assoc: "bindR (bindR r f) g = bindR r (\<lambda>a. bindR (f a) g)"
  by (cases r) auto

fun is_ok :: "'e + 'a \<Rightarrow> bool" where
  "is_ok (Inl _) = False"
| "is_ok (Inr _) = True"

lemma is_ok_iff: "is_ok r \<longleftrightarrow> (\<exists>a. r = Inr a)"
  by (cases r) auto

lemma fst_map_Some: "map_option f (fst r) = Some y \<Longrightarrow> \<exists>a s. r = (Some a, s) \<and> f a = y"
  by (cases r) auto

subsection \<open>NULL columns\<close>

fun lte_opt :: "int option \<Rightarrow> int \<Rightarrow> bool" where
  "lte_opt None n = False"
| "lte_opt (Some m) n = (m \<le> n)"

fun gt_opt :: "int option \<Rightarrow> int \<Rightarrow> bool" where
  "gt_opt None n = False"
| "gt_opt (Some m) n = (n < m)"

lemma gt_opt_iff: "gt_opt x n \<longleftrightarrow> (\<exists>m. x = Some m \<and> n < m)"
  by (cases x) auto

lemma lte_opt_iff: "lte_opt x n \<longleftrightarrow> (\<exists>m. x = Some m \<and> m \<le> n)"
  by (cases x) auto

lemma gt_opt_antimono: "gt_opt x n \<Longrightarrow> m \<le> n \<Longrightarrow> gt_opt x m"
  by (auto simp: gt_opt_iff)

lemma gt_opt_not_lte: "gt_opt x n \<Longrightarrow> \<not> (x = None \<or> lte_opt x n)"
  by (auto simp: gt_opt_iff)

text \<open>An optional string in a condition: null and the empty string are false.\<close>

definition truthy :: "string option \<Rightarrow> bool" where
  "truthy x \<longleftrightarrow> x \<noteq> None \<and> x \<noteq> Some []"

subsection \<open>Tables\<close>

definition update_many :: "('r \<Rightarrow> bool) \<Rightarrow> ('r \<Rightarrow> 'r) \<Rightarrow> 'r list \<Rightarrow> 'r list \<times> nat" where
  "update_many p f t = (map (\<lambda>r. if p r then f r else r) t, length (filter p t))"

definition row_at :: "('r \<Rightarrow> 'k) \<Rightarrow> 'k \<Rightarrow> 'r list \<Rightarrow> 'r option" where
  "row_at key k t = List.find (\<lambda>r. key r = k) t"

lemma row_at_Nil [simp]: "row_at key k [] = None"
  by (simp add: row_at_def)

lemma row_at_Cons [simp]:
  "row_at key k (r # t) = (if key r = k then Some r else row_at key k t)"
  by (simp add: row_at_def)

lemma row_at_SomeD: "row_at key k t = Some r \<Longrightarrow> r \<in> set t \<and> key r = k"
  by (induction t) (auto split: if_splits)

lemma row_at_key: "row_at key k t = Some r \<Longrightarrow> key r = k"
  using row_at_SomeD [of key k t r] by simp

lemma row_at_None_iff: "row_at key k t = None \<longleftrightarrow> k \<notin> key ` set t"
  by (induction t) auto

lemma row_at_distinct:
  "distinct (map key t) \<Longrightarrow> r \<in> set t \<Longrightarrow> row_at key (key r) t = Some r"
  by (induction t) force+

lemma row_at_append:
  "row_at key k (t @ u) = (case row_at key k t of None \<Rightarrow> row_at key k u | Some r \<Rightarrow> Some r)"
  by (induction t) auto

lemma row_at_update_many [table_simps]:
  assumes "\<And>r. key (f r) = key r"
  shows "row_at key k (fst (update_many p f t)) =
    map_option (\<lambda>r. if p r then f r else r) (row_at key k t)"
  by (induction t) (auto simp: update_many_def assms)

lemma filter_one_key:
  assumes "distinct (map key t)" and "\<And>r. p r \<Longrightarrow> key r = k"
  shows "length (filter p t) =
    (case row_at key k t of None \<Rightarrow> 0 | Some r \<Rightarrow> if p r then 1 else 0)"
  using assms(1)
proof (induction t)
  case (Cons r t)
  have "filter p t = []" if "key r = k"
  proof -
    have "\<not> p x" if "x \<in> set t" for x
      using Cons.prems assms(2) [of x] that \<open>key r = k\<close> by (auto simp: image_iff)
    then show ?thesis by (simp add: filter_empty_conv)
  qed
  then show ?case
    using Cons assms(2) by auto
qed simp

lemma update_many_count:
  assumes "distinct (map key t)" and "\<And>r. p r \<Longrightarrow> key r = k"
  shows "snd (update_many p f t) =
    (case row_at key k t of None \<Rightarrow> 0 | Some r \<Rightarrow> if p r then 1 else 0)"
  using filter_one_key [OF assms] by (simp add: update_many_def)

lemma update_many_count_one:
  assumes "distinct (map key t)" and "\<And>r. p r \<Longrightarrow> key r = k"
  shows "snd (update_many p f t) = 1 \<longleftrightarrow> (\<exists>r. row_at key k t = Some r \<and> p r)"
  by (auto simp: update_many_count [OF assms] split: option.splits)

lemma update_many_keys [simp]:
  "(\<And>r. key (f r) = key r) \<Longrightarrow> map key (fst (update_many p f t)) = map key t"
  by (simp add: update_many_def)

lemma update_many_none: "snd (update_many p f t) = 0 \<Longrightarrow> fst (update_many p f t) = t"
  by (simp add: update_many_def filter_empty_conv map_idI)

lemma update_many_set:
  "r \<in> set (fst (update_many p f t)) \<longleftrightarrow> (\<exists>r0 \<in> set t. r = (if p r0 then f r0 else r0))"
  by (auto simp: update_many_def)

text \<open>How a rewritten row changes a count over the table.\<close>

lemma count_row_update:
  assumes "distinct (map key t)" and "row_at key k t = Some r"
  shows "int (length (filter q (fst (update_many (\<lambda>x. key x = k) f t)))) =
    int (length (filter q t)) - of_bool (q r) + of_bool (q (f r))"
  using assms
proof (induction t)
  case (Cons x t)
  show ?case
  proof (cases "key x = k")
    case True
    then have "map (\<lambda>y. if key y = k then f y else y) t = t"
      using Cons.prems(1) by (intro map_idI) (auto simp: image_iff)
    then show ?thesis using Cons.prems True by (auto simp: update_many_def)
  next
    case False
    then show ?thesis using Cons by (auto simp: update_many_def)
  qed
qed simp

text \<open>The row an \<open>ORDER BY f ASC LIMIT 1\<close> returns.\<close>

fun least_by :: "('a \<Rightarrow> int) \<Rightarrow> 'a list \<Rightarrow> 'a option" where
  "least_by f [] = None"
| "least_by f (x # xs) =
     (case least_by f xs of
        None \<Rightarrow> Some x
      | Some y \<Rightarrow> if f x \<le> f y then Some x else Some y)"

lemma least_by_Some:
  "least_by f xs = Some x \<Longrightarrow> x \<in> set xs \<and> (\<forall>y \<in> set xs. f x \<le> f y)"
proof (induction xs arbitrary: x)
  case (Cons a xs)
  then show ?case
  proof (cases "least_by f xs")
    case None
    then have "xs = []" by (cases xs) (auto split: option.splits if_splits)
    with Cons.prems None show ?thesis by simp
  next
    case (Some y)
    with Cons.IH have "y \<in> set xs" "\<forall>z \<in> set xs. f y \<le> f z" by auto
    with Cons.prems Some show ?thesis by (fastforce split: if_splits)
  qed
qed simp

lemma least_by_None [simp]: "least_by f xs = None \<longleftrightarrow> xs = []"
  by (cases xs) (auto split: option.splits if_splits)

end
