(* ===== verification/Fenced_Lease.thy ===== *)
theory Fenced_Lease
  imports Prelude
begin

text \<open>
  The contract the workers of the service rely on when they hold a lease on a row: the claim takes
  a free row only and bumps its fencing token, a renewal and a finishing write succeed exactly while
  the lease is live, and a lease that was superseded stays dead in every later state. The three
  lease modules of the source (\<open>source-refresh-leases.ts\<close>, \<open>opml-import-leases.ts\<close>,
  \<open>smart-digest-run-leases.ts\<close>) interpret the locale on their own operations. The heartbeat loop
  that all three share (\<open>runWith...LeaseHeartbeat\<close>) is here too, over the renewal of the module.
\<close>

subsection \<open>Operations of concurrent workers\<close>

datatype ('w, 'l, 'x) lease_op =
    Claim time 'w
  | Renew time 'l
  | Finish time 'x 'l

fun lease_step ::
  "(time \<Rightarrow> 'w \<Rightarrow> 's \<Rightarrow> 'l option \<times> 's) \<Rightarrow> (time \<Rightarrow> 'l \<Rightarrow> 's \<Rightarrow> bool \<times> 's) \<Rightarrow>
   (time \<Rightarrow> 'x \<Rightarrow> 'l \<Rightarrow> 's \<Rightarrow> bool \<times> 's) \<Rightarrow> ('w, 'l, 'x) lease_op \<Rightarrow> 's \<Rightarrow> 's" where
  "lease_step claim renew finish (Claim now w) s = snd (claim now w s)"
| "lease_step claim renew finish (Renew now l) s = snd (renew now l s)"
| "lease_step claim renew finish (Finish now x l) s = snd (finish now x l s)"

definition lease_run ::
  "(time \<Rightarrow> 'w \<Rightarrow> 's \<Rightarrow> 'l option \<times> 's) \<Rightarrow> (time \<Rightarrow> 'l \<Rightarrow> 's \<Rightarrow> bool \<times> 's) \<Rightarrow>
   (time \<Rightarrow> 'x \<Rightarrow> 'l \<Rightarrow> 's \<Rightarrow> bool \<times> 's) \<Rightarrow> ('w, 'l, 'x) lease_op list \<Rightarrow> 's \<Rightarrow> 's" where
  "lease_run claim renew finish ops s = fold (lease_step claim renew finish) ops s"

locale fenced_lease =
  fixes claim :: "time \<Rightarrow> 'w \<Rightarrow> 's \<Rightarrow> 'l option \<times> 's"
    and renew :: "time \<Rightarrow> 'l \<Rightarrow> 's \<Rightarrow> bool \<times> 's"
    and finish :: "time \<Rightarrow> 'x \<Rightarrow> 'l \<Rightarrow> 's \<Rightarrow> bool \<times> 's"
    and live :: "time \<Rightarrow> 'l \<Rightarrow> 's \<Rightarrow> bool"
    and res :: "'l \<Rightarrow> 'r"
    and token :: "'l \<Rightarrow> int"
    and gen :: "'s \<Rightarrow> 'r \<Rightarrow> int"
    and invar :: "'s \<Rightarrow> bool"
  assumes claim_invar: "invar s \<Longrightarrow> invar (snd (claim now w s))"
    and claim_live: "invar s \<Longrightarrow> claim now w s = (Some l, s') \<Longrightarrow> live now l s'"
    and claim_excl: "invar s \<Longrightarrow> live now l s \<Longrightarrow> claim now w s = (Some l', s') \<Longrightarrow> res l' \<noteq> res l"
    and claim_gen: "invar s \<Longrightarrow> claim now w s = (Some l, s') \<Longrightarrow>
      token l = gen s (res l) + 1 \<and> gen s' = (gen s)(res l := gen s (res l) + 1)"
    and claim_none: "invar s \<Longrightarrow> claim now w s = (None, s') \<Longrightarrow> s' = s"
    and live_token: "live now l s \<Longrightarrow> token l = gen s (res l)"
    and live_earlier: "live now l s \<Longrightarrow> t \<le> now \<Longrightarrow> live t l s"
    and renew_invar: "invar s \<Longrightarrow> invar (snd (renew now l s))"
    and renew_result: "invar s \<Longrightarrow> fst (renew now l s) \<longleftrightarrow> live now l s"
    and renew_live: "invar s \<Longrightarrow> live now l s \<Longrightarrow> live now l (snd (renew now l s))"
    and renew_lost: "invar s \<Longrightarrow> \<not> live now l s \<Longrightarrow> snd (renew now l s) = s"
    and renew_gen: "invar s \<Longrightarrow> gen (snd (renew now l s)) = gen s"
    and finish_invar: "invar s \<Longrightarrow> invar (snd (finish now x l s))"
    and finish_frees: "invar s \<Longrightarrow> fst (finish now x l s) \<Longrightarrow> \<not> live t l (snd (finish now x l s))"
    and finish_lost: "invar s \<Longrightarrow> \<not> live now l s \<Longrightarrow> finish now x l s = (False, s)"
    and finish_gen: "invar s \<Longrightarrow> gen (snd (finish now x l s)) = gen s"
begin

lemma step_invar: "invar s \<Longrightarrow> invar (lease_step claim renew finish op s)"
  by (cases op) (auto simp: claim_invar renew_invar finish_invar)

lemma run_invar: "invar s \<Longrightarrow> invar (lease_run claim renew finish ops s)"
  by (induction ops arbitrary: s) (auto simp: lease_run_def step_invar)

lemma step_gen_mono: "invar s \<Longrightarrow> gen s r \<le> gen (lease_step claim renew finish op s) r"
proof (cases op)
  case (Claim now w)
  assume inv: "invar s"
  obtain x s' where c: "claim now w s = (x, s')" by (cases "claim now w s")
  then show ?thesis
    using Claim claim_none [OF inv] claim_gen [OF inv] by (cases x) fastforce+
qed (auto simp: renew_gen finish_gen)

lemma run_gen_mono: "invar s \<Longrightarrow> gen s r \<le> gen (lease_run claim renew finish ops s) r"
proof (induction ops arbitrary: s)
  case (Cons op ops)
  show ?case
    using step_gen_mono [OF Cons.prems, of r op] Cons.IH [OF step_invar [OF Cons.prems, of op]]
    by (simp add: lease_run_def)
qed (simp add: lease_run_def)

lemma stale_after_run:
  assumes "invar s" and "token l < gen s (res l)"
  shows "\<not> live t l (lease_run claim renew finish ops s)"
  using run_gen_mono [OF assms(1), of "res l" ops] assms(2) live_token by fastforce

lemma fenced:
  assumes inv: "invar s" and c: "claim now w s = (Some l', s')"
    and "res l = res l'" and "token l \<le> gen s (res l)"
  shows "\<not> live t l (lease_run claim renew finish ops s')"
proof (rule stale_after_run)
  show "invar s'" using claim_invar [OF inv, of now w] c by simp
  show "token l < gen s' (res l)"
    using claim_gen [OF inv c] assms(3,4) by simp
qed

lemma fenced_writes:
  assumes inv0: "invar s" and c: "claim now w s = (Some l', s')"
    and old: "res l = res l'" "token l \<le> gen s (res l)"
    and u: "u = lease_run claim renew finish ops s'"
  shows "\<not> fst (renew t l u) \<and> snd (renew t l u) = u \<and> finish t x l u = (False, u)"
proof -
  have inv: "invar u"
    unfolding u using claim_invar [OF inv0, of now w] c by (intro run_invar) simp
  have dead: "\<not> live t l u"
    unfolding u by (rule fenced [OF inv0 c old])
  show ?thesis
    using renew_result [OF inv, of t l] renew_lost [OF inv dead] finish_lost [OF inv dead] dead
    by auto
qed

lemma one_holder:
  "live t l s \<Longrightarrow> live t l' s \<Longrightarrow> res l = res l' \<Longrightarrow> token l = token l'"
  by (simp add: live_token)

end

subsection \<open>The heartbeat loop\<close>

text \<open>
  While \<open>work\<close> is pending the interval timer queues renewals on one promise chain; other processes
  act on the store in between (\<open>Other\<close>), and a renewal whose query rejects ends in the
  \<open>catch\<close> of the chain (\<open>Renewal_Error\<close>), which gives the lease up. When the work has returned
  (\<open>Some result\<close>) the loop drains the chain and, if the lease is still held, renews once more at
  time \<open>done_at\<close>; when the work throws (\<open>None\<close>) the exception passes through.
\<close>

datatype 's heartbeat_event =
    Renewal time
  | Renewal_Error
  | Other "'s \<Rightarrow> 's"

definition heartbeat_interval_ms :: "int \<Rightarrow> int" where
  "heartbeat_interval_ms lease_ms = max 1000 (lease_ms div 2)"

fun heartbeat ::
  "(time \<Rightarrow> 'l \<Rightarrow> 's \<Rightarrow> bool \<times> 's) \<Rightarrow> 'l \<Rightarrow> bool \<times> 's \<Rightarrow> 's heartbeat_event \<Rightarrow> bool \<times> 's" where
  "heartbeat renew l (held, s) (Renewal now) = (if held then renew now l s else (held, s))"
| "heartbeat renew l (held, s) Renewal_Error = (False, s)"
| "heartbeat renew l (held, s) (Other f) = (held, f s)"

definition run_with_heartbeat ::
  "(time \<Rightarrow> 'l \<Rightarrow> 's \<Rightarrow> bool \<times> 's) \<Rightarrow> 'l \<Rightarrow> 's heartbeat_event list \<Rightarrow> 'a option \<Rightarrow> time \<Rightarrow> 's \<Rightarrow>
   (bool \<times> 'a) option \<times> 's" where
  "run_with_heartbeat renew l evs work done_at s =
     (let (held, s1) = fold (\<lambda>e hs. heartbeat renew l hs e) evs (True, s)
      in case work of
           None \<Rightarrow> (None, s1)
         | Some result \<Rightarrow>
             (if held then (let (held', s2) = renew done_at l s1 in (Some (held', result), s2))
              else (Some (False, result), s1)))"

lemma heartbeat_lost:
  "fst (fold (\<lambda>e hs. heartbeat renew l hs e) evs (held, s)) \<Longrightarrow> held"
proof (induction evs arbitrary: held s)
  case (Cons e evs)
  obtain h t where ht: "heartbeat renew l (held, s) e = (h, t)" by fastforce
  have h using Cons.prems Cons.IH [of h t] ht by simp
  then show ?case using ht by (cases e) (auto split: if_splits)
qed simp

lemma heartbeats_inv:
  assumes "\<And>s now. I s \<Longrightarrow> I (snd (renew now l s))"
    and "\<And>f s. Other f \<in> set evs \<Longrightarrow> I s \<Longrightarrow> I (f s)" and "I s"
  shows "I (snd (fold (\<lambda>e hs. heartbeat renew l hs e) evs (held, s)))"
  using assms(2,3)
proof (induction evs arbitrary: held s)
  case (Cons e evs)
  obtain h t where ht: "heartbeat renew l (held, s) e = (h, t)" by fastforce
  have "I t"
  proof (cases e)
    case (Renewal now)
    then show ?thesis
      using ht Cons.prems(2) assms(1) [OF Cons.prems(2), of now] by (auto split: if_splits)
  qed (use ht Cons.prems in auto)
  then show ?case using Cons.IH [of t h] Cons.prems(1) ht by simp
qed simp

lemma run_with_heartbeat_inv:
  assumes "\<And>s now. I s \<Longrightarrow> I (snd (renew now l s))"
    and "\<And>f s. Other f \<in> set evs \<Longrightarrow> I s \<Longrightarrow> I (f s)" and "I s"
  shows "I (snd (run_with_heartbeat renew l evs work done_at s))"
proof -
  obtain held s1 where f: "fold (\<lambda>e hs. heartbeat renew l hs e) evs (True, s) = (held, s1)"
    by fastforce
  then have "I s1" using heartbeats_inv [of I renew l evs s True] assms by simp
  then show ?thesis
    using f assms(1) [of s1 done_at] by (auto simp: run_with_heartbeat_def case_prod_beta split: option.split)
qed

lemma run_with_heartbeat_result:
  "fst (run_with_heartbeat renew l evs work done_at s) = Some (h, r) \<Longrightarrow> work = Some r"
  "fst (run_with_heartbeat renew l evs work done_at s) = None \<Longrightarrow> work = None"
  by (auto simp: run_with_heartbeat_def case_prod_beta split: option.splits if_splits)

context fenced_lease
begin

text \<open>
  When the loop reports the lease as held, the lease is live in the store at the moment the last
  renewal returned; when some renewal failed on the way, it is reported as lost.
\<close>

lemma heartbeat_held_live:
  assumes others: "\<And>f. Other f \<in> set evs \<Longrightarrow> \<forall>s. invar s \<longrightarrow> invar (f s)" and inv: "invar s"
    and ret: "run_with_heartbeat renew l evs work done_at s = (Some (True, r), s')"
  shows "work = Some r \<and> live done_at l s'"
proof -
  obtain held s1 where f: "fold (\<lambda>e hs. heartbeat renew l hs e) evs (True, s) = (held, s1)"
    by fastforce
  have inv1: "invar s1" using heartbeats_inv [of invar renew l evs s True] renew_invar others inv f by simp
  obtain h2 s2 where r2: "renew done_at l s1 = (h2, s2)" by fastforce
  have "work = Some r" "held" "h2" "s' = s2"
    using ret f r2 by (auto simp: run_with_heartbeat_def split: option.splits if_splits)
  moreover from r2 \<open>h2\<close> have "live done_at l s1"
    using renew_result [OF inv1, of done_at l] by simp
  ultimately show ?thesis
    using renew_live [OF inv1, of done_at l] r2 by simp
qed

end

end
