(* ===== verification/Source_Refresh_Lease.thy ===== *)
theory Source_Refresh_Lease
  imports Fenced_Lease
begin

text \<open>
  \<open>src/lib/source-refresh-leases.ts\<close>: the lease a refresh worker takes on a feed or podcast row.
  The store is the table of source rows; between the claim's \<open>updateMany\<close> and its \<open>findCurrent\<close>
  another process may write (\<open>env\<close>), which is what the re-check of the claim is for.
\<close>

record source_row =
  src_id :: string
  refresh_generation :: int
  refresh_lease_expires_at :: "time option"
  refresh_owner :: "string option"
  refresh_started_at :: "time option"

record source_lease =
  sl_generation :: int
  sl_id :: string
  sl_lease_expires_at :: time
  sl_owner :: string

definition source_refresh_lease_ms :: int where
  "source_refresh_lease_ms = 10 * 60 * 1000"

text \<open>\<open>sourceRefreshLeaseWhere\<close>: the fence every write under a lease carries.\<close>

definition source_lease_where :: "source_lease \<Rightarrow> time \<Rightarrow> source_row \<Rightarrow> bool" where
  "source_lease_where l now r \<longleftrightarrow>
     src_id r = sl_id l \<and> refresh_generation r = sl_generation l \<and>
     gt_opt (refresh_lease_expires_at r) now \<and> refresh_owner r = Some (sl_owner l)"

definition source_claimable :: "string \<Rightarrow> time \<Rightarrow> source_row \<Rightarrow> bool" where
  "source_claimable i now r \<longleftrightarrow>
     src_id r = i \<and> (refresh_lease_expires_at r = None \<or> lte_opt (refresh_lease_expires_at r) now)"

definition claim_source_refresh_lease ::
  "(source_row list \<Rightarrow> source_row list) \<Rightarrow> int \<Rightarrow> time \<Rightarrow> string \<Rightarrow> string \<Rightarrow> source_row list \<Rightarrow>
   source_lease option \<times> source_row list" where
  "claim_source_refresh_lease env lease_ms now owner i t =
     (let expires = add_milliseconds now lease_ms;
          (t1, count) = update_many (source_claimable i now)
            (\<lambda>r. r\<lparr>refresh_generation := refresh_generation r + 1,
                   refresh_lease_expires_at := Some expires,
                   refresh_owner := Some owner,
                   refresh_started_at := Some now\<rparr>) t
      in if count \<noteq> 1 then (None, t1)
         else let t2 = env t1
              in case row_at src_id i t2 of
                   None \<Rightarrow> (None, t2)
                 | Some r \<Rightarrow>
                     (if refresh_generation r < 1 \<or> refresh_owner r \<noteq> Some owner \<or>
                         refresh_lease_expires_at r \<noteq> Some expires
                      then (None, t2)
                      else (Some \<lparr>sl_generation = refresh_generation r, sl_id = src_id r,
                                  sl_lease_expires_at = expires, sl_owner = owner\<rparr>, t2)))"

definition renew_source_refresh_lease ::
  "int \<Rightarrow> time \<Rightarrow> source_lease \<Rightarrow> source_row list \<Rightarrow> bool \<times> source_row list" where
  "renew_source_refresh_lease lease_ms now l t =
     (let (t', count) = update_many (source_lease_where l now)
            (\<lambda>r. r\<lparr>refresh_lease_expires_at := Some (add_milliseconds now lease_ms)\<rparr>) t
      in (count = 1, t'))"

text \<open>
  The release returns nothing; the boolean says whether its \<open>where\<close> found the row.
\<close>

definition release_source_refresh_lease ::
  "time \<Rightarrow> source_lease \<Rightarrow> source_row list \<Rightarrow> bool \<times> source_row list" where
  "release_source_refresh_lease now l t =
     (let (t', count) = update_many (source_lease_where l now)
            (\<lambda>r. r\<lparr>refresh_lease_expires_at := Some now, refresh_owner := None\<rparr>) t
      in (0 < count, t'))"

definition run_with_source_lease_heartbeat ::
  "source_lease \<Rightarrow> source_row list heartbeat_event list \<Rightarrow> 'a option \<Rightarrow> time \<Rightarrow> source_row list \<Rightarrow>
   (bool \<times> 'a) option \<times> source_row list" where
  "run_with_source_lease_heartbeat =
     run_with_heartbeat (renew_source_refresh_lease source_refresh_lease_ms)"

subsection \<open>The lease laws\<close>

definition source_invar :: "source_row list \<Rightarrow> bool" where
  "source_invar t \<longleftrightarrow> distinct (map src_id t) \<and> (\<forall>r \<in> set t. 0 \<le> refresh_generation r)"

definition source_gen :: "source_row list \<Rightarrow> string \<Rightarrow> int" where
  "source_gen t i = (case row_at src_id i t of None \<Rightarrow> 0 | Some r \<Rightarrow> refresh_generation r)"

definition source_live :: "time \<Rightarrow> source_lease \<Rightarrow> source_row list \<Rightarrow> bool" where
  "source_live now l t \<longleftrightarrow>
     (\<exists>r. row_at src_id (sl_id l) t = Some r \<and> source_lease_where l now r)"

text \<open>A claim names the source as well as the new owner: the worker of the locale is the pair.\<close>

definition source_claim ::
  "int \<Rightarrow> time \<Rightarrow> string \<times> string \<Rightarrow> source_row list \<Rightarrow> source_lease option \<times> source_row list" where
  "source_claim lease_ms now w t = claim_source_refresh_lease id lease_ms now (fst w) (snd w) t"

lemma source_where_id: "source_lease_where l now r \<Longrightarrow> src_id r = sl_id l"
  by (simp add: source_lease_where_def)

lemma source_claimable_id: "source_claimable i now r \<Longrightarrow> src_id r = i"
  by (simp add: source_claimable_def)

lemma source_claim_cases:
  assumes "source_invar t"
  shows "(\<exists>r. row_at src_id (snd w) t = Some r \<and> source_claimable (snd w) now r \<and>
            source_claim ms now w t =
              (Some \<lparr>sl_generation = refresh_generation r + 1, sl_id = snd w,
                     sl_lease_expires_at = add_milliseconds now ms, sl_owner = fst w\<rparr>,
               fst (update_many (source_claimable (snd w) now)
                 (\<lambda>r. r\<lparr>refresh_generation := refresh_generation r + 1,
                        refresh_lease_expires_at := Some (add_milliseconds now ms),
                        refresh_owner := Some (fst w), refresh_started_at := Some now\<rparr>) t)))
         \<or> source_claim ms now w t = (None, t)"
proof -
  let ?p = "source_claimable (snd w) now"
  let ?f = "\<lambda>r. r\<lparr>refresh_generation := refresh_generation r + 1,
                  refresh_lease_expires_at := Some (add_milliseconds now ms),
                  refresh_owner := Some (fst w), refresh_started_at := Some now\<rparr>"
  have d: "distinct (map src_id t)" using assms by (simp add: source_invar_def)
  have cnt: "snd (update_many ?p ?f t) = (case row_at src_id (snd w) t of None \<Rightarrow> 0
      | Some r \<Rightarrow> if ?p r then 1 else 0)"
    by (rule update_many_count [OF d]) (rule source_claimable_id)
  have row: "row_at src_id (snd w) (fst (update_many ?p ?f t)) =
      map_option (\<lambda>r. if ?p r then ?f r else r) (row_at src_id (snd w) t)"
    by (rule row_at_update_many) simp
  show ?thesis
  proof (cases "\<exists>r. row_at src_id (snd w) t = Some r \<and> ?p r")
    case True
    then obtain r where r: "row_at src_id (snd w) t = Some r" "?p r" by blast
    then have "r \<in> set t" by (blast dest: row_at_SomeD)
    then have "0 \<le> refresh_generation r" using assms by (simp add: source_invar_def)
    with r cnt row have "source_claim ms now w t =
        (Some \<lparr>sl_generation = refresh_generation r + 1, sl_id = snd w,
               sl_lease_expires_at = add_milliseconds now ms, sl_owner = fst w\<rparr>,
         fst (update_many ?p ?f t))"
      by (auto simp: source_claim_def claim_source_refresh_lease_def Let_def case_prod_beta
          source_claimable_id)
    with r show ?thesis by blast
  next
    case False
    then have "snd (update_many ?p ?f t) = 0" using cnt by (auto split: option.splits)
    then show ?thesis
      using update_many_none [of ?p ?f t]
      by (simp add: source_claim_def claim_source_refresh_lease_def Let_def case_prod_beta)
  qed
qed

lemma source_invar_update:
  assumes "source_invar t" and "\<And>r. src_id (f r) = src_id r"
    and "\<And>r. refresh_generation r \<le> refresh_generation (f r)"
  shows "source_invar (fst (update_many p f t))"
  using assms by (auto simp: source_invar_def update_many_set) (meson order_trans)

lemma source_update_count:
  "source_invar t \<Longrightarrow> snd (update_many (source_lease_where l now) f t) =
     (if source_live now l t then 1 else 0)"
  using update_many_count [of src_id t "source_lease_where l now" "sl_id l" f]
  by (auto simp: source_invar_def source_live_def source_where_id split: option.splits)

lemma source_gen_update:
  assumes "\<And>r. src_id (f r) = src_id r" and "\<And>r. refresh_generation (f r) = refresh_generation r"
  shows "source_gen (fst (update_many p f t)) = source_gen t"
  by (auto simp: source_gen_def fun_eq_iff row_at_update_many [of src_id, OF assms(1)] assms(2)
      split: option.splits)

lemma source_live_earlier: "source_live now l t \<Longrightarrow> u \<le> now \<Longrightarrow> source_live u l t"
  by (auto simp: source_live_def source_lease_where_def intro: gt_opt_antimono)

lemma source_live_renew:
  "source_live now l t \<Longrightarrow> source_live now l (snd (renew_source_refresh_lease ms now l t))"
  by (auto simp: source_live_def renew_source_refresh_lease_def case_prod_beta row_at_update_many
      source_lease_where_def)

lemma source_live_release:
  "source_live now l t \<Longrightarrow> \<not> source_live u l (snd (release_source_refresh_lease now l t))"
  by (auto simp: source_live_def release_source_refresh_lease_def case_prod_beta row_at_update_many
      source_lease_where_def)

lemma source_live_gen: "source_live now l t \<Longrightarrow> sl_generation l = source_gen t (sl_id l)"
  by (auto simp: source_live_def source_gen_def source_lease_where_def)

interpretation src_lease: fenced_lease
  "source_claim ms" "renew_source_refresh_lease ms"
  "\<lambda>now (_ :: unit). release_source_refresh_lease now"
  source_live sl_id sl_generation source_gen source_invar
proof unfold_locales
  fix t :: "source_row list" and w now l l' t'
  assume inv: "source_invar t"
  note cc = source_claim_cases [OF inv, of w now ms]
  show "source_invar (snd (source_claim ms now w t))"
    using cc inv by (auto intro!: source_invar_update)
  show "source_live now l t'" if "source_claim ms now w t = (Some l, t')"
    using cc that
    by (auto simp: source_live_def row_at_update_many source_lease_where_def source_claimable_id)
  show "sl_id l' \<noteq> sl_id l"
    if "source_live now l t" "source_claim ms now w t = (Some l', t')"
    using cc that
    by (auto simp: source_live_def source_claimable_def source_lease_where_def gt_opt_iff lte_opt_iff)
  show "sl_generation l = source_gen t (sl_id l) + 1 \<and>
      source_gen t' = (source_gen t)(sl_id l := source_gen t (sl_id l) + 1)"
    if c: "source_claim ms now w t = (Some l, t')"
  proof -
    obtain r where r: "row_at src_id (snd w) t = Some r" "source_claimable (snd w) now r"
      "sl_id l = snd w" "sl_generation l = refresh_generation r + 1"
      and t': "t' = fst (update_many (source_claimable (snd w) now)
        (\<lambda>r. r\<lparr>refresh_generation := refresh_generation r + 1,
               refresh_lease_expires_at := Some (add_milliseconds now ms),
               refresh_owner := Some (fst w), refresh_started_at := Some now\<rparr>) t)"
      using cc c by auto
    have "source_gen t' i = (if i = snd w then refresh_generation r + 1 else source_gen t i)" for i
      using r(1,2) by (auto simp: t' source_gen_def row_at_update_many source_claimable_def
          split: option.splits dest: row_at_key)
    then show ?thesis using r by (auto simp: source_gen_def)
  qed
  show "t' = t" if "source_claim ms now w t = (None, t')"
    using cc that by auto
  fix l :: source_lease and now u
  show "source_live now l (snd (renew_source_refresh_lease ms now l t))" if "source_live now l t"
    by (rule source_live_renew [OF that])
  show "\<not> source_live u l (snd (release_source_refresh_lease now l t))"
    if "fst (release_source_refresh_lease now l t)"
    using that inv
    by (intro source_live_release) (auto simp: release_source_refresh_lease_def case_prod_beta
        source_update_count split: if_splits)
qed (auto simp: renew_source_refresh_lease_def release_source_refresh_lease_def case_prod_beta
    Let_def source_update_count source_live_gen source_gen_update source_invar_update
    update_many_none source_live_earlier)

subsection \<open>Properties\<close>

lemma source_claim_env_holds:
  assumes "claim_source_refresh_lease env ms now owner i t = (Some l, t')"
  shows "source_live now l t' \<and> sl_id l = i \<and> sl_owner l = owner \<and> 1 \<le> sl_generation l"
proof -
  obtain r where r: "row_at src_id i t' = Some r" "refresh_owner r = Some owner"
    "refresh_lease_expires_at r = Some (add_milliseconds now ms)" "1 \<le> refresh_generation r"
    "l = \<lparr>sl_generation = refresh_generation r, sl_id = src_id r,
      sl_lease_expires_at = add_milliseconds now ms, sl_owner = owner\<rparr>"
    using assms by (auto simp: claim_source_refresh_lease_def Let_def case_prod_beta
        split: if_splits option.splits)
  moreover have "src_id r = i" by (rule row_at_key [OF r(1)])
  ultimately show ?thesis by (simp add: source_live_def source_lease_where_def)
qed

text \<open>C4: Once a second worker has claimed a source whose lease had run out, the worker that held
  the earlier lease can never renew or release it again: whatever claims, renewals and releases
  follow, its renewal reports the loss and neither of its writes changes a row.\<close>

theorem source_lease_fenced:
  assumes "source_invar t" and "source_live now0 l t"
    and "claim_source_refresh_lease id ms now owner (sl_id l) t = (Some l', t')"
    and "u = lease_run (source_claim ms) (renew_source_refresh_lease ms)
      (\<lambda>now (_ :: unit). release_source_refresh_lease now) ops t'"
  shows "renew_source_refresh_lease ms later l u = (False, u) \<and>
    release_source_refresh_lease later l u = (False, u)"
proof -
  have c: "source_claim ms now (owner, sl_id l) t = (Some l', t')"
    using assms(3) by (simp add: source_claim_def)
  have "sl_id l' = sl_id l"
    using source_claim_cases [OF assms(1), of "(owner, sl_id l)" now ms] c by auto
  then have "\<not> fst (renew_source_refresh_lease ms later l u) \<and>
      snd (renew_source_refresh_lease ms later l u) = u \<and>
      release_source_refresh_lease later l u = (False, u)"
    by (intro src_lease.fenced_writes [OF assms(1) c _ _ assms(4)])
      (simp_all add: source_live_gen [OF assms(2)])
  then show ?thesis by (simp add: prod_eq_iff)
qed

definition example_source :: source_row where
  "example_source = \<lparr>src_id = ''feed'', refresh_generation = 4,
     refresh_lease_expires_at = Some 1000, refresh_owner = Some ''w1'', refresh_started_at = Some 0\<rparr>"

definition example_lease :: source_lease where
  "example_lease = \<lparr>sl_generation = 4, sl_id = ''feed'', sl_lease_expires_at = 1000, sl_owner = ''w1''\<rparr>"

lemma example_claim:
  "claim_source_refresh_lease id 600000 2000 ''w2'' (sl_id example_lease) [example_source] =
     (Some \<lparr>sl_generation = 5, sl_id = ''feed'', sl_lease_expires_at = 602000, sl_owner = ''w2''\<rparr>,
      [\<lparr>src_id = ''feed'', refresh_generation = 5, refresh_lease_expires_at = Some 602000,
        refresh_owner = Some ''w2'', refresh_started_at = Some 2000\<rparr>])"
  by code_simp

theorem source_lease_fenced_witness:
  "renew_source_refresh_lease 600000 3000 example_lease
     [\<lparr>src_id = ''feed'', refresh_generation = 5, refresh_lease_expires_at = Some 602000,
       refresh_owner = Some ''w2'', refresh_started_at = Some 2000\<rparr>] =
   (False, [\<lparr>src_id = ''feed'', refresh_generation = 5, refresh_lease_expires_at = Some 602000,
       refresh_owner = Some ''w2'', refresh_started_at = Some 2000\<rparr>])"
proof -
  have "source_invar [example_source]" "source_live 500 example_lease [example_source]"
    by (simp_all add: source_invar_def example_source_def source_live_def example_lease_def
        source_lease_where_def)
  then show ?thesis
    using source_lease_fenced [OF _ _ example_claim, of 500 _ "[]" 3000]
    by (simp add: lease_run_def)
qed

text \<open>A claim succeeds exactly when the source exists and its lease is absent or has run out;
  it then bumps the generation by one, installs the new owner and an expiry at least a second ahead,
  and leaves every other row alone. A refused claim changes nothing.\<close>

theorem source_claim_iff:
  assumes "source_invar t"
  shows "(case claim_source_refresh_lease id ms now owner i t of
      (None, t') \<Rightarrow> t' = t \<and>
        (\<forall>r. row_at src_id i t = Some r \<longrightarrow> gt_opt (refresh_lease_expires_at r) now)
    | (Some l, t') \<Rightarrow>
        (\<exists>r. row_at src_id i t = Some r \<and> \<not> gt_opt (refresh_lease_expires_at r) now \<and>
          row_at src_id i t' = Some (r\<lparr>refresh_generation := sl_generation l,
            refresh_lease_expires_at := Some (sl_lease_expires_at l), refresh_owner := Some owner,
            refresh_started_at := Some now\<rparr>) \<and>
          sl_generation l = refresh_generation r + 1 \<and> now + 1000 \<le> sl_lease_expires_at l) \<and>
        (\<forall>k. k \<noteq> i \<longrightarrow> row_at src_id k t' = row_at src_id k t))"
proof -
  have neg: "source_claimable i now r \<longleftrightarrow> src_id r = i \<and> \<not> gt_opt (refresh_lease_expires_at r) now" for r
    by (cases "refresh_lease_expires_at r") (auto simp: source_claimable_def)
  have other: "k \<noteq> i \<Longrightarrow> map_option (\<lambda>r. if source_claimable i now r then f r else r) (row_at src_id k t)
      = row_at src_id k t" for k f
    by (cases "row_at src_id k t") (auto simp: neg dest: row_at_key)
  have eq: "claim_source_refresh_lease id ms now owner i t = source_claim ms now (owner, i) t"
    by (simp add: source_claim_def)
  have none: "gt_opt (refresh_lease_expires_at r) now"
    if "source_claim ms now (owner, i) t = (None, t')" "row_at src_id i t = Some r" for r t'
  proof (rule ccontr)
    assume "\<not> gt_opt (refresh_lease_expires_at r) now"
    then have "source_claimable i now r" using that(2) neg row_at_key by fastforce
    then have "snd (update_many (source_claimable i now) f t) = 1" for f
      using update_many_count [of src_id t "source_claimable i now" i f] that(2) assms
      by (simp add: source_invar_def source_claimable_id)
    moreover have "0 \<le> refresh_generation r"
      using assms that(2) row_at_SomeD by (fastforce simp: source_invar_def)
    ultimately show False
      using that \<open>source_claimable i now r\<close>
      by (auto simp: source_claim_def claim_source_refresh_lease_def Let_def case_prod_beta
          row_at_update_many)
  qed
  from source_claim_cases [OF assms, of "(owner, i)" now ms] show ?thesis
  proof (elim disjE exE conjE)
    fix r
    assume r: "row_at src_id (snd (owner, i)) t = Some r" "source_claimable (snd (owner, i)) now r"
      and cl: "source_claim ms now (owner, i) t =
        (Some \<lparr>sl_generation = refresh_generation r + 1, sl_id = snd (owner, i),
               sl_lease_expires_at = add_milliseconds now ms, sl_owner = fst (owner, i)\<rparr>,
         fst (update_many (source_claimable (snd (owner, i)) now)
           (\<lambda>r. r\<lparr>refresh_generation := refresh_generation r + 1,
                  refresh_lease_expires_at := Some (add_milliseconds now ms),
                  refresh_owner := Some (fst (owner, i)), refresh_started_at := Some now\<rparr>) t))"
    then have ok: "row_at src_id i t = Some r" "source_claimable i now r" by simp_all
    show ?thesis
      unfolding eq cl using ok neg [of r] other
      by (simp add: row_at_update_many) (simp add: add_milliseconds_def)
  next
    assume "source_claim ms now (owner, i) t = (None, t)"
    then show ?thesis using none by (simp add: eq)
  qed
qed

theorem source_claim_iff_witness:
  "row_at src_id ''feed'' (snd (claim_source_refresh_lease id 600000 2000 ''w2'' ''feed'' [example_source]))
     = Some (example_source\<lparr>refresh_generation := 5, refresh_lease_expires_at := Some 602000,
         refresh_owner := Some ''w2'', refresh_started_at := Some 2000\<rparr>)"
proof -
  have "source_invar [example_source]" by (simp add: source_invar_def example_source_def)
  from source_claim_iff [OF this, where ms = 600000 and now = 2000 and owner = "''w2''" and i = "''feed''"] show ?thesis
    using example_claim by (auto simp: example_lease_def example_source_def)
qed

text \<open>C21: When the heartbeat loop around a refresh reports that the lease was held to the end, the
  work returned and the row is still owned by this worker, under its generation and with an
  expiry in the future, whatever other processes did to the table in between (as long as they keep
  the identifiers unique). So the writes that follow are fenced by a live lease.\<close>

theorem source_heartbeat_held:
  assumes "\<And>f s. Other f \<in> set evs \<Longrightarrow> source_invar s \<Longrightarrow> source_invar (f s)"
    and "source_invar t"
    and "run_with_source_lease_heartbeat l evs work done_at t = (Some (True, r), t')"
  shows "work = Some r \<and> source_live done_at l t'"
  using src_lease.heartbeat_held_live [of evs t source_refresh_lease_ms l work done_at r t'] assms
  by (auto simp: run_with_source_lease_heartbeat_def)

theorem source_heartbeat_held_witness:
  "source_live 900 example_lease
     [example_source\<lparr>refresh_lease_expires_at := Some 600900\<rparr>]"
proof -
  have inv: "source_invar [example_source]" by (simp add: source_invar_def example_source_def)
  have "run_with_source_lease_heartbeat example_lease [Renewal 400, Other id, Renewal 800]
      (Some ()) 900 [example_source] =
    (Some (True, ()), [example_source\<lparr>refresh_lease_expires_at := Some 600900\<rparr>])"
    by code_simp
  from source_heartbeat_held [OF _ inv this] show ?thesis by auto
qed

end
