(* ===== verification/Js_String.thy ===== *)
theory Js_String
  imports Prelude
begin

text \<open>
  JavaScript strings. The sources treat a string as a sequence of UTF-16 code units; the model keeps
  the code units below 256, one \<open>char\<close> each, so that literals stay readable. Within that range every
  operation below is the one of the language: \<open>trim\<close> and the class \<open>\s\<close> take the white space of
  Latin-1, case mapping covers the Latin-1 letters (\<open>toUpperCase\<close> of the sharp s is two letters; the
  upper case of code units 181 and 255 lies outside the range and they are left alone), and a code
  unit above 127 is two bytes in UTF-8.
\<close>

named_theorems js_defs \<open>definitions of the string operations\<close>

definition code :: "char \<Rightarrow> nat" where
  "code c = of_char c"

subsection \<open>Character classes\<close>

definition is_digit :: "char \<Rightarrow> bool" where
  "is_digit c \<longleftrightarrow> 48 \<le> code c \<and> code c \<le> 57"

definition is_upper_az :: "char \<Rightarrow> bool" where
  "is_upper_az c \<longleftrightarrow> 65 \<le> code c \<and> code c \<le> 90"

definition is_lower_az :: "char \<Rightarrow> bool" where
  "is_lower_az c \<longleftrightarrow> 97 \<le> code c \<and> code c \<le> 122"

definition is_alnum :: "char \<Rightarrow> bool" where
  "is_alnum c \<longleftrightarrow> is_digit c \<or> is_upper_az c \<or> is_lower_az c"

definition is_hex_digit :: "char \<Rightarrow> bool" where
  "is_hex_digit c \<longleftrightarrow> is_digit c \<or> (65 \<le> code c \<and> code c \<le> 70) \<or> (97 \<le> code c \<and> code c \<le> 102)"

definition js_space :: "char \<Rightarrow> bool" where
  "js_space c \<longleftrightarrow> (9 \<le> code c \<and> code c \<le> 13) \<or> code c = 32 \<or> code c = 160"

lemmas [js_defs] = is_digit_def is_upper_az_def is_lower_az_def is_alnum_def is_hex_digit_def
  js_space_def code_def

subsection \<open>Case mapping\<close>

definition lower_char :: "char \<Rightarrow> char" where
  "lower_char c = (if is_upper_az c \<or> (192 \<le> code c \<and> code c \<le> 222 \<and> code c \<noteq> 215)
    then char_of (code c + 32) else c)"

definition js_lower :: "string \<Rightarrow> string" where
  "js_lower s = map lower_char s"

definition upper_char :: "char \<Rightarrow> string" where
  "upper_char c = (if code c = 223 then ''SS''
    else if is_lower_az c \<or> (224 \<le> code c \<and> code c \<le> 254 \<and> code c \<noteq> 247)
    then [char_of (code c - 32)] else [c])"

definition js_upper :: "string \<Rightarrow> string" where
  "js_upper s = concat (map upper_char s)"

lemma code_less [simp]: "code c < 256"
  by (simp add: code_def)

lemma code_char_of [simp]: "n < 256 \<Longrightarrow> code (char_of n) = n"
  by (simp add: code_def)

lemma char_of_code [simp]: "char_of (code c) = c"
  by (simp add: code_def)

lemma code_inject: "code c = code d \<longleftrightarrow> c = d"
  by (simp add: code_def)

lemma lower_char_idem [simp]: "lower_char (lower_char c) = lower_char c"
  by (auto simp: lower_char_def is_upper_az_def)

lemma js_lower_idem [simp]: "js_lower (js_lower s) = js_lower s"
  by (simp add: js_lower_def)

lemma length_js_lower [simp]: "length (js_lower s) = length s"
  by (simp add: js_lower_def)

lemma js_upper_append: "js_upper (a @ b) = js_upper a @ js_upper b"
  by (simp add: js_upper_def)

lemma js_upper_fixed: "\<forall>c \<in> set s. upper_char c = [c] \<Longrightarrow> js_upper s = s"
  by (induction s) (auto simp: js_upper_def)

lemma upper_char_upper: "is_upper_az c \<or> is_digit c \<Longrightarrow> upper_char c = [c]"
  by (auto simp: upper_char_def is_upper_az_def is_digit_def is_lower_az_def)

subsection \<open>Trimming, searching, splitting\<close>

definition trim_start :: "string \<Rightarrow> string" where
  "trim_start s = dropWhile js_space s"

definition trim_end :: "string \<Rightarrow> string" where
  "trim_end s = rev (dropWhile js_space (rev s))"

definition js_trim :: "string \<Rightarrow> string" where
  "js_trim s = trim_end (trim_start s)"

definition starts_with :: "string \<Rightarrow> string \<Rightarrow> bool" where
  "starts_with p s \<longleftrightarrow> take (length p) s = p"

definition ends_with :: "string \<Rightarrow> string \<Rightarrow> bool" where
  "ends_with p s \<longleftrightarrow> starts_with (rev p) (rev s)"

fun js_includes :: "string \<Rightarrow> string \<Rightarrow> bool" where
  "js_includes p [] = (p = [])"
| "js_includes p (c # s) = (starts_with p (c # s) \<or> js_includes p s)"

fun js_split :: "char \<Rightarrow> string \<Rightarrow> string list" where
  "js_split d [] = [[]]"
| "js_split d (c # s) =
     (if c = d then [] # js_split d s
      else case js_split d s of [] \<Rightarrow> [[c]] | w # ws \<Rightarrow> (c # w) # ws)"

fun js_join :: "char \<Rightarrow> string list \<Rightarrow> string" where
  "js_join d [] = []"
| "js_join d [w] = w"
| "js_join d (w # ws) = w @ d # js_join d ws"

lemma length_dropWhile_le' [simp]: "length (dropWhile P s) \<le> length s"
  by (simp add: length_dropWhile_le)

lemma length_trim_start [simp]: "length (trim_start s) \<le> length s"
  by (simp add: trim_start_def)

lemma trim_end_append: "trim_end (a @ b) = (if trim_end b = [] then trim_end a else a @ trim_end b)"
  by (auto simp: trim_end_def dropWhile_append dropWhile_eq_Nil_conv)

lemma js_split_nonempty [simp]: "js_split d s \<noteq> []"
  by (induction s) (auto split: list.splits)

lemma js_split_no_sep: "d \<notin> set s \<Longrightarrow> js_split d s = [s]"
  by (induction s) auto

lemma js_split_sep: "d \<notin> set w \<Longrightarrow> js_split d (w @ d # s) = w # js_split d s"
  by (induction w) auto

lemma js_split_parts: "w \<in> set (js_split d s) \<Longrightarrow> d \<notin> set w"
proof (induction s arbitrary: w)
  case (Cons c s)
  obtain v vs where v: "js_split d s = v # vs" by (cases "js_split d s") auto
  then show ?case using Cons.IH Cons.prems by (auto split: if_splits)
qed simp

lemma js_join_split [simp]: "js_join d (js_split d s) = s"
proof (induction s)
  case (Cons c s)
  obtain v vs where v: "js_split d s = v # vs" by (cases "js_split d s") auto
  then show ?case using Cons.IH by (cases vs) auto
qed simp

lemma js_split_join:
  "ws \<noteq> [] \<Longrightarrow> \<forall>w \<in> set ws. d \<notin> set w \<Longrightarrow> js_split d (js_join d ws) = ws"
  by (induction d ws rule: js_join.induct) (auto simp: js_split_no_sep js_split_sep)

lemma js_join_Cons: "ws \<noteq> [] \<Longrightarrow> js_join d (w # ws) = w @ d # js_join d ws"
  by (cases ws) auto

subsection \<open>UTF-8\<close>

definition utf8_length :: "string \<Rightarrow> nat" where
  "utf8_length s = sum_list (map (\<lambda>c. if code c < 128 then 1 else 2) s)"

lemma utf8_length_append [simp]: "utf8_length (a @ b) = utf8_length a + utf8_length b"
  by (simp add: utf8_length_def)

lemma utf8_length_Cons [simp]:
  "utf8_length (c # s) = (if code c < 128 then 1 else 2) + utf8_length s"
  by (simp add: utf8_length_def)

lemma utf8_length_Nil [simp]: "utf8_length [] = 0"
  by (simp add: utf8_length_def)

lemma utf8_length_ge: "length s \<le> utf8_length s"
  by (induction s) auto

end
