(* ===== verification/Opml_Import.thy ===== *)
theory Opml_Import
  imports Fenced_Lease Js_String
begin

text \<open>
  OPML imports: the per-entry leases of \<open>src/lib/opml-import-leases.ts\<close> and the job that owns the
  entries, \<open>src/lib/opml-import-jobs.ts\<close>. The store is the two tables \<open>ImportJob\<close> and
  \<open>ImportJobEntry\<close>.
\<close>

subsection \<open>State\<close>

datatype import_status = JPending | JProcessing | JCompleted | JFailed | JCanceled

datatype entry_status = EPending | EProcessing | EAdded | ESkipped | EFailed

text \<open>The three statuses an entry can be finalized with.\<close>

datatype entry_result = Added | Failed | Skipped

fun result_status :: "entry_result \<Rightarrow> entry_status" where
  "result_status Added = EAdded"
| "result_status Failed = EFailed"
| "result_status Skipped = ESkipped"

record import_entry =
  oe_id :: string
  oe_job :: string
  oe_sequence :: int
  oe_folder :: "string option"
  oe_title :: string
  oe_url :: string
  oe_status :: entry_status
  oe_attempt :: int
  oe_lease_owner :: "string option"
  oe_lease_expires_at :: "time option"
  oe_processing_started_at :: "time option"
  oe_error :: "string option"
  oe_processed_at :: "time option"

record import_job =
  oj_id :: string
  oj_user :: string
  oj_status :: import_status
  oj_total :: int
  oj_processed :: int
  oj_added :: int
  oj_skipped :: int
  oj_failed :: int
  oj_folders :: int
  oj_cancel_requested_at :: "time option"
  oj_started_at :: "time option"
  oj_completed_at :: "time option"
  oj_last_error :: "string option"

record import_store =
  jobs :: "import_job list"
  entries :: "import_entry list"

record entry_lease =
  el_attempt :: int
  el_folder :: "string option"
  el_id :: string
  el_job :: string
  el_expires_at :: time
  el_owner :: string
  el_sequence :: int
  el_title :: string
  el_url :: string

definition job_active :: "import_job \<Rightarrow> bool" where
  "job_active j \<longleftrightarrow> oj_status j \<in> {JPending, JProcessing}"

definition is_terminal_status :: "import_status \<Rightarrow> bool" where
  "is_terminal_status st \<longleftrightarrow> st = JCanceled \<or> st = JCompleted \<or> st = JFailed"

definition opml_import_entry_lease_ms :: int where
  "opml_import_entry_lease_ms = 60000"

subsection \<open>Leases on entries\<close>

definition entry_claimable :: "import_store \<Rightarrow> string \<Rightarrow> time \<Rightarrow> import_entry \<Rightarrow> bool" where
  "entry_claimable s job_id now e \<longleftrightarrow>
     oe_job e = job_id \<and>
     (case row_at oj_id (oe_job e) (jobs s) of
        None \<Rightarrow> False
      | Some j \<Rightarrow> job_active j \<and> oj_cancel_requested_at j = None) \<and>
     (oe_status e = EPending \<or>
      (oe_status e = EProcessing \<and>
        (oe_lease_expires_at e = None \<or> lte_opt (oe_lease_expires_at e) now)))"

definition lease_of_entry :: "import_entry \<Rightarrow> string \<Rightarrow> time \<Rightarrow> entry_lease" where
  "lease_of_entry e owner expires =
     \<lparr>el_attempt = oe_attempt e, el_folder = oe_folder e, el_id = oe_id e, el_job = oe_job e,
      el_expires_at = expires, el_owner = owner, el_sequence = oe_sequence e,
      el_title = oe_title e, el_url = oe_url e\<rparr>"

text \<open>
  One SQL statement: \<open>locked\<close> are the rows other transactions hold, which \<open>SKIP LOCKED\<close> passes over.
\<close>

definition claim_opml_import_entry ::
  "(string \<Rightarrow> bool) \<Rightarrow> int \<Rightarrow> time \<Rightarrow> string \<Rightarrow> string \<Rightarrow> import_store \<Rightarrow>
   entry_lease option \<times> import_store" where
  "claim_opml_import_entry locked lease_ms now owner job_id s =
     (let expires = add_milliseconds now lease_ms
      in case least_by oe_sequence
                (filter (\<lambda>e. entry_claimable s job_id now e \<and> \<not> locked (oe_id e)) (entries s)) of
           None \<Rightarrow> (None, s)
         | Some next_entry \<Rightarrow>
             let upd = (\<lambda>e. e\<lparr>oe_attempt := oe_attempt e + 1, oe_lease_owner := Some owner,
                              oe_lease_expires_at := Some expires,
                              oe_processing_started_at := Some now, oe_status := EProcessing\<rparr>)
             in (Some (lease_of_entry (upd next_entry) owner expires),
                 s\<lparr>entries := fst (update_many (\<lambda>e. oe_id e = oe_id next_entry) upd (entries s))\<rparr>))"

definition entry_lease_where :: "entry_lease \<Rightarrow> time \<Rightarrow> import_entry \<Rightarrow> bool" where
  "entry_lease_where l now e \<longleftrightarrow>
     oe_attempt e = el_attempt l \<and> oe_id e = el_id l \<and> gt_opt (oe_lease_expires_at e) now \<and>
     oe_lease_owner e = Some (el_owner l) \<and> oe_status e = EProcessing"

definition finished_entry :: "time \<Rightarrow> entry_result \<times> string option \<Rightarrow> import_entry \<Rightarrow> import_entry" where
  "finished_entry now x e =
     e\<lparr>oe_error := snd x, oe_lease_expires_at := None, oe_lease_owner := None,
       oe_processed_at := Some now, oe_status := result_status (fst x)\<rparr>"

definition bump_counters :: "entry_result \<Rightarrow> import_job \<Rightarrow> import_job" where
  "bump_counters r j =
     j\<lparr>oj_added := oj_added j + of_bool (r = Added),
       oj_failed := oj_failed j + of_bool (r = Failed),
       oj_processed := oj_processed j + 1,
       oj_skipped := oj_skipped j + of_bool (r = Skipped)\<rparr>"

definition finalize_opml_import_entry ::
  "time \<Rightarrow> entry_result \<times> string option \<Rightarrow> entry_lease \<Rightarrow> import_store \<Rightarrow> bool \<times> import_store" where
  "finalize_opml_import_entry now x l s =
     (case row_at oe_id (el_id l) (entries s) of
        None \<Rightarrow> (False, s)
      | Some e \<Rightarrow>
          (case row_at oj_id (oe_job e) (jobs s) of
             None \<Rightarrow> (False, s)
           | Some j \<Rightarrow>
               if entry_lease_where l now e \<and> job_active j \<and> oj_cancel_requested_at j = None \<and>
                  oj_processed j < oj_total j
               then (True,
                 s\<lparr>entries := fst (update_many (\<lambda>y. oe_id y = oe_id e)
                     (finished_entry now x) (entries s)),
                   jobs := fst (update_many (\<lambda>y. oj_id y = oe_job e)
                     (bump_counters (fst x)) (jobs s))\<rparr>)
               else (False, s)))"

definition renew_opml_import_entry_lease ::
  "int \<Rightarrow> time \<Rightarrow> entry_lease \<Rightarrow> import_store \<Rightarrow> bool \<times> import_store" where
  "renew_opml_import_entry_lease lease_ms now l s =
     (let (t, count) = update_many (entry_lease_where l now)
            (\<lambda>e. e\<lparr>oe_lease_expires_at := Some (add_milliseconds now lease_ms)\<rparr>) (entries s)
      in (count = 1, s\<lparr>entries := t\<rparr>))"

definition run_with_entry_lease_heartbeat ::
  "entry_lease \<Rightarrow> import_store heartbeat_event list \<Rightarrow> 'a option \<Rightarrow> time \<Rightarrow> import_store \<Rightarrow>
   (bool \<times> 'a) option \<times> import_store" where
  "run_with_entry_lease_heartbeat =
     run_with_heartbeat (renew_opml_import_entry_lease opml_import_entry_lease_ms)"

subsection \<open>The lease laws\<close>

definition entries_invar :: "import_store \<Rightarrow> bool" where
  "entries_invar s \<longleftrightarrow> distinct (map oe_id (entries s))"

definition entry_gen :: "import_store \<Rightarrow> string \<Rightarrow> int" where
  "entry_gen s i = (case row_at oe_id i (entries s) of None \<Rightarrow> 0 | Some e \<Rightarrow> oe_attempt e)"

definition entry_live :: "time \<Rightarrow> entry_lease \<Rightarrow> import_store \<Rightarrow> bool" where
  "entry_live now l s \<longleftrightarrow>
     (\<exists>e. row_at oe_id (el_id l) (entries s) = Some e \<and> entry_lease_where l now e)"

text \<open>A worker claims with its owner name on a job.\<close>

definition entry_claim ::
  "(string \<Rightarrow> bool) \<Rightarrow> int \<Rightarrow> time \<Rightarrow> string \<times> string \<Rightarrow> import_store \<Rightarrow>
   entry_lease option \<times> import_store" where
  "entry_claim locked lease_ms now w s =
     claim_opml_import_entry locked lease_ms now (fst w) (snd w) s"

lemma entry_claim_SomeD:
  assumes "entries_invar s" and "entry_claim locked ms now w s = (Some l, s')"
  obtains e where "row_at oe_id (el_id l) (entries s) = Some e" "entry_claimable s (snd w) now e"
    "\<not> locked (oe_id e)" "el_attempt l = oe_attempt e + 1" "el_job l = oe_job e"
    "el_owner l = fst w"
    "\<forall>e' \<in> set (entries s). entry_claimable s (snd w) now e' \<and> \<not> locked (oe_id e') \<longrightarrow>
        oe_sequence e \<le> oe_sequence e'"
    "s' = s\<lparr>entries := fst (update_many (\<lambda>e. oe_id e = el_id l)
      (\<lambda>e. e\<lparr>oe_attempt := oe_attempt e + 1, oe_lease_owner := Some (fst w),
             oe_lease_expires_at := Some (add_milliseconds now ms),
             oe_processing_started_at := Some now, oe_status := EProcessing\<rparr>) (entries s))\<rparr>"
proof -
  let ?c = "filter (\<lambda>e. entry_claimable s (snd w) now e \<and> \<not> locked (oe_id e)) (entries s)"
  obtain e where e: "least_by oe_sequence ?c = Some e"
    using assms(2)
    by (cases "least_by oe_sequence ?c") (auto simp: entry_claim_def claim_opml_import_entry_def)
  have l: "l = lease_of_entry (e\<lparr>oe_attempt := oe_attempt e + 1\<rparr>) (fst w) (add_milliseconds now ms)"
    and s': "s' = s\<lparr>entries := fst (update_many (\<lambda>x. oe_id x = oe_id e)
      (\<lambda>e. e\<lparr>oe_attempt := oe_attempt e + 1, oe_lease_owner := Some (fst w),
             oe_lease_expires_at := Some (add_milliseconds now ms),
             oe_processing_started_at := Some now, oe_status := EProcessing\<rparr>) (entries s))\<rparr>"
    using assms(2) e
    by (auto simp: entry_claim_def claim_opml_import_entry_def Let_def lease_of_entry_def)
  have m: "e \<in> set (entries s)" "entry_claimable s (snd w) now e" "\<not> locked (oe_id e)"
    "\<forall>e' \<in> set (entries s). entry_claimable s (snd w) now e' \<and> \<not> locked (oe_id e') \<longrightarrow>
        oe_sequence e \<le> oe_sequence e'"
    using least_by_Some [OF e] by auto
  have "row_at oe_id (el_id l) (entries s) = Some e"
    using row_at_distinct [of oe_id "entries s" e] m(1) assms(1)
    by (simp add: entries_invar_def l lease_of_entry_def)
  with m s' l show thesis
    by (intro that [of e]) (auto simp: lease_of_entry_def)
qed

lemma entry_claim_None: "entry_claim locked ms now w s = (None, s') \<Longrightarrow> s' = s"
  by (auto simp: entry_claim_def claim_opml_import_entry_def Let_def split: option.splits)

lemma entry_where_id: "entry_lease_where l now e \<Longrightarrow> oe_id e = el_id l"
  by (simp add: entry_lease_where_def)

lemma entry_update_count:
  "entries_invar s \<Longrightarrow> snd (update_many (entry_lease_where l now) f (entries s)) =
     (if entry_live now l s then 1 else 0)"
  using update_many_count [of oe_id "entries s" "entry_lease_where l now" "el_id l" f]
  by (auto simp: entries_invar_def entry_live_def entry_where_id split: option.splits)

lemma entry_live_gen: "entry_live now l s \<Longrightarrow> el_attempt l = entry_gen s (el_id l)"
  by (auto simp: entry_live_def entry_gen_def entry_lease_where_def)

lemma entry_live_earlier: "entry_live now l s \<Longrightarrow> u \<le> now \<Longrightarrow> entry_live u l s"
  by (auto simp: entry_live_def entry_lease_where_def intro: gt_opt_antimono)

lemma entry_gen_update:
  assumes "\<And>e. oe_id (f e) = oe_id e" and "\<And>e. oe_attempt (f e) = oe_attempt e"
  shows "entry_gen (s\<lparr>entries := fst (update_many p f (entries s)), jobs := js\<rparr>) = entry_gen s"
    and "entry_gen (s\<lparr>entries := fst (update_many p f (entries s))\<rparr>) = entry_gen s"
  by (auto simp: entry_gen_def fun_eq_iff row_at_update_many [of oe_id, OF assms(1)] assms(2)
      split: option.splits)

lemma finished_entry_simps [simp]:
  "oe_id (finished_entry now x e) = oe_id e" "oe_job (finished_entry now x e) = oe_job e"
  "oe_attempt (finished_entry now x e) = oe_attempt e"
  "oe_status (finished_entry now x e) = result_status (fst x)"
  "oe_lease_owner (finished_entry now x e) = None"
  "oe_lease_expires_at (finished_entry now x e) = None"
  "oe_error (finished_entry now x e) = snd x"
  by (simp_all add: finished_entry_def)

lemma bump_counters_simps [simp]:
  "oj_id (bump_counters r j) = oj_id j" "oj_total (bump_counters r j) = oj_total j"
  "oj_added (bump_counters r j) = oj_added j + of_bool (r = Added)"
  "oj_failed (bump_counters r j) = oj_failed j + of_bool (r = Failed)"
  "oj_skipped (bump_counters r j) = oj_skipped j + of_bool (r = Skipped)"
  "oj_processed (bump_counters r j) = oj_processed j + 1"
  "oj_status (bump_counters r j) = oj_status j"
  "oj_cancel_requested_at (bump_counters r j) = oj_cancel_requested_at j"
  by (simp_all add: bump_counters_def)

definition finalized :: "time \<Rightarrow> entry_result \<times> string option \<Rightarrow> import_entry \<Rightarrow> import_store \<Rightarrow> import_store" where
  "finalized now x e s =
     s\<lparr>entries := fst (update_many (\<lambda>y. oe_id y = oe_id e) (finished_entry now x) (entries s)),
       jobs := fst (update_many (\<lambda>y. oj_id y = oe_job e) (bump_counters (fst x)) (jobs s))\<rparr>"

lemma finalize_cases:
  obtains (lost) "finalize_opml_import_entry now x l s = (False, s)"
  | (completed) e j where "row_at oe_id (el_id l) (entries s) = Some e"
      "row_at oj_id (oe_job e) (jobs s) = Some j" "entry_lease_where l now e" "job_active j"
      "oj_cancel_requested_at j = None" "oj_processed j < oj_total j"
      "finalize_opml_import_entry now x l s = (True, finalized now x e s)"
proof -
  have "finalize_opml_import_entry now x l s = (False, s) \<or>
      (\<exists>e j. row_at oe_id (el_id l) (entries s) = Some e \<and> row_at oj_id (oe_job e) (jobs s) = Some j \<and>
        entry_lease_where l now e \<and> job_active j \<and> oj_cancel_requested_at j = None \<and>
        oj_processed j < oj_total j \<and>
        finalize_opml_import_entry now x l s = (True, finalized now x e s))"
    by (simp add: finalize_opml_import_entry_def finalized_def split: option.split)
  then show thesis using lost completed by blast
qed

interpretation entry_lease: fenced_lease
  "entry_claim locked ms" "renew_opml_import_entry_lease ms" finalize_opml_import_entry
  entry_live el_id el_attempt entry_gen entries_invar
proof unfold_locales
  fix s s' :: import_store and w now u l l' x
  assume inv: "entries_invar s"
  have d: "distinct (map oe_id (entries s))" using inv by (simp add: entries_invar_def)
  show "entries_invar (snd (entry_claim locked ms now w s))"
  proof (cases "fst (entry_claim locked ms now w s)")
    case None
    then show ?thesis using entry_claim_None inv by (metis prod.collapse)
  next
    case (Some k)
    then obtain s2 where c: "entry_claim locked ms now w s = (Some k, s2)" by (metis prod.collapse)
    then have "entries_invar s2"
      using d by (elim entry_claim_SomeD [OF inv]) (simp add: entries_invar_def)
    with c show ?thesis by simp
  qed
  show "entry_live now l s'" if "entry_claim locked ms now w s = (Some l, s')"
    using that
    by (elim entry_claim_SomeD [OF inv])
      (auto simp: entry_live_def row_at_update_many entry_lease_where_def dest: row_at_key)
  show "el_id l' \<noteq> el_id l"
    if "entry_live now l s" "entry_claim locked ms now w s = (Some l', s')"
    using that(1)
    by (rule_tac entry_claim_SomeD [OF inv that(2)])
      (auto simp: entry_live_def entry_claimable_def entry_lease_where_def gt_opt_iff lte_opt_iff)
  show "el_attempt l = entry_gen s (el_id l) + 1 \<and>
      entry_gen s' = (entry_gen s)(el_id l := entry_gen s (el_id l) + 1)"
    if "entry_claim locked ms now w s = (Some l, s')"
    using that
    by (elim entry_claim_SomeD [OF inv])
      (auto simp: entry_gen_def row_at_update_many fun_eq_iff split: option.splits dest: row_at_key)
  show "s' = s" if "entry_claim locked ms now w s = (None, s')"
    by (rule entry_claim_None [OF that])
  show "entry_live now l (snd (renew_opml_import_entry_lease ms now l s))" if "entry_live now l s"
    using that
    by (auto simp: entry_live_def renew_opml_import_entry_lease_def case_prod_beta
        row_at_update_many entry_lease_where_def)
  show "\<not> entry_live u l (snd (finalize_opml_import_entry now x l s))"
    if "fst (finalize_opml_import_entry now x l s)"
    using that
    by (cases rule: finalize_cases [of now x l s])
      (auto simp: entry_live_def row_at_update_many entry_lease_where_def finalized_def)
  show "finalize_opml_import_entry now x l s = (False, s)" if "\<not> entry_live now l s"
    using that by (cases rule: finalize_cases [of now x l s]) (auto simp: entry_live_def)
  show "entry_gen (snd (finalize_opml_import_entry now x l s)) = entry_gen s"
    by (cases rule: finalize_cases [of now x l s]) (auto simp: entry_gen_update finalized_def)
  show "entries_invar (snd (finalize_opml_import_entry now x l s))"
    using d inv
    by (cases rule: finalize_cases [of now x l s]) (auto simp: entries_invar_def finalized_def)
qed (auto simp: renew_opml_import_entry_lease_def case_prod_beta entry_update_count entry_live_gen
    entry_live_earlier entry_gen_update entries_invar_def update_many_none)

subsection \<open>Jobs\<close>

definition opml_import_batch_size :: nat where
  "opml_import_batch_size = 20"

definition opml_import_operation_deadline_ms :: int where
  "opml_import_operation_deadline_ms = 10 * 60 * 1000"

datatype import_error = Active_Import | Not_Started | Not_Restarted

definition update_job :: "(import_job \<Rightarrow> bool) \<Rightarrow> (import_job \<Rightarrow> import_job) \<Rightarrow> import_store \<Rightarrow> import_store" where
  "update_job p f s = s\<lparr>jobs := fst (update_many p f (jobs s))\<rparr>"

definition complete_opml_import_job :: "string \<Rightarrow> time \<Rightarrow> import_store \<Rightarrow> import_store" where
  "complete_opml_import_job i now s =
     update_job (\<lambda>j. oj_id j = i \<and> oj_cancel_requested_at j = None \<and> job_active j \<and>
         \<not> list_ex (\<lambda>e. oe_job e = oj_id j \<and> oe_status e \<in> {EPending, EProcessing}) (entries s))
       (\<lambda>j. j\<lparr>oj_completed_at := Some now, oj_status := JCompleted\<rparr>) s"

definition mark_opml_import_canceled :: "string \<Rightarrow> time \<Rightarrow> import_store \<Rightarrow> import_store" where
  "mark_opml_import_canceled i now =
     update_job (\<lambda>j. oj_id j = i \<and> job_active j)
       (\<lambda>j. j\<lparr>oj_completed_at := Some now, oj_status := JCanceled\<rparr>)"

definition mark_opml_import_failed :: "string \<Rightarrow> string \<Rightarrow> time \<Rightarrow> import_store \<Rightarrow> import_store" where
  "mark_opml_import_failed i message now =
     update_job (\<lambda>j. oj_id j = i \<and> job_active j)
       (\<lambda>j. j\<lparr>oj_completed_at := Some now, oj_last_error := Some message, oj_status := JFailed\<rparr>)"

text \<open>
  The partial unique index of the migrations allows one active job per user; a write that would
  break it rejects with code P2002, and the transaction around it is rolled back.
\<close>

definition active_import_conflict :: "import_store \<Rightarrow> string \<Rightarrow> string \<Rightarrow> bool" where
  "active_import_conflict s user i \<longleftrightarrow>
     list_ex (\<lambda>j. oj_user j = user \<and> job_active j \<and> oj_id j \<noteq> i) (jobs s)"

definition new_import_entry :: "string \<Rightarrow> string \<Rightarrow> nat \<Rightarrow> string option \<times> string \<times> string \<Rightarrow> import_entry" where
  "new_import_entry i entry_id sequence p =
     \<lparr>oe_id = entry_id, oe_job = i, oe_sequence = int sequence, oe_folder = fst p,
      oe_title = fst (snd p), oe_url = snd (snd p), oe_status = EPending, oe_attempt = 0,
      oe_lease_owner = None, oe_lease_expires_at = None, oe_processing_started_at = None,
      oe_error = None, oe_processed_at = None\<rparr>"

definition folder_count :: "(string option \<times> string \<times> string) list \<Rightarrow> nat" where
  "folder_count ps =
     length (remdups (concat (map (\<lambda>p. case fst p of None \<Rightarrow> []
       | Some name \<Rightarrow> if name = [] then [] else [name]) ps)))"

text \<open>
  \<open>i\<close> and \<open>ids\<close> are the identifiers the database generates for the job and its entries, \<open>parsed\<close>
  what \<open>parseOpmlSubscriptions\<close> returned, \<open>enqueued\<close> whether the queue took the job.
\<close>

definition create_opml_import_job ::
  "string \<Rightarrow> (nat \<Rightarrow> string) \<Rightarrow> bool \<Rightarrow> time \<Rightarrow> string \<Rightarrow> (string option \<times> string \<times> string) list \<Rightarrow>
   import_store \<Rightarrow> (import_error + string \<times> nat) \<times> import_store" where
  "create_opml_import_job i ids enqueued now user parsed s =
     (if active_import_conflict s user i then (Inl Active_Import, s)
      else
        let s1 = s\<lparr>jobs := jobs s @ [\<lparr>oj_id = i, oj_user = user, oj_status = JPending,
                      oj_total = int (length parsed), oj_processed = 0, oj_added = 0,
                      oj_skipped = 0, oj_failed = 0, oj_folders = int (folder_count parsed),
                      oj_cancel_requested_at = None, oj_started_at = None,
                      oj_completed_at = None, oj_last_error = None\<rparr>],
                  entries := entries s @
                    map (\<lambda>(n, p). new_import_entry i (ids n) n p) (enumerate 0 parsed)\<rparr>
        in if enqueued then (Inr (i, length parsed), s1)
           else (Inl Not_Started,
             update_job (\<lambda>j. oj_id j = i)
               (\<lambda>j. j\<lparr>oj_completed_at := Some now,
                      oj_last_error := Some ''The background worker could not be reached. Retry this import after it is available.'',
                      oj_status := JFailed\<rparr>) s1))"

definition cancel_opml_import_job :: "string \<Rightarrow> string \<Rightarrow> time \<Rightarrow> import_store \<Rightarrow> bool \<times> import_store" where
  "cancel_opml_import_job i user now s =
     (let (t, count) = update_many (\<lambda>j. oj_id j = i \<and> job_active j \<and> oj_user j = user)
            (\<lambda>j. j\<lparr>oj_cancel_requested_at := Some now\<rparr>) (jobs s)
      in (count = 1, s\<lparr>jobs := t\<rparr>))"

definition count_entries :: "import_store \<Rightarrow> string \<Rightarrow> entry_status \<Rightarrow> int" where
  "count_entries s i st =
     int (length (filter (\<lambda>e. oe_job e = i \<and> oe_status e = st) (entries s)))"

text \<open>The transaction of \<open>retryOpmlImportJob\<close>.\<close>

definition reset_import :: "string \<Rightarrow> import_store \<Rightarrow> import_store" where
  "reset_import i s =
     (let s1 = s\<lparr>entries := fst (update_many
            (\<lambda>e. oe_job e = i \<and> oe_status e \<in> {EFailed, EProcessing})
            (\<lambda>e. e\<lparr>oe_error := None, oe_lease_expires_at := None, oe_lease_owner := None,
                   oe_processed_at := None, oe_processing_started_at := None,
                   oe_status := EPending\<rparr>) (entries s))\<rparr>;
          added = count_entries s1 i EAdded;
          skipped = count_entries s1 i ESkipped
      in update_job (\<lambda>j. oj_id j = i)
           (\<lambda>j. j\<lparr>oj_added := added, oj_cancel_requested_at := None, oj_completed_at := None,
                  oj_failed := 0, oj_last_error := None, oj_processed := added + skipped,
                  oj_skipped := skipped, oj_started_at := None, oj_status := JPending\<rparr>) s1)"

definition retry_opml_import_job ::
  "string \<Rightarrow> string \<Rightarrow> bool \<Rightarrow> time \<Rightarrow> import_store \<Rightarrow> (import_error + bool) \<times> import_store" where
  "retry_opml_import_job i user enqueued now s =
     (if \<not> list_ex (\<lambda>j. oj_id j = i \<and> is_terminal_status (oj_status j) \<and> oj_user j = user) (jobs s)
      then (Inr False, s)
      else if active_import_conflict s user i then (Inl Active_Import, s)
      else
        let s1 = reset_import i s
        in if enqueued then (Inr True, s1)
           else (Inl Not_Restarted,
             mark_opml_import_failed i
               ''The background worker could not be reached. Retry this import after it is available.''
               now s1))"

text \<open>What one pass of the batch loop of \<open>processOpmlImportJob\<close> meets.\<close>

record import_turn =
  turn_env :: "import_store \<Rightarrow> import_store"
  turn_eligible :: bool
  turn_batch_deadline :: bool
  turn_locked :: "string \<Rightarrow> bool"
  turn_owner :: string
  turn_claim_at :: time
  turn_events :: "import_store heartbeat_event list"
  turn_result :: "entry_result \<times> string option"
  turn_done_at :: time
  turn_finalize_at :: time

datatype import_outcome = Missing | Status import_status

fun import_turns :: "nat \<Rightarrow> (nat \<Rightarrow> import_turn) \<Rightarrow> string \<Rightarrow> import_store \<Rightarrow>
  import_outcome option \<times> import_store" where
  "import_turns 0 turns i s = (None, s)"
| "import_turns (Suc n) turns i s0 =
     (let tr = turns n; s = turn_env tr s0
      in case row_at oj_id i (jobs s) of
           None \<Rightarrow> (Some Missing, s)
         | Some j \<Rightarrow>
             if oj_cancel_requested_at j \<noteq> None \<or> oj_status j = JCanceled
             then (Some (Status JCanceled), mark_opml_import_canceled i (turn_claim_at tr) s)
             else if \<not> turn_eligible tr
             then (Some (Status JCanceled), mark_opml_import_canceled i (turn_claim_at tr) s)
             else if turn_batch_deadline tr then (Some (Status JProcessing), s)
             else case claim_opml_import_entry (turn_locked tr) opml_import_entry_lease_ms
                         (turn_claim_at tr) (turn_owner tr) i s of
                    (None, s1) \<Rightarrow> (None, s1)
                  | (Some l, s1) \<Rightarrow>
                      (case run_with_entry_lease_heartbeat l (turn_events tr)
                              (Some (turn_result tr)) (turn_done_at tr) s1 of
                         (Some (True, r), s2) \<Rightarrow>
                           (let (ok, s3) = finalize_opml_import_entry (turn_finalize_at tr) r l s2
                            in if ok then import_turns n turns i s3
                               else (Some (Status JProcessing), s3))
                       | (_, s2) \<Rightarrow> (Some (Status JProcessing), s2)))"

record import_start =
  start_eligible :: bool
  start_now :: time
  start_check :: time
  start_mark :: time
  start_env :: "import_store \<Rightarrow> import_store"

definition process_opml_import_job ::
  "import_start \<Rightarrow> (nat \<Rightarrow> import_turn) \<Rightarrow> time \<Rightarrow> string \<Rightarrow> import_store \<Rightarrow> import_outcome \<times> import_store" where
  "process_opml_import_job st turns completed_at i s =
     (case row_at oj_id i (jobs s) of
        None \<Rightarrow> (Missing, s)
      | Some j \<Rightarrow>
          if is_terminal_status (oj_status j) then (Status (oj_status j), s)
          else if oj_cancel_requested_at j \<noteq> None
          then (Status JCanceled, mark_opml_import_canceled i (start_mark st) s)
          else if \<not> start_eligible st
          then (Status JCanceled, mark_opml_import_canceled i (start_mark st) s)
          else
            let started = (case oj_started_at j of Some t \<Rightarrow> t | None \<Rightarrow> start_now st)
            in if opml_import_operation_deadline_ms \<le> start_check st - started
               then (Status JFailed, mark_opml_import_failed i
                  ''This import exceeded its 10-minute processing limit. Retry it to continue from the saved checkpoint.''
                  (start_mark st) s)
               else
                 let s1 = update_job (\<lambda>x. oj_id x = i)
                       (\<lambda>x. x\<lparr>oj_started_at := Some started, oj_status := JProcessing\<rparr>)
                       (start_env st s)
                 in case import_turns opml_import_batch_size turns i s1 of
                      (Some out, s2) \<Rightarrow> (out, s2)
                    | (None, s2) \<Rightarrow>
                        if list_ex (\<lambda>e. oe_job e = i \<and> oe_status e \<in> {EPending, EProcessing}) (entries s2)
                        then (Status JProcessing, s2)
                        else (Status JCompleted, complete_opml_import_job i completed_at s2))"

subsection \<open>The counters of a job agree with its entries\<close>

definition import_consistent :: "import_store \<Rightarrow> bool" where
  "import_consistent s \<longleftrightarrow>
     distinct (map oe_id (entries s)) \<and> distinct (map oj_id (jobs s)) \<and>
     (\<forall>j \<in> set (jobs s).
        oj_total j = int (length (filter (\<lambda>e. oe_job e = oj_id j) (entries s))) \<and>
        oj_added j = count_entries s (oj_id j) EAdded \<and>
        oj_skipped j = count_entries s (oj_id j) ESkipped \<and>
        oj_failed j = count_entries s (oj_id j) EFailed \<and>
        oj_processed j = oj_added j + oj_skipped j + oj_failed j)"

definition counted :: "entry_status \<Rightarrow> bool" where
  "counted st \<longleftrightarrow> st \<in> {EAdded, ESkipped, EFailed}"

lemma filter_map_same:
  "(\<And>x. x \<in> set t \<Longrightarrow> q (g x) = q x) \<Longrightarrow> length (filter q (map g t)) = length (filter q t)"
  by (induction t) auto

lemma consistent_entries_invar: "import_consistent s \<Longrightarrow> entries_invar s"
  by (simp add: import_consistent_def entries_invar_def)

lemma consistent_entry_update:
  assumes c: "import_consistent s"
    and f: "\<And>e. oe_id (f e) = oe_id e" "\<And>e. oe_job (f e) = oe_job e"
    and st: "\<And>e. e \<in> set (entries s) \<Longrightarrow> p e \<Longrightarrow> \<not> counted (oe_status e) \<and> \<not> counted (oe_status (f e))"
  shows "import_consistent (s\<lparr>entries := fst (update_many p f (entries s))\<rparr>)"
proof -
  have n: "length (filter (\<lambda>e. oe_job e = i) (fst (update_many p f (entries s)))) =
      length (filter (\<lambda>e. oe_job e = i) (entries s))" for i
    unfolding update_many_def fst_conv by (rule filter_map_same) (simp add: f)
  have k: "length (filter (\<lambda>e. oe_job e = i \<and> oe_status e = x) (fst (update_many p f (entries s)))) =
      length (filter (\<lambda>e. oe_job e = i \<and> oe_status e = x) (entries s))" if "counted x" for i x
    unfolding update_many_def fst_conv
    by (rule filter_map_same) (use st that in \<open>auto simp: f\<close>)
  show ?thesis
    using c n k [of EAdded] k [of ESkipped] k [of EFailed]
    by (simp add: import_consistent_def count_entries_def counted_def f)
qed

lemma consistent_job_update:
  assumes c: "import_consistent s"
    and f: "\<And>j. oj_id (f j) = oj_id j \<and> oj_total (f j) = oj_total j \<and> oj_added (f j) = oj_added j \<and>
      oj_skipped (f j) = oj_skipped j \<and> oj_failed (f j) = oj_failed j \<and>
      oj_processed (f j) = oj_processed j"
  shows "import_consistent (update_job p f s)"
  using c by (auto simp: import_consistent_def update_job_def update_many_set count_entries_def f)

lemma consistent_claim:
  "import_consistent s \<Longrightarrow> import_consistent (snd (claim_opml_import_entry locked ms now w i s))"
proof -
  assume c: "import_consistent s"
  have inv: "entries_invar s" by (rule consistent_entries_invar [OF c])
  have eq: "claim_opml_import_entry locked ms now w i s = entry_claim locked ms now (w, i) s"
    by (simp add: entry_claim_def)
  obtain x s' where cl: "entry_claim locked ms now (w, i) s = (x, s')" by fastforce
  show ?thesis
  proof (cases x)
    case None
    then show ?thesis using cl entry_claim_None c eq by fastforce
  next
    case (Some l)
    then obtain e where e: "row_at oe_id (el_id l) (entries s) = Some e" "entry_claimable s i now e"
      and s': "s' = s\<lparr>entries := fst (update_many (\<lambda>e. oe_id e = el_id l)
      (\<lambda>e. e\<lparr>oe_attempt := oe_attempt e + 1, oe_lease_owner := Some w,
             oe_lease_expires_at := Some (add_milliseconds now ms),
             oe_processing_started_at := Some now, oe_status := EProcessing\<rparr>) (entries s))\<rparr>"
      using cl by (auto elim: entry_claim_SomeD [OF inv])
    have "y = e" if "y \<in> set (entries s)" "oe_id y = el_id l" for y
      using row_at_distinct [of oe_id "entries s" y] that e inv by (simp add: entries_invar_def)
    then show ?thesis
      unfolding eq cl snd_conv s'
      by (intro consistent_entry_update [OF c]) (use e in \<open>auto simp: entry_claimable_def counted_def\<close>)
  qed
qed

lemma consistent_renew:
  "import_consistent s \<Longrightarrow> import_consistent (snd (renew_opml_import_entry_lease ms now l s))"
  unfolding renew_opml_import_entry_lease_def case_prod_beta Let_def snd_conv
  by (rule consistent_entry_update) (auto simp: entry_lease_where_def counted_def)

lemma consistent_finalize:
  assumes c: "import_consistent s"
  shows "import_consistent (snd (finalize_opml_import_entry now x l s))"
proof (cases rule: finalize_cases [of now x l s])
  case (completed e j)
  let ?es = "fst (update_many (\<lambda>y. oe_id y = oe_id e) (finished_entry now x) (entries s))"
  have d: "distinct (map oe_id (entries s))" using c by (simp add: import_consistent_def)
  have row: "row_at oe_id (oe_id e) (entries s) = Some e"
    using completed(1) row_at_key by fastforce
  have total: "length (filter (\<lambda>e. oe_job e = i) ?es) = length (filter (\<lambda>e. oe_job e = i) (entries s))" for i
    unfolding update_many_def fst_conv by (rule filter_map_same) simp
  have cnt: "int (length (filter (\<lambda>y. oe_job y = i \<and> oe_status y = st) ?es)) =
      count_entries s i st + of_bool (oe_job e = i \<and> st = result_status (fst x))"
    if "counted st" for i st
    unfolding count_row_update [OF d row] count_entries_def
    using completed(3) that by (auto simp: entry_lease_where_def counted_def)
  have "oj_total k = int (length (filter (\<lambda>e. oe_job e = oj_id k) ?es)) \<and>
      oj_added k = count_entries (finalized now x e s) (oj_id k) EAdded \<and>
      oj_skipped k = count_entries (finalized now x e s) (oj_id k) ESkipped \<and>
      oj_failed k = count_entries (finalized now x e s) (oj_id k) EFailed \<and>
      oj_processed k = oj_added k + oj_skipped k + oj_failed k"
    if mem: "k \<in> set (jobs (finalized now x e s))" for k
  proof -
    have fin: "count_entries (finalized now x e s) i st =
        count_entries s i st + of_bool (oe_job e = i \<and> st = result_status (fst x))"
      if "counted st" for i st
      using cnt [OF that] by (simp add: count_entries_def finalized_def)
    obtain k0 where k0: "k0 \<in> set (jobs s)"
      "k = (if oj_id k0 = oe_job e then bump_counters (fst x) k0 else k0)"
      using mem by (auto simp: finalized_def update_many_def)
    have c0: "oj_total k0 = int (length (filter (\<lambda>e. oe_job e = oj_id k0) (entries s)))"
      "oj_added k0 = count_entries s (oj_id k0) EAdded"
      "oj_skipped k0 = count_entries s (oj_id k0) ESkipped"
      "oj_failed k0 = count_entries s (oj_id k0) EFailed"
      "oj_processed k0 = oj_added k0 + oj_skipped k0 + oj_failed k0"
      using c k0(1) by (simp_all add: import_consistent_def)
    show ?thesis
    proof (cases "oj_id k0 = oe_job e")
      case True
      then show ?thesis
        using c0 k0(2) by (cases "fst x") (simp_all add: total fin counted_def)
    next
      case False
      then show ?thesis using c0 k0(2) by (simp add: total fin counted_def)
    qed
  qed
  then show ?thesis
    using c completed(7) by (simp add: import_consistent_def finalized_def)
qed (simp add: c)

lemma consistent_reset:
  assumes c: "import_consistent s"
  shows "import_consistent (reset_import i s)"
proof -
  let ?p = "\<lambda>e. oe_job e = i \<and> oe_status e \<in> {EFailed, EProcessing}"
  let ?f = "\<lambda>e. e\<lparr>oe_error := None, oe_lease_expires_at := None, oe_lease_owner := None,
                   oe_processed_at := None, oe_processing_started_at := None, oe_status := EPending\<rparr>"
  define es where "es = fst (update_many ?p ?f (entries s))"
  define cnt where "cnt k st = int (length (filter (\<lambda>y. oe_job y = k \<and> oe_status y = st) es))" for k st
  have keys: "map oe_id es = map oe_id (entries s)"
    by (simp add: es_def)
  have total: "length (filter (\<lambda>e. oe_job e = k) es) = length (filter (\<lambda>e. oe_job e = k) (entries s))" for k
    unfolding es_def update_many_def fst_conv by (rule filter_map_same) simp
  have same: "cnt k st = count_entries s k st"
    if "st = EAdded \<or> st = ESkipped \<or> st = EFailed \<and> k \<noteq> i" for k st
    unfolding es_def cnt_def count_entries_def update_many_def fst_conv of_nat_eq_iff
    by (rule filter_map_same) (use that in auto)
  have "oe_status e \<noteq> EFailed" if e: "e \<in> set es" and i: "oe_job e = i" for e
  proof -
    obtain e0 where e0: "e = (if ?p e0 then ?f e0 else e0)"
      using e unfolding es_def update_many_set by blast
    show ?thesis using i by (cases "?p e0") (auto simp: e0)
  qed
  then have none: "cnt i EFailed = 0"
    by (auto simp: cnt_def filter_empty_conv)
  let ?g = "\<lambda>j. j\<lparr>oj_added := cnt i EAdded, oj_cancel_requested_at := None, oj_completed_at := None,
      oj_failed := 0, oj_last_error := None, oj_processed := cnt i EAdded + cnt i ESkipped,
      oj_skipped := cnt i ESkipped, oj_started_at := None, oj_status := JPending\<rparr>"
  have r: "reset_import i s = s\<lparr>entries := es, jobs := fst (update_many (\<lambda>j. oj_id j = i) ?g (jobs s))\<rparr>"
    by (simp add: reset_import_def Let_def update_job_def count_entries_def es_def cnt_def)
  have job: "oj_total j = int (length (filter (\<lambda>e. oe_job e = oj_id j) es)) \<and>
      oj_added j = cnt (oj_id j) EAdded \<and> oj_skipped j = cnt (oj_id j) ESkipped \<and>
      oj_failed j = cnt (oj_id j) EFailed \<and> oj_processed j = oj_added j + oj_skipped j + oj_failed j"
    if mem: "j \<in> set (fst (update_many (\<lambda>j. oj_id j = i) ?g (jobs s)))" for j
  proof -
    obtain j0 where j0: "j0 \<in> set (jobs s)" "j = (if oj_id j0 = i then ?g j0 else j0)"
      using mem unfolding update_many_set by blast
    have c0: "oj_total j0 = int (length (filter (\<lambda>e. oe_job e = oj_id j0) (entries s)))"
      "oj_added j0 = count_entries s (oj_id j0) EAdded"
      "oj_skipped j0 = count_entries s (oj_id j0) ESkipped"
      "oj_failed j0 = count_entries s (oj_id j0) EFailed"
      "oj_processed j0 = oj_added j0 + oj_skipped j0 + oj_failed j0"
      using c j0(1) by (simp_all add: import_consistent_def)
    show ?thesis
      using c0 j0(2) none by (cases "oj_id j0 = i") (simp_all add: total same)
  qed
  show ?thesis
    unfolding r import_consistent_def count_entries_def
    using c job keys by (simp add: import_consistent_def cnt_def)
qed

lemma consistent_retry:
  "import_consistent s \<Longrightarrow> import_consistent (snd (retry_opml_import_job i user enqueued now s))"
  by (auto simp: retry_opml_import_job_def Let_def mark_opml_import_failed_def
      intro!: consistent_job_update consistent_reset)

lemma consistent_cancel:
  "import_consistent s \<Longrightarrow> import_consistent (snd (cancel_opml_import_job i user now s))"
  using consistent_job_update [of s "\<lambda>j. j\<lparr>oj_cancel_requested_at := Some now\<rparr>"
      "\<lambda>j. oj_id j = i \<and> job_active j \<and> oj_user j = user"]
  by (simp add: cancel_opml_import_job_def update_job_def case_prod_beta)

lemma consistent_marks:
  assumes "import_consistent s"
  shows "import_consistent (complete_opml_import_job i now s)"
    and "import_consistent (mark_opml_import_canceled i now s)"
    and "import_consistent (mark_opml_import_failed i m now s)"
  using assms
  by (auto simp: complete_opml_import_job_def mark_opml_import_canceled_def
      mark_opml_import_failed_def intro!: consistent_job_update)

text \<open>A new job: its identifier and those of its entries are fresh.\<close>

lemma enumerate_entries:
  "filter (\<lambda>e. oe_job e = k) (map (\<lambda>(n, p). new_import_entry i (ids n) n p) (enumerate m ps)) =
     (if k = i then map (\<lambda>(n, p). new_import_entry i (ids n) n p) (enumerate m ps) else [])"
  "filter (\<lambda>e. oe_job e = k \<and> oe_status e = st)
     (map (\<lambda>(n, p). new_import_entry i (ids n) n p) (enumerate m ps)) =
     (if k = i \<and> st = EPending then map (\<lambda>(n, p). new_import_entry i (ids n) n p) (enumerate m ps) else [])"
  by (induction ps arbitrary: m) (auto simp: new_import_entry_def)

lemma enumerate_ids:
  "map oe_id (map (\<lambda>(n, p). new_import_entry i (ids n) n p) (enumerate m ps)) = map ids [m..<m + length ps]"
  by (induction ps arbitrary: m) (auto simp: new_import_entry_def upt_conv_Cons simp del: upt_Suc)

lemma consistent_create:
  assumes c: "import_consistent s" and fresh: "i \<notin> oj_id ` set (jobs s)" "inj ids"
    "range ids \<inter> oe_id ` set (entries s) = {}" "i \<notin> oe_job ` set (entries s)"
  shows "import_consistent (snd (create_opml_import_job i ids enqueued now user parsed s))"
proof -
  let ?new = "map (\<lambda>(n, p). new_import_entry i (ids n) n p) (enumerate 0 parsed)"
  let ?s = "s\<lparr>jobs := jobs s @ [\<lparr>oj_id = i, oj_user = user, oj_status = JPending,
                      oj_total = int (length parsed), oj_processed = 0, oj_added = 0,
                      oj_skipped = 0, oj_failed = 0, oj_folders = int (folder_count parsed),
                      oj_cancel_requested_at = None, oj_started_at = None,
                      oj_completed_at = None, oj_last_error = None\<rparr>], entries := entries s @ ?new\<rparr>"
  have none: "filter (\<lambda>e. oe_job e = i) (entries s) = []"
    "filter (\<lambda>e. oe_job e = i \<and> oe_status e = st) (entries s) = []" for st
    using fresh(4) by (auto simp: filter_empty_conv)
  have ids: "set (map oe_id ?new) \<inter> oe_id ` set (entries s) = {}"
    unfolding enumerate_ids using fresh(3) by auto
  have di: "distinct (map oe_id ?new)"
    unfolding enumerate_ids using fresh(2) by (simp add: distinct_map inj_on_def inj_def)
  have d: "distinct (map oe_id (entries s @ ?new))"
    using c ids di by (simp only: map_append distinct_append set_map import_consistent_def) blast
  have old: "oj_id j \<noteq> i" if "j \<in> set (jobs s)" for j
    using that fresh(1) by blast
  have dj: "distinct (map oj_id (jobs ?s))"
    using c fresh(1) by (auto simp: import_consistent_def)
  have "import_consistent ?s"
    unfolding import_consistent_def
  proof (intro conjI ballI)
    show "distinct (map oj_id (jobs ?s))" by (rule dj)
    show "distinct (map oe_id (entries ?s))" using d by simp
  qed (use c none old in \<open>auto simp: import_consistent_def count_entries_def enumerate_entries\<close>)
  then show ?thesis
    by (auto simp: create_opml_import_job_def Let_def c intro!: consistent_job_update)
qed

text \<open>What other processes do to the store between the steps of a run keeps it consistent.\<close>

definition turns_keep :: "(nat \<Rightarrow> import_turn) \<Rightarrow> bool" where
  "turns_keep turns \<longleftrightarrow> (\<forall>k s. import_consistent s \<longrightarrow>
     import_consistent (turn_env (turns k) s) \<and>
     (\<forall>f. Other f \<in> set (turn_events (turns k)) \<longrightarrow> import_consistent (f s)))"

definition start_keeps :: "import_start \<Rightarrow> bool" where
  "start_keeps st \<longleftrightarrow> (\<forall>s. import_consistent s \<longrightarrow> import_consistent (start_env st s))"

lemma turns_consistent:
  assumes "turns_keep turns" and "import_consistent s"
  shows "import_consistent (snd (import_turns n turns i s))"
  using assms(2)
proof (induction n arbitrary: s)
  case (Suc n)
  let ?tr = "turns n"
  have c1: "import_consistent (turn_env ?tr s)"
    using assms(1) Suc.prems by (simp add: turns_keep_def)
  obtain x s1 where cl: "claim_opml_import_entry (turn_locked ?tr) opml_import_entry_lease_ms
      (turn_claim_at ?tr) (turn_owner ?tr) i (turn_env ?tr s) = (x, s1)" by fastforce
  have c2: "import_consistent s1"
    using consistent_claim [OF c1, of "turn_locked ?tr" opml_import_entry_lease_ms "turn_claim_at ?tr"
        "turn_owner ?tr" i] cl by simp
  have c3: "import_consistent (snd (run_with_entry_lease_heartbeat l (turn_events ?tr) r t s1))" for l r t
    unfolding run_with_entry_lease_heartbeat_def
    by (rule run_with_heartbeat_inv [where I = import_consistent])
      (use assms(1) in \<open>auto intro: consistent_renew c2 simp: turns_keep_def\<close>)
  show ?case
    using c1 c2 Suc.IH cl
    by (auto simp: Let_def case_prod_beta consistent_marks split: option.split bool.split
        intro!: consistent_finalize c3)
qed simp

lemma consistent_process:
  assumes "start_keeps st" and "turns_keep turns" and "import_consistent s"
  shows "import_consistent (snd (process_opml_import_job st turns completed_at i s))"
proof -
  let ?s1 = "\<lambda>started. update_job (\<lambda>x. oj_id x = i)
    (\<lambda>x. x\<lparr>oj_started_at := Some started, oj_status := JProcessing\<rparr>) (start_env st s)"
  have c1: "import_consistent (?s1 started)" for started
    using assms(1,3) by (intro consistent_job_update) (simp_all add: start_keeps_def)
  have c2: "import_consistent (snd (import_turns opml_import_batch_size turns i (?s1 started)))" for started
    by (rule turns_consistent [OF assms(2) c1])
  have c3: "import_consistent s2"
    if "import_turns opml_import_batch_size turns i (?s1 started) = (out, s2)" for started out s2
    using c2 [of started] that by simp
  show ?thesis
    using consistent_marks [OF assms(3)]
    by (simp add: process_opml_import_job_def Let_def assms(3) split: option.split prod.split)
      (blast intro: c3 consistent_marks(1))
qed

text \<open>The entries of a job, split by status.\<close>

lemma status_split:
  "length (filter (\<lambda>e. oe_job e = i) es) =
     length (filter (\<lambda>e. oe_job e = i \<and> oe_status e = EAdded) es) +
     length (filter (\<lambda>e. oe_job e = i \<and> oe_status e = ESkipped) es) +
     length (filter (\<lambda>e. oe_job e = i \<and> oe_status e = EFailed) es) +
     length (filter (\<lambda>e. oe_job e = i \<and> oe_status e \<in> {EPending, EProcessing}) es)"
proof (induction es)
  case (Cons e es)
  then show ?case by (cases "oe_status e") auto
qed simp

lemma consistent_open:
  assumes "import_consistent s" and "j \<in> set (jobs s)"
  shows "oj_total j - oj_processed j =
    int (length (filter (\<lambda>e. oe_job e = oj_id j \<and> oe_status e \<in> {EPending, EProcessing}) (entries s)))"
  using assms status_split [of "oj_id j" "entries s"]
  by (simp add: import_consistent_def count_entries_def)

subsection \<open>Properties\<close>

definition example_entry :: "nat \<Rightarrow> import_entry" where
  "example_entry n = new_import_entry ''job'' (if n = 0 then ''e0'' else ''e1'') n (None, ''t'', ''u'')"

definition example_job :: import_job where
  "example_job = \<lparr>oj_id = ''job'', oj_user = ''u1'', oj_status = JPending, oj_total = 2,
     oj_processed = 0, oj_added = 0, oj_skipped = 0, oj_failed = 0, oj_folders = 0,
     oj_cancel_requested_at = None, oj_started_at = None, oj_completed_at = None, oj_last_error = None\<rparr>"

definition example_store :: import_store where
  "example_store = \<lparr>jobs = [example_job], entries = [example_entry 0, example_entry 1]\<rparr>"

definition example_turns :: "nat \<Rightarrow> import_turn" where
  "example_turns n = \<lparr>turn_env = id, turn_eligible = True, turn_batch_deadline = False,
     turn_locked = (\<lambda>_. False), turn_owner = ''w'', turn_claim_at = 1000, turn_events = [],
     turn_result = (if n = 19 then (Added, None) else (Failed, Some ''down'')),
     turn_done_at = 1500, turn_finalize_at = 1600\<rparr>"

definition example_start :: import_start where
  "example_start = \<lparr>start_eligible = True, start_now = 500, start_check = 600, start_mark = 700,
     start_env = id\<rparr>"

lemma example_store_consistent: "import_consistent example_store"
  by (auto simp: import_consistent_def example_store_def example_job_def example_entry_def
      new_import_entry_def count_entries_def)

lemma example_keeps: "start_keeps example_start" "turns_keep example_turns"
  by (simp_all add: start_keeps_def turns_keep_def example_start_def example_turns_def)

lemma example_process:
  "fst (process_opml_import_job example_start example_turns 2000 ''job'' example_store) =
     Status JCompleted"
  "map (\<lambda>j. (oj_processed j, oj_added j, oj_failed j, oj_status j))
     (jobs (snd (process_opml_import_job example_start example_turns 2000 ''job'' example_store))) =
     [(2, 1, 1, JCompleted)]"
  by code_simp+

text \<open>C7: The counters of every import job always agree with the statuses of its entries: a whole run
  of the import worker keeps \<open>totalFeeds\<close>, \<open>addedFeeds\<close>, \<open>skippedFeeds\<close>, \<open>failedFeeds\<close> and
  \<open>processedFeeds\<close> equal to the numbers of entries in those states, on every path through the
  handler and whatever consistent writes other processes interleave with it.\<close>

theorem opml_process_consistent:
  assumes "start_keeps st" and "turns_keep turns" and "import_consistent s"
  shows "import_consistent (snd (process_opml_import_job st turns completed_at i s))"
  by (rule consistent_process [OF assms])

theorem opml_process_consistent_witness:
  "import_consistent (snd (process_opml_import_job example_start example_turns 2000 ''job'' example_store))"
  by (rule opml_process_consistent [OF example_keeps example_store_consistent])

text \<open>When the worker reports an import that was not finished before as completed, every entry of
  the job has been processed: the stored \<open>processedFeeds\<close> equals \<open>totalFeeds\<close>, so no feed of the
  file was dropped.\<close>

theorem opml_completed_all_processed:
  assumes "start_keeps st" and "turns_keep turns" and "import_consistent s"
    and "row_at oj_id i (jobs s) = Some jb" and "\<not> is_terminal_status (oj_status jb)"
    and "process_opml_import_job st turns completed_at i s = (Status JCompleted, s')"
    and "row_at oj_id i (jobs s') = Some j"
  shows "oj_processed j = oj_total j"
proof -
  let ?started = "case oj_started_at jb of Some t \<Rightarrow> t | None \<Rightarrow> start_now st"
  let ?s1 = "update_job (\<lambda>x. oj_id x = i)
    (\<lambda>x. x\<lparr>oj_started_at := Some ?started, oj_status := JProcessing\<rparr>) (start_env st s)"
  obtain out s2 where turns: "import_turns opml_import_batch_size turns i ?s1 = (out, s2)" by fastforce
  have never: "out \<noteq> Some (Status JCompleted)"
  proof -
    have "fst (import_turns n turns i u) \<noteq> Some (Status JCompleted)" for n u
      by (induction n arbitrary: u) (auto simp: Let_def split: option.split prod.split bool.split)
    then show ?thesis using turns by (metis fst_conv)
  qed
  have "out = None" "\<not> list_ex (\<lambda>e. oe_job e = i \<and> oe_status e \<in> {EPending, EProcessing}) (entries s2)"
    and s': "s' = complete_opml_import_job i completed_at s2"
    using assms(4-6) turns never
    by (auto simp: process_opml_import_job_def Let_def split: option.splits if_splits)
  then have "filter (\<lambda>e. oe_job e = i \<and> oe_status e \<in> {EPending, EProcessing}) (entries s') = []"
    by (auto simp: filter_empty_conv list_ex_iff complete_opml_import_job_def update_job_def)
  moreover have "import_consistent s'"
    using consistent_process [OF assms(1-3), of completed_at i] assms(6) by simp
  ultimately show ?thesis
    using consistent_open [of s' j] row_at_SomeD [OF assms(7)] by simp
qed

theorem opml_completed_all_processed_witness:
  "\<exists>s' j. process_opml_import_job example_start example_turns 2000 ''job'' example_store =
      (Status JCompleted, s') \<and> row_at oj_id ''job'' (jobs s') = Some j \<and> oj_processed j = oj_total j"
proof -
  let ?r = "process_opml_import_job example_start example_turns 2000 ''job'' example_store"
  obtain s' where r: "?r = (Status JCompleted, s')"
    using example_process(1) by (metis prod.collapse)
  obtain j where j: "row_at oj_id ''job'' (jobs s') = Some j"
  proof -
    have "map oj_id (jobs (snd ?r)) = [''job'']" by code_simp
    then have "''job'' \<in> oj_id ` set (jobs s')" using r by (metis list.set_intros(1) list.set_map snd_conv)
    then show thesis using that row_at_None_iff by (metis option.exhaust)
  qed
  have "oj_processed j = oj_total j"
    by (rule opml_completed_all_processed [OF example_keeps example_store_consistent _ _ r j,
          where jb = example_job])
      (simp_all add: example_store_def example_job_def is_terminal_status_def)
  with r j show ?thesis by blast
qed

text \<open>On a consistent store the fenced SQL statement that finalizes an entry takes effect exactly
  when the worker's lease on the entry is live and the parent job is active and not being canceled
  (its extra guard \<open>processedFeeds < totalFeeds\<close> can then never fail); it settles that entry with
  the given status and adds one to \<open>processedFeeds\<close> and to the one matching counter. Otherwise
  neither table changes.\<close>

theorem opml_finalize_iff:
  assumes "import_consistent s"
    and "row_at oe_id (el_id l) (entries s) = Some e" and "row_at oj_id (oe_job e) (jobs s) = Some j"
  shows "(if entry_live now l s \<and> job_active j \<and> oj_cancel_requested_at j = None
     then fst (finalize_opml_import_entry now x l s) \<and>
       row_at oe_id (el_id l) (entries (snd (finalize_opml_import_entry now x l s))) =
         Some (finished_entry now x e) \<and>
       row_at oj_id (oj_id j) (jobs (snd (finalize_opml_import_entry now x l s))) =
         Some (bump_counters (fst x) j)
     else finalize_opml_import_entry now x l s = (False, s))"
proof -
  have j: "j \<in> set (jobs s)" "oj_id j = oe_job e" using row_at_SomeD [OF assms(3)] by auto
  have e: "e \<in> set (entries s)" "oe_id e = el_id l" using row_at_SomeD [OF assms(2)] by auto
  have "oj_processed j < oj_total j" if "entry_live now l s"
  proof -
    have "oe_status e = EProcessing"
      using that assms(2) by (auto simp: entry_live_def entry_lease_where_def)
    then have "filter (\<lambda>e. oe_job e = oj_id j \<and> oe_status e \<in> {EPending, EProcessing}) (entries s) \<noteq> []"
      using e j by (auto simp: filter_empty_conv)
    then show ?thesis using consistent_open [OF assms(1) j(1)] by (cases "filter (\<lambda>e. oe_job e = oj_id j \<and> oe_status e \<in> {EPending, EProcessing}) (entries s)") auto
  qed
  then show ?thesis
    using assms(2,3) e j
    by (auto simp: finalize_opml_import_entry_def entry_live_def row_at_update_many)
qed

definition example_entry_lease :: entry_lease where
  "example_entry_lease = \<lparr>el_attempt = 1, el_folder = None, el_id = ''e0'', el_job = ''job'',
     el_expires_at = 61000, el_owner = ''w'', el_sequence = 0, el_title = ''t'', el_url = ''u''\<rparr>"

definition example_claimed :: import_store where
  "example_claimed = example_store\<lparr>entries :=
     [(example_entry 0)\<lparr>oe_attempt := 1, oe_lease_owner := Some ''w'',
        oe_lease_expires_at := Some 61000, oe_processing_started_at := Some 1000,
        oe_status := EProcessing\<rparr>, example_entry 1]\<rparr>"

lemma example_entry_claim:
  "claim_opml_import_entry (\<lambda>_. False) 60000 1000 ''w'' ''job'' example_store =
     (Some example_entry_lease, example_claimed)"
  by code_simp

lemma example_claimed_consistent: "import_consistent example_claimed"
  using consistent_claim [OF example_store_consistent, of "\<lambda>_. False" 60000 1000 "''w''" "''job''"]
    example_entry_claim by simp

lemma example_claimed_rows:
  "row_at oe_id (el_id example_entry_lease) (entries example_claimed) = Some (hd (entries example_claimed))"
  "row_at oj_id (oe_job (hd (entries example_claimed))) (jobs example_claimed) = Some example_job"
  "job_active example_job" "oj_cancel_requested_at example_job = None" "oj_id example_job = ''job''"
  by code_simp+

lemma example_live: "entry_live 2000 example_entry_lease example_claimed"
proof -
  have "entry_lease_where example_entry_lease 2000 (hd (entries example_claimed))" by code_simp
  then show ?thesis unfolding entry_live_def using example_claimed_rows(1) by blast
qed

theorem opml_finalize_iff_witness:
  "row_at oj_id ''job'' (jobs (snd (finalize_opml_import_entry 2000 (Skipped, None)
      example_entry_lease example_claimed))) = Some (bump_counters Skipped example_job)"
  using opml_finalize_iff [OF example_claimed_consistent example_claimed_rows(1,2),
      of 2000 "(Skipped, None)"] example_live
  by (simp only: example_claimed_rows simp_thms if_True fst_conv)



end
