(* ===== verification/Digest_Rules.thy ===== *)
theory Digest_Rules
  imports Js_String
begin

text \<open>
  \<open>src/lib/smart-digest-rules.ts\<close>: the terms of a Smart Digest rule and the decision whether an
  article matches it. A term matches a field when it occurs in the normalized text with no ASCII
  letter or digit on either side; an exclude term that matches anywhere rejects the article.
\<close>

subsection \<open>Terms\<close>

datatype term_kind = Keyword | Phrase

record parsed_term =
  pt_kind :: term_kind
  pt_value :: string

record match_article =
  ma_content :: "string option"
  ma_feed_title :: "string option"
  ma_summary :: "string option"
  ma_title :: "string option"

record match_result =
  mr_matched :: bool
  mr_fields :: "string list"
  mr_terms :: "string list"
  mr_reason :: string

text \<open>\<open>replace(/\s+/g, " ")\<close>: every run of white space becomes one blank.\<close>

fun collapse_spaces :: "string \<Rightarrow> string" where
  "collapse_spaces [] = []"
| "collapse_spaces [c] = (if js_space c then [CHR '' ''] else [c])"
| "collapse_spaces (c # d # s) =
     (if js_space c then (if js_space d then collapse_spaces (d # s)
                          else CHR '' '' # collapse_spaces (d # s))
      else c # collapse_spaces (d # s))"

definition normalize_search_text :: "string option \<Rightarrow> string" where
  "normalize_search_text v =
     js_trim (collapse_spaces (js_lower (case v of None \<Rightarrow> [] | Some s \<Rightarrow> s)))"

definition normalize_term :: "string \<Rightarrow> string" where
  "normalize_term v = normalize_search_text (Some (dropWhile (\<lambda>c. c = CHR ''-'') v))"

text \<open>A match of \<open>-*"([^"]*)"\<close> at the head of the text: the phrase and what follows it.\<close>

definition quoted_phrase :: "string \<Rightarrow> (string \<times> string) option" where
  "quoted_phrase s =
     (case dropWhile (\<lambda>c. c = CHR ''-'') s of
        [] \<Rightarrow> None
      | q # u \<Rightarrow>
          if q \<noteq> CHR 0x22 then None
          else case dropWhile (\<lambda>c. c \<noteq> CHR 0x22) u of
                 [] \<Rightarrow> None
               | _ # rest \<Rightarrow> Some (takeWhile (\<lambda>c. c \<noteq> CHR 0x22) u, rest))"

lemma quoted_phrase_shorter: "quoted_phrase s = Some (p, rest) \<Longrightarrow> length rest < length s"
proof -
  assume q: "quoted_phrase s = Some (p, rest)"
  let ?t = "dropWhile (\<lambda>c. c = CHR ''-'') s"
  obtain c u where t: "?t = c # u" using q by (cases ?t) (auto simp: quoted_phrase_def)
  obtain d where u: "dropWhile (\<lambda>c. c \<noteq> CHR 0x22) u = d # rest"
    using q t by (auto simp: quoted_phrase_def split: if_splits list.splits)
  have "length (dropWhile (\<lambda>c. c \<noteq> CHR 0x22) u) \<le> length u" "length ?t \<le> length s"
    by (rule length_dropWhile_le)+
  then show ?thesis using u t by simp
qed

definition term_of :: "term_kind \<Rightarrow> string \<Rightarrow> parsed_term list" where
  "term_of k raw = (if normalize_term raw = [] then []
     else [\<lparr>pt_kind = k, pt_value = normalize_term raw\<rparr>])"

text \<open>The \<open>exec\<close> loop over \<open>/-*"([^"]*)"|(\S+)/g\<close>.\<close>

function scan_terms :: "string \<Rightarrow> parsed_term list" where
  "scan_terms [] = []"
| "scan_terms (c # s) =
     (case quoted_phrase (c # s) of
        Some (phrase, rest) \<Rightarrow> term_of Phrase phrase @ scan_terms rest
      | None \<Rightarrow>
          if js_space c then scan_terms s
          else term_of Keyword (takeWhile (\<lambda>d. \<not> js_space d) (c # s)) @
               scan_terms (dropWhile (\<lambda>d. \<not> js_space d) (c # s)))"
  by pat_completeness auto
termination
  by (relation "measure length")
    (auto dest: quoted_phrase_shorter intro: le_imp_less_Suc length_dropWhile_le)

definition parse_array_term :: "string \<Rightarrow> parsed_term list" where
  "parse_array_term v =
     (let trimmed = js_trim v
      in case quoted_phrase trimmed of
           Some (phrase, []) \<Rightarrow> term_of Phrase phrase
         | _ \<Rightarrow> term_of Keyword trimmed)"

fun dedupe_terms :: "parsed_term list \<Rightarrow> parsed_term list \<Rightarrow> parsed_term list" where
  "dedupe_terms seen [] = []"
| "dedupe_terms seen (t # ts) =
     (if t \<in> set seen then dedupe_terms seen ts else t # dedupe_terms (t # seen) ts)"

definition parse_smart_digest_string :: "string \<Rightarrow> parsed_term list" where
  "parse_smart_digest_string v = dedupe_terms [] (scan_terms v)"

definition parse_smart_digest_terms :: "string list \<Rightarrow> parsed_term list" where
  "parse_smart_digest_terms vs = dedupe_terms [] (concat (map parse_array_term vs))"

lemma set_dedupe_terms: "set (dedupe_terms seen ts) = set ts - set seen"
  by (induction seen ts rule: dedupe_terms.induct) auto

lemma distinct_dedupe_terms: "distinct (dedupe_terms seen ts)"
  by (induction seen ts rule: dedupe_terms.induct) (auto simp: set_dedupe_terms)

lemma set_parse_terms: "set (parse_smart_digest_terms vs) = (\<Union>v \<in> set vs. set (parse_array_term v))"
  by (simp add: parse_smart_digest_terms_def set_dedupe_terms)

lemma term_of_nonempty: "t \<in> set (term_of k raw) \<Longrightarrow> pt_value t \<noteq> []"
  by (auto simp: term_of_def split: if_splits)

lemma parse_array_term_cases:
  "parse_array_term v = term_of Keyword (js_trim v) \<or>
     (\<exists>p. quoted_phrase (js_trim v) = Some (p, []) \<and> parse_array_term v = term_of Phrase p)"
  by (cases "quoted_phrase (js_trim v)")
    (auto simp: parse_array_term_def Let_def split: list.splits)

lemma parse_array_term_nonempty: "t \<in> set (parse_array_term v) \<Longrightarrow> pt_value t \<noteq> []"
  using parse_array_term_cases [of v] by (auto dest: term_of_nonempty)

subsection \<open>Matching\<close>

definition word_char :: "char \<Rightarrow> bool" where
  "word_char c \<longleftrightarrow> is_lower_az c \<or> is_upper_az c \<or> is_digit c"

text \<open>
  \<open>boundary_match ok w s\<close>: the pattern \<open>(^|[^a-z0-9])w([^a-z0-9]|$)\<close> is found in \<open>s\<close>, where \<open>ok\<close>
  says whether a match may start at the head of \<open>s\<close>.
\<close>

definition boundary_after :: "string \<Rightarrow> string \<Rightarrow> bool" where
  "boundary_after w s \<longleftrightarrow> starts_with w s \<and>
     (case drop (length w) s of [] \<Rightarrow> True | c # _ \<Rightarrow> \<not> word_char c)"

fun boundary_match :: "bool \<Rightarrow> string \<Rightarrow> string \<Rightarrow> bool" where
  "boundary_match ok w [] = (ok \<and> boundary_after w [])"
| "boundary_match ok w (c # s) =
     ((ok \<and> boundary_after w (c # s)) \<or> boundary_match (\<not> word_char c) w s)"

definition field_matches :: "string \<Rightarrow> parsed_term \<Rightarrow> bool" where
  "field_matches v t \<longleftrightarrow> v \<noteq> [] \<and> boundary_match True (pt_value t) v"

definition article_fields :: "match_article \<Rightarrow> (string \<times> string) list" where
  "article_fields a =
     [(''title'', normalize_search_text (ma_title a)),
      (''feedTitle'', normalize_search_text (ma_feed_title a)),
      (''summary'', normalize_search_text (ma_summary a)),
      (''contentText'', normalize_search_text (ma_content a))]"

definition matching_fields :: "(string \<times> string) list \<Rightarrow> parsed_term \<Rightarrow> string list" where
  "matching_fields fs t = map fst (filter (\<lambda>f. field_matches (snd f) t) fs)"

text \<open>\<open>join(", ")\<close> of all but the last part, then \<open>and\<close> the last.\<close>

fun join_comma :: "string list \<Rightarrow> string" where
  "join_comma [] = []"
| "join_comma [p] = p"
| "join_comma (p # ps) = p @ '', '' @ join_comma ps"

definition join_reason_parts :: "string list \<Rightarrow> string" where
  "join_reason_parts ps =
     (if length ps \<le> 1
      then (case ps of [] \<Rightarrow> ''selected terms'' | p # _ \<Rightarrow> if p = [] then ''selected terms'' else p)
      else join_comma (butlast ps) @ '' and '' @ last ps)"

definition quote_term :: "string \<Rightarrow> string" where
  "quote_term v = CHR 0x22 # v @ [CHR 0x22]"

fun excluded_by :: "(string \<times> string) list \<Rightarrow> parsed_term list \<Rightarrow> match_result option" where
  "excluded_by fs [] = None"
| "excluded_by fs (t # ts) =
     (case matching_fields fs t of
        [] \<Rightarrow> excluded_by fs ts
      | names \<Rightarrow> Some \<lparr>mr_matched = False, mr_fields = names, mr_terms = [pt_value t],
          mr_reason = ''Excluded by '' @ quote_term (pt_value t) @ '' in '' @
            join_reason_parts names @ ''.''\<rparr>)"

text \<open>The loop over the include terms: field names, term values and reason parts so far.\<close>

fun include_terms ::
  "(string \<times> string) list \<Rightarrow> parsed_term list \<Rightarrow> string list \<times> string list \<times> string list \<Rightarrow>
   string list \<times> string list \<times> string list" where
  "include_terms fs [] acc = acc"
| "include_terms fs (t # ts) (names, vals, parts) =
     (case matching_fields fs t of
        [] \<Rightarrow> include_terms fs ts (names, vals, parts)
      | ns \<Rightarrow>
          if pt_value t \<in> set vals then include_terms fs ts (names @ ns, vals, parts)
          else include_terms fs ts
            (names @ ns, vals @ [pt_value t],
             parts @ [quote_term (pt_value t) @ '' in '' @ join_reason_parts ns]))"

definition match_smart_digest_article ::
  "match_article \<Rightarrow> string list \<Rightarrow> string list \<Rightarrow> match_result" where
  "match_smart_digest_article a excludes includes =
     (let fs = article_fields a
      in case excluded_by fs (parse_smart_digest_terms excludes) of
           Some r \<Rightarrow> r
         | None \<Rightarrow>
             (let (names, vals, parts) =
                include_terms fs (parse_smart_digest_terms includes) ([], [], [])
              in if vals = []
                 then \<lparr>mr_matched = False, mr_fields = [], mr_terms = [],
                        mr_reason = ''No include terms matched.''\<rparr>
                 else \<lparr>mr_matched = True,
                        mr_fields = map fst (filter (\<lambda>f. fst f \<in> set names) fs),
                        mr_terms = vals,
                        mr_reason = ''Matched '' @ join_reason_parts parts @ ''.''\<rparr>))"

subsection \<open>What the matcher decides\<close>

lemma starts_with_iff: "starts_with p s \<longleftrightarrow> (\<exists>t. s = p @ t)"
  by (auto simp: starts_with_def) (metis append_take_drop_id)

lemma boundary_after_iff:
  "boundary_after w s \<longleftrightarrow> (\<exists>t. s = w @ t \<and> (case t of [] \<Rightarrow> True | c # _ \<Rightarrow> \<not> word_char c))"
  by (auto simp: boundary_after_def starts_with_iff)

lemma boundary_match_iff:
  "boundary_match ok w s \<longleftrightarrow>
     (\<exists>a b. s = a @ w @ b \<and> (case b of [] \<Rightarrow> True | c # _ \<Rightarrow> \<not> word_char c) \<and>
        (if a = [] then ok else \<not> word_char (last a)))"
proof (induction s arbitrary: ok)
  case Nil
  then show ?case by (auto simp: boundary_after_iff)
next
  case (Cons c s)
  let ?B = "\<lambda>b. case b of [] \<Rightarrow> True | c # _ \<Rightarrow> \<not> word_char c"
  have "boundary_match (\<not> word_char c) w s \<longleftrightarrow>
      (\<exists>a b. c # s = (c # a) @ w @ b \<and> ?B b \<and> \<not> word_char (last (c # a)))"
    unfolding Cons.IH by (auto split: if_splits)
  moreover have "(\<exists>a b. c # s = a @ w @ b \<and> ?B b \<and> (if a = [] then ok else \<not> word_char (last a))) \<longleftrightarrow>
      (\<exists>b. c # s = w @ b \<and> ?B b \<and> ok) \<or>
      (\<exists>a b. c # s = (c # a) @ w @ b \<and> ?B b \<and> \<not> word_char (last (c # a)))" (is "?L \<longleftrightarrow> ?H \<or> ?T")
  proof
    assume ?L
    then obtain a b where ab: "c # s = a @ w @ b" "?B b" "if a = [] then ok else \<not> word_char (last a)"
      by blast
    show "?H \<or> ?T"
    proof (cases a)
      case Nil
      then show ?thesis using ab by (intro disjI1 exI [of _ b]) simp
    next
      case (Cons d a')
      then show ?thesis using ab by (intro disjI2 exI [of _ a'] exI [of _ b]) simp
    qed
  next
    assume "?H \<or> ?T"
    then show ?L
    proof
      assume ?H
      then obtain b where "c # s = w @ b" "?B b" ok by blast
      then show ?L by (intro exI [of _ "[]"] exI [of _ b]) simp
    next
      assume ?T
      then obtain a b where "c # s = (c # a) @ w @ b" "?B b" "\<not> word_char (last (c # a))" by blast
      then show ?L by (intro exI [of _ "c # a"] exI [of _ b]) simp
    qed
  qed
  ultimately show ?case by (simp only: boundary_match.simps boundary_after_iff) blast
qed

lemma excluded_by_None: "excluded_by fs ts = None \<longleftrightarrow> (\<forall>t \<in> set ts. matching_fields fs t = [])"
  by (induction fs ts rule: excluded_by.induct) (auto split: list.splits)

lemma excluded_by_Some: "excluded_by fs ts = Some r \<Longrightarrow> \<not> mr_matched r"
  by (induction fs ts rule: excluded_by.induct) (auto split: list.splits)

lemma include_terms_vals:
  "set (fst (snd (include_terms fs ts (names, vals, parts)))) =
     set vals \<union> pt_value ` {t \<in> set ts. matching_fields fs t \<noteq> []}"
  by (induction ts arbitrary: names vals parts) (auto split: list.splits)

lemma include_terms_distinct:
  "distinct vals \<Longrightarrow> distinct (fst (snd (include_terms fs ts (names, vals, parts))))"
  by (induction ts arbitrary: names vals parts) (auto split: list.splits)

lemma matching_fields_iff:
  "matching_fields fs t \<noteq> [] \<longleftrightarrow> (\<exists>f \<in> set fs. field_matches (snd f) t)"
  by (auto simp: matching_fields_def filter_empty_conv)

text \<open>An article matches a rule exactly when some include term occurs, delimited by non-letters,
  in one of its normalized fields and no exclude term does: exclusion always wins, and the matched
  terms reported are exactly the include terms found, each once.\<close>

theorem digest_match_iff:
  "let r = match_smart_digest_article a excludes includes;
       hit = (\<lambda>t. \<exists>f \<in> set (article_fields a). field_matches (snd f) t)
   in (mr_matched r \<longleftrightarrow> (\<exists>t \<in> set (parse_smart_digest_terms includes). hit t) \<and>
                       \<not> (\<exists>t \<in> set (parse_smart_digest_terms excludes). hit t)) \<and>
      (if mr_matched r
       then distinct (mr_terms r) \<and>
            set (mr_terms r) = pt_value ` {t \<in> set (parse_smart_digest_terms includes). hit t}
       else True)"
proof -
  let ?f = "article_fields a" and ?inc = "parse_smart_digest_terms includes"
  obtain names vals parts where inc: "include_terms ?f ?inc ([], [], []) = (names, vals, parts)"
    by (cases "include_terms ?f ?inc ([], [], [])") auto
  have v: "set vals = pt_value ` {t \<in> set ?inc. matching_fields ?f t \<noteq> []}" "distinct vals"
    using include_terms_vals [of ?f ?inc "[]" "[]" "[]"] include_terms_distinct [of "[]" ?f ?inc "[]" "[]"] inc
    by simp_all
  have e: "vals = [] \<longleftrightarrow> (\<forall>t \<in> set ?inc. matching_fields ?f t = [])"
    using v(1) by (metis (mono_tags, lifting) empty_iff empty_set image_eqI mem_Collect_eq set_empty
        image_is_empty Collect_empty_eq)
  show ?thesis
  proof (cases "excluded_by ?f (parse_smart_digest_terms excludes)")
    case None
    then have n: "\<not> (\<exists>t \<in> set (parse_smart_digest_terms excludes). \<exists>f \<in> set ?f. field_matches (snd f) t)"
      using matching_fields_iff excluded_by_None by metis
    show ?thesis
      using None inc v e n
      by (simp add: match_smart_digest_article_def Let_def matching_fields_iff) (metis matching_fields_iff)
  next
    case (Some r)
    then have "\<exists>t \<in> set (parse_smart_digest_terms excludes). \<exists>f \<in> set ?f. field_matches (snd f) t"
      using matching_fields_iff excluded_by_None by (metis option.distinct(1))
    then show ?thesis
      using Some excluded_by_Some [OF Some] by (simp add: match_smart_digest_article_def Let_def)
  qed
qed

end
