(* ===== verification/Calendar.thy ===== *)
theory Calendar
  imports Prelude
begin

text \<open>
  The part of the JavaScript \<open>Date\<close> object the schedule of the Smart Digests uses, on the proleptic
  Gregorian calendar of ECMA-262: \<open>Date.UTC\<close> (\<open>date_utc\<close>) and the calendar fields of an instant
  (\<open>utc_parts\<close>), with the round trip between them. A local time is the UTC time of the instant
  shifted by the offset of its zone; the time zone database is the parameter \<open>off\<close> of the functions
  that use it.
\<close>

record date_parts =
  p_year :: int
  p_month :: int
  p_day :: int
  p_hour :: int
  p_minute :: int
  p_second :: int

definition ms_per_day :: int where
  "ms_per_day = 86400000"

definition day_from_year :: "int \<Rightarrow> int" where
  "day_from_year y =
     365 * (y - 1970) + (y - 1969) div 4 - (y - 1901) div 100 + (y - 1601) div 400"

definition leap_year :: "int \<Rightarrow> bool" where
  "leap_year y \<longleftrightarrow> y mod 4 = 0 \<and> (y mod 100 \<noteq> 0 \<or> y mod 400 = 0)"

definition days_in_year :: "int \<Rightarrow> int" where
  "days_in_year y = (if leap_year y then 366 else 365)"

text \<open>The first day of a month (1 to 12; 13 is the end) within its year.\<close>

definition month_start :: "bool \<Rightarrow> int \<Rightarrow> int" where
  "month_start lp m =
     (let extra = (if lp then 1 else 0)
      in if m \<le> 1 then 0 else if m = 2 then 31
         else extra + (if m = 3 then 59 else if m = 4 then 90 else if m = 5 then 120
           else if m = 6 then 151 else if m = 7 then 181 else if m = 8 then 212
           else if m = 9 then 243 else if m = 10 then 273 else if m = 11 then 304
           else if m = 12 then 334 else 365))"

fun month_from :: "nat \<Rightarrow> bool \<Rightarrow> int \<Rightarrow> int" where
  "month_from 0 lp d = 1"
| "month_from (Suc n) lp d =
     (if month_start lp (int (Suc n)) \<le> d then int (Suc n) else month_from n lp d)"

definition month_of_day :: "bool \<Rightarrow> int \<Rightarrow> int" where
  "month_of_day lp d = month_from 12 lp d"

definition year_of_day :: "int \<Rightarrow> int" where
  "year_of_day d =
     (let y = 1970 + (400 * d) div 146097
      in if d < day_from_year y then y - 1
         else if day_from_year (y + 1) \<le> d then y + 1 else y)"

text \<open>\<open>Date.UTC(year, month - 1, day, h, m, s)\<close> (years 0 to 99 stand for 1900 to 1999).\<close>

definition make_day :: "int \<Rightarrow> int \<Rightarrow> int \<Rightarrow> int" where
  "make_day year month day =
     (let y = year + (month - 1) div 12; m = (month - 1) mod 12 + 1
      in day_from_year y + month_start (leap_year y) m + day - 1)"

definition full_year :: "int \<Rightarrow> int" where
  "full_year y = (if 0 \<le> y \<and> y \<le> 99 then 1900 + y else y)"

definition date_utc :: "int \<Rightarrow> int \<Rightarrow> int \<Rightarrow> int \<Rightarrow> int \<Rightarrow> int \<Rightarrow> time" where
  "date_utc year month day h m s =
     make_day (full_year year) month day * ms_per_day + h * 3600000 + m * 60000 + s * 1000"

definition utc_parts :: "time \<Rightarrow> date_parts" where
  "utc_parts t =
     (let d = t div ms_per_day; ms = t mod ms_per_day; y = year_of_day d;
          m = month_of_day (leap_year y) (d - day_from_year y)
      in \<lparr>p_year = y, p_month = m,
          p_day = d - day_from_year y - month_start (leap_year y) m + 1,
          p_hour = ms div 3600000, p_minute = ms div 60000 mod 60, p_second = ms div 1000 mod 60\<rparr>)"

subsection \<open>Years\<close>

lemma div_succ:
  fixes a n :: int
  assumes "0 < n"
  shows "(a + 1) div n = a div n + (if (a + 1) mod n = 0 then 1 else 0)"
proof -
  define q r where "q = a div n" and "r = a mod n"
  have a: "a = n * q + r" "0 \<le> r" "r < n" using assms by (simp_all add: q_def r_def)
  show ?thesis
  proof (cases "r = n - 1")
    case True
    then have "a + 1 = n * (q + 1)" using a by (simp add: distrib_left)
    then have "(a + 1) div n = q + 1" "(a + 1) mod n = 0" using assms by simp_all
    then show ?thesis by (simp add: q_def)
  next
    case False
    have "(a + 1) div n = q" using a False by (intro int_div_pos_eq [of _ _ _ "r + 1"]) auto
    moreover have "(a + 1) mod n = r + 1" using a False by (intro int_mod_pos_eq [of _ _ q]) auto
    ultimately show ?thesis using a(2) by (simp add: q_def)
  qed
qed

lemma mod_shift: "(y - k * n) mod n = y mod (n :: int)"
  using mod_mult_self1 [of y "- k" n] by simp

lemma leap_mods: "y mod 400 = 0 \<Longrightarrow> y mod 100 = 0" "y mod 100 = 0 \<Longrightarrow> y mod 4 = 0"
  for y :: int
  by (simp_all flip: dvd_eq_mod_eq_0) (auto intro: dvd_trans [of 100 400] dvd_trans [of 4 100])

lemma leap_count:
  fixes d e :: int
  assumes "d = e + 365 + (if A then 1 else 0) - (if B then 1 else 0) + (if C then 1 else 0)"
    and "C \<Longrightarrow> B" "B \<Longrightarrow> A"
  shows "d = e + (if A \<and> (\<not> B \<or> C) then 366 else 365)"
  using assms by (cases A; cases B; cases C) simp_all

lemma day_from_year_Suc: "day_from_year (y + 1) = day_from_year y + days_in_year y"
proof -
  have p: "(0 :: int) < 4" "(0 :: int) < 100" "(0 :: int) < 400" by simp_all
  have e: "y - 1969 + 1 = y - 492 * 4" "y - 1901 + 1 = y - 19 * 100" "y - 1601 + 1 = y - 4 * 400"
    by simp_all
  have "(y - 492 * 4) div 4 = (y - 1969) div 4 + (if y mod 4 = 0 then 1 else 0)"
    using div_succ [OF p(1), of "y - 1969"] unfolding e mod_shift .
  moreover have "(y - 19 * 100) div 100 = (y - 1901) div 100 + (if y mod 100 = 0 then 1 else 0)"
    using div_succ [OF p(2), of "y - 1901"] unfolding e mod_shift .
  moreover have "(y - 4 * 400) div 400 = (y - 1601) div 400 + (if y mod 400 = 0 then 1 else 0)"
    using div_succ [OF p(3), of "y - 1601"] unfolding e mod_shift .
  moreover have y1: "(y + 1) - 1970 = (y - 1970) + 1" "(y + 1) - 1969 = y - 492 * 4"
    "(y + 1) - 1901 = y - 19 * 100" "(y + 1) - 1601 = y - 4 * 400" by simp_all
  ultimately have "day_from_year (y + 1) = day_from_year y + 365 + (if y mod 4 = 0 then 1 else 0) -
      (if y mod 100 = 0 then 1 else 0) + (if y mod 400 = 0 then 1 else 0)"
    unfolding day_from_year_def y1 by (simp only: ring_distribs)
  then show ?thesis
    unfolding days_in_year_def leap_year_def by (rule leap_count) (fact leap_mods)+
qed

lemma year_sum_bounds:
  fixes y :: int
  assumes "4 * a + i = y - 1969" "100 * b + j = y - 1901" "400 * c + k = y - 1601"
    and "0 \<le> i" "i < 4" "0 \<le> j" "j < 100" "0 \<le> k" "k < 400"
  shows "146097 * (y - 1970) - 800 \<le> 400 * (365 * (y - 1970) + a - b + c)"
    "400 * (365 * (y - 1970) + a - b + c) \<le> 146097 * (y - 1970) + 800"
  using assms by auto

lemma day_from_year_bounds:
  "146097 * (y - 1970) - 800 \<le> 400 * day_from_year y"
  "400 * day_from_year y \<le> 146097 * (y - 1970) + 800"
  unfolding day_from_year_def
  by (rule year_sum_bounds [OF mult_div_mod_eq mult_div_mod_eq mult_div_mod_eq]; simp)+

lemma quot_bounds: "0 < n \<Longrightarrow> n * (a div n) \<le> a \<and> a < n * (a div n) + (n :: int)"
  using pos_mod_sign [of n a] pos_mod_bound [of n a] mult_div_mod_eq [of n a] by linarith

lemma year_of_day: "day_from_year (year_of_day d) \<le> d \<and> d < day_from_year (year_of_day d + 1)"
proof -
  define y where "y = 1970 + (400 * d) div 146097"
  have q: "146097 * (y - 1970) \<le> 400 * d" "400 * d < 146097 * (y - 1970) + 146097"
    using quot_bounds [of 146097 "400 * d"] by (simp_all only: y_def add_diff_cancel_left')
  have b: "400 * day_from_year (y - 1) \<le> 146097 * (y - 1971) + 800"
    "146097 * (y - 1968) - 800 \<le> 400 * day_from_year (y + 2)"
    using day_from_year_bounds [of "y - 1"] day_from_year_bounds [of "y + 2"] by simp_all
  have "day_from_year (y - 1) \<le> d" using q(1) b(1) by simp
  moreover have "d < day_from_year (y + 2)" using q(2) b(2) by simp
  ultimately show ?thesis
    unfolding year_of_day_def Let_def y_def [symmetric] by (auto simp: add.assoc)
qed

lemma day_from_year_mono: "y \<le> z \<Longrightarrow> day_from_year y \<le> day_from_year z"
proof (induction "nat (z - y)" arbitrary: z)
  case (Suc n)
  then have "day_from_year y \<le> day_from_year (z - 1)" by simp
  moreover have "day_from_year z = day_from_year (z - 1) + days_in_year (z - 1)"
    using day_from_year_Suc [of "z - 1"] by simp
  ultimately show ?case by (simp add: days_in_year_def split: if_splits)
qed simp

lemma year_of_day_unique:
  assumes "day_from_year y \<le> d" and "d < day_from_year (y + 1)"
  shows "year_of_day d = y"
proof -
  let ?z = "year_of_day d"
  have "\<not> ?z + 1 \<le> y" using year_of_day [of d] assms(1) day_from_year_mono [of "?z + 1" y] by linarith
  moreover have "\<not> y + 1 \<le> ?z" using year_of_day [of d] assms(2) day_from_year_mono [of "y + 1" ?z] by linarith
  ultimately show ?thesis by simp
qed

lemma year_of_day_bounds: "0 \<le> d - day_from_year (year_of_day d)"
  "d - day_from_year (year_of_day d) < days_in_year (year_of_day d)"
  using year_of_day [of d] day_from_year_Suc [of "year_of_day d"] by simp_all

subsection \<open>Months\<close>

lemma month_from_spec:
  "0 \<le> d \<Longrightarrow> 0 < n \<Longrightarrow> let m = month_from n lp d
     in 1 \<le> m \<and> m \<le> int n \<and> month_start lp m \<le> d \<and> (m < int n \<longrightarrow> d < month_start lp (m + 1))"
proof (induction n)
  case (Suc n)
  show ?case
  proof (cases "month_start lp (int (Suc n)) \<le> d")
    case False
    then have "0 < n" using Suc.prems(1) by (cases n) (auto simp: month_start_def)
    with Suc have "let m = month_from n lp d
      in 1 \<le> m \<and> m \<le> int n \<and> month_start lp m \<le> d \<and> (m < int n \<longrightarrow> d < month_start lp (m + 1))"
      by simp
    then show ?thesis using False by (auto simp: Let_def) (metis add.commute order_less_le not_le)
  qed simp
qed simp

lemma month_of_day:
  assumes "0 \<le> d" "d < month_start lp 13"
  shows "1 \<le> month_of_day lp d" "month_of_day lp d \<le> 12"
    "month_start lp (month_of_day lp d) \<le> d" "d < month_start lp (month_of_day lp d + 1)"
proof -
  have s: "let m = month_of_day lp d in 1 \<le> m \<and> m \<le> 12 \<and> month_start lp m \<le> d \<and>
      (m < 12 \<longrightarrow> d < month_start lp (m + 1))"
    using month_from_spec [OF assms(1), of 12 lp] by (simp add: month_of_day_def)
  then show "1 \<le> month_of_day lp d" "month_of_day lp d \<le> 12"
    "month_start lp (month_of_day lp d) \<le> d" by (simp_all add: Let_def)
  show "d < month_start lp (month_of_day lp d + 1)"
    using s assms(2) by (cases "month_of_day lp d = 12") (auto simp: Let_def)
qed

lemma month_start_13: "month_start (leap_year y) 13 = days_in_year y"
  by (simp add: month_start_def days_in_year_def)

subsection \<open>The round trip\<close>

definition valid_time_parts :: "date_parts \<Rightarrow> bool" where
  "valid_time_parts p \<longleftrightarrow> 0 \<le> p_hour p \<and> p_hour p \<le> 23 \<and> 0 \<le> p_minute p \<and> p_minute p \<le> 59 \<and>
     0 \<le> p_second p \<and> p_second p \<le> 59"

lemma make_day_parts:
  "make_day (year_of_day d) (month_of_day (leap_year (year_of_day d)) (d - day_from_year (year_of_day d)))
     (d - day_from_year (year_of_day d) -
        month_start (leap_year (year_of_day d))
          (month_of_day (leap_year (year_of_day d)) (d - day_from_year (year_of_day d))) + 1) = d"
proof -
  let ?y = "year_of_day d"
  let ?m = "month_of_day (leap_year ?y) (d - day_from_year ?y)"
  have "0 \<le> d - day_from_year ?y" "d - day_from_year ?y < month_start (leap_year ?y) 13"
    using year_of_day_bounds [of d] by (simp_all add: month_start_13)
  from month_of_day(1,2) [OF this] have "(?m - 1) div 12 = 0" "(?m - 1) mod 12 = ?m - 1"
    by (simp_all add: div_pos_pos_trivial mod_pos_pos_trivial)
  then show ?thesis by (simp add: make_day_def Let_def)
qed

lemma ms_parts:
  fixes ms :: int
  assumes "0 \<le> ms" "ms < 86400000"
  shows "ms div 3600000 * 3600000 + ms div 60000 mod 60 * 60000 + ms div 1000 mod 60 * 1000 =
    ms - ms mod 1000"
proof -
  have "ms div 60000 = ms div 1000 div 60" "ms div 3600000 = ms div 1000 div 60 div 60"
    by (simp_all add: zdiv_zmult2_eq [symmetric])
  moreover have "ms - ms mod 1000 = ms div 1000 * 1000" by (simp add: minus_mod_eq_div_mult)
  moreover have "s div 60 div 60 * 3600000 + s div 60 mod 60 * 60000 + s mod 60 * 1000 = s * 1000" for s :: int
  proof -
    have "s div 60 div 60 * 60 + s div 60 mod 60 = s div 60" "s div 60 * 60 + s mod 60 = s" by simp_all
    then show ?thesis by linarith
  qed
  ultimately show ?thesis by metis
qed

text \<open>Reading the fields of an instant and putting them together again drops its milliseconds.\<close>

lemma date_utc_parts:
  assumes "full_year (year_of_day (t div ms_per_day)) = year_of_day (t div ms_per_day)"
  shows "(let p = utc_parts t
     in date_utc (p_year p) (p_month p) (p_day p) (p_hour p) (p_minute p) (p_second p)) = t - t mod 1000"
proof -
  let ?ms = "t mod ms_per_day"
  have b: "0 \<le> ?ms" "?ms < 86400000" by (simp_all add: ms_per_day_def)
  have m: "?ms mod 1000 = t mod 1000"
    by (simp add: ms_per_day_def mod_mod_cancel)
  have t: "t = t div ms_per_day * ms_per_day + ?ms" by simp
  have "date_utc (p_year (utc_parts t)) (p_month (utc_parts t)) (p_day (utc_parts t))
      (p_hour (utc_parts t)) (p_minute (utc_parts t)) (p_second (utc_parts t)) =
    t div ms_per_day * ms_per_day + (?ms div 3600000 * 3600000 + ?ms div 60000 mod 60 * 60000 +
      ?ms div 1000 mod 60 * 1000)"
    by (simp only: utc_parts_def Let_def date_utc_def date_parts.simps assms make_day_parts add.assoc)
  also have "\<dots> = t - t mod 1000"
    unfolding ms_parts [OF b] m using t by linarith
  finally show ?thesis by (simp only: Let_def)
qed

lemma valid_utc_parts: "valid_time_parts (utc_parts t)"
proof -
  have "0 \<le> t mod ms_per_day" "t mod ms_per_day < 86400000" by (simp_all add: ms_per_day_def)
  then have "0 \<le> t mod ms_per_day div 3600000" "t mod ms_per_day div 3600000 < 24"
    using zdiv_mono1 [of "t mod ms_per_day" 86399999 3600000] by (simp_all add: pos_imp_zdiv_nonneg_iff)
  moreover have "0 \<le> x mod 60 \<and> x mod 60 \<le> 59" for x :: int
    using pos_mod_bound [of 60 x] by simp
  ultimately show ?thesis by (simp add: valid_time_parts_def utc_parts_def Let_def)
qed

end
