(* ===== verification/Background_Eligibility.thy ===== *)
theory Background_Eligibility
  imports Prelude
begin

text \<open>
  \<open>src/lib/background-eligibility.ts\<close>: whether work that outlives a request (digests, imports,
  summaries, notifications) may still run for an account. The account row is read again by every
  worker; the decision is a function of that row alone.
\<close>

datatype plan = Plan_Free | Plan_Pro | Plan_Admin

datatype eligibility_reason =
  Eligible | Account_Disabled | Account_Missing | Email_Unverified | Plan_Ineligible

record background_eligibility =
  be_active :: bool
  be_ai_allowed :: bool
  be_email_allowed :: bool
  be_push_allowed :: bool
  be_reason :: eligibility_reason

record eligibility_user =
  eu_id :: string
  eu_disabled_at :: "time option"
  eu_email_verified :: "time option"
  eu_plan :: plan

definition background_eligible_plans :: "plan list" where
  "background_eligible_plans = [Plan_Admin, Plan_Free, Plan_Pro]"

definition denied_eligibility :: "eligibility_reason \<Rightarrow> background_eligibility" where
  "denied_eligibility reason =
     \<lparr>be_active = False, be_ai_allowed = False, be_email_allowed = False, be_push_allowed = False,
      be_reason = reason\<rparr>"

definition assess_background_eligibility :: "eligibility_user option \<Rightarrow> background_eligibility" where
  "assess_background_eligibility user =
     (case user of
        None \<Rightarrow> denied_eligibility Account_Missing
      | Some u \<Rightarrow>
          if eu_disabled_at u \<noteq> None then denied_eligibility Account_Disabled
          else if eu_plan u \<notin> set background_eligible_plans then denied_eligibility Plan_Ineligible
          else if eu_email_verified u = None
          then \<lparr>be_active = True, be_ai_allowed = True, be_email_allowed = False,
                be_push_allowed = True, be_reason = Email_Unverified\<rparr>
          else \<lparr>be_active = True, be_ai_allowed = True, be_email_allowed = True,
                be_push_allowed = True, be_reason = Eligible\<rparr>)"

definition get_background_eligibility :: "string \<Rightarrow> eligibility_user list \<Rightarrow> background_eligibility" where
  "get_background_eligibility user_id users =
     assess_background_eligibility (row_at eu_id user_id users)"

lemma every_plan_eligible [simp]: "p \<in> set background_eligible_plans"
  by (cases p) (simp_all add: background_eligible_plans_def)

lemma eligible_active:
  "be_active (assess_background_eligibility u) \<longleftrightarrow> (\<exists>x. u = Some x \<and> eu_disabled_at x = None)"
  "be_ai_allowed (assess_background_eligibility u) = be_active (assess_background_eligibility u)"
  by (auto simp: assess_background_eligibility_def denied_eligibility_def split: option.split)

text \<open>Background work runs exactly for existing accounts that are not disabled, e-mail only when
  in addition the address is verified; push follows the account, and nothing is allowed to an
  account that is not active.\<close>

theorem eligibility_decision:
  "let e = get_background_eligibility i users
   in (be_active e \<longleftrightarrow> (\<exists>x. row_at eu_id i users = Some x \<and> eu_disabled_at x = None)) \<and>
      (be_email_allowed e \<longleftrightarrow>
        (\<exists>x. row_at eu_id i users = Some x \<and> eu_disabled_at x = None \<and> eu_email_verified x \<noteq> None)) \<and>
      be_ai_allowed e = be_active e \<and> be_push_allowed e = be_active e"
  by (auto simp: Let_def get_background_eligibility_def assess_background_eligibility_def
      denied_eligibility_def split: option.split)

end
