(* ===== verification/Smart_Digests.thy ===== *)
theory Smart_Digests
  imports Digest_Rules Calendar Background_Eligibility Complex_Main
begin

text \<open>
  \<open>src/lib/smart-digests.ts\<close>: the rules of the Smart Digests. The input of the form is normalized
  (\<open>normalize_smart_digest_input\<close>), the next run of a rule is the next instant at which the clock of
  its time zone shows its hour (\<open>schedule_next_smart_digest_run\<close>, over the offset function of the
  time zone database), and a rule is created for a user within the limit of the plan
  (\<open>create_smart_digest_rule\<close>). The plan limits are those of \<open>src/lib/smart-digest-limits.ts\<close>.
\<close>

subsection \<open>Input\<close>

datatype source_scope = All_Feeds | Folders | Feeds

record digest_input =
  di_email_enabled :: bool
  di_exclude_terms :: string
  di_feed_subscription_ids :: "string list option"
  di_folder_ids :: "string list option"
  di_include_terms :: string
  di_name :: string
  di_scheduled_hour :: "rat option"  \<comment> \<open>\<open>None\<close>: not a finite number\<close>
  di_source_scope :: string
  di_time_zone :: string
  di_topic_prompt :: string

record normalized_input =
  ni_email_enabled :: bool
  ni_exclude_terms :: "string list"
  ni_feed_subscription_ids :: "string list"
  ni_folder_ids :: "string list"
  ni_include_terms :: "string list"
  ni_name :: string
  ni_scheduled_hour :: int
  ni_source_scope :: source_scope
  ni_time_zone :: string
  ni_topic_prompt :: string

datatype digest_error = Smart_Digest_Error string

definition compact_whitespace :: "string \<Rightarrow> string" where
  "compact_whitespace v = collapse_spaces (js_trim v)"

fun dedupe :: "'a list \<Rightarrow> 'a list \<Rightarrow> 'a list" where
  "dedupe seen [] = []"
| "dedupe seen (x # xs) = (if x \<in> set seen then dedupe seen xs else x # dedupe (x # seen) xs)"

text \<open>The parts between commas and newlines that stand outside double quotes.\<close>

fun split_term_parts :: "string \<Rightarrow> bool \<Rightarrow> string \<Rightarrow> string list" where
  "split_term_parts current in_quote [] = [current]"
| "split_term_parts current in_quote (c # s) =
     (if c = CHR 0x22 then split_term_parts (current @ [c]) (\<not> in_quote) s
      else if \<not> in_quote \<and> (c = CHR '','' \<or> c = CHR 0x0A)
      then current # split_term_parts [] in_quote s
      else split_term_parts (current @ [c]) in_quote s)"

definition normalize_term_list :: "string \<Rightarrow> string list" where
  "normalize_term_list v = dedupe []
     (concat (map (\<lambda>part. map pt_value (parse_smart_digest_string part)) (split_term_parts [] False v)))"

definition normalize_ids :: "string list option \<Rightarrow> string list" where
  "normalize_ids ids = dedupe []
     (filter (\<lambda>i. i \<noteq> []) (map js_trim (case ids of None \<Rightarrow> [] | Some xs \<Rightarrow> xs)))"

definition normalize_scheduled_hour :: "rat option \<Rightarrow> int" where
  "normalize_scheduled_hour v =
     (case v of None \<Rightarrow> 8 | Some q \<Rightarrow> min 23 (max 0 \<lfloor>q + 1 / 2\<rfloor>))"

definition normalize_source_scope :: "string \<Rightarrow> source_scope" where
  "normalize_source_scope v =
     (if v = ''FOLDERS'' then Folders else if v = ''FEEDS'' then Feeds else All_Feeds)"

definition time_zone_options :: "string list" where
  "time_zone_options = [''UTC'', ''America/New_York'', ''America/Chicago'', ''America/Denver'',
     ''America/Los_Angeles'', ''America/Anchorage'', ''Pacific/Honolulu'', ''Europe/London'',
     ''Europe/Berlin'', ''Asia/Tokyo'', ''Australia/Sydney'']"

definition is_supported_time_zone :: "string \<Rightarrow> bool" where
  "is_supported_time_zone z \<longleftrightarrow> z \<in> set time_zone_options"

definition normalize_smart_digest_input :: "digest_input \<Rightarrow> digest_error + normalized_input" where
  "normalize_smart_digest_input i =
     (let name = compact_whitespace (di_name i);
          prompt = compact_whitespace (di_topic_prompt i);
          includes = normalize_term_list (di_include_terms i)
      in if name = [] then Inl (Smart_Digest_Error ''Name is required.'')
         else if prompt = [] then Inl (Smart_Digest_Error ''Topic prompt is required.'')
         else if includes = [] then Inl (Smart_Digest_Error ''Add at least one include term.'')
         else
           let scope = normalize_source_scope (di_source_scope i);
               zone = (if is_supported_time_zone (di_time_zone i) then di_time_zone i else ''UTC'');
               feeds = (if scope = All_Feeds then [] else normalize_ids (di_feed_subscription_ids i));
               folders = (if scope = All_Feeds then [] else normalize_ids (di_folder_ids i))
           in if scope = Folders \<and> folders = []
              then Inl (Smart_Digest_Error ''Choose at least one folder.'')
              else if scope = Feeds \<and> feeds = []
              then Inl (Smart_Digest_Error ''Choose at least one feed.'')
              else Inr \<lparr>ni_email_enabled = di_email_enabled i,
                        ni_exclude_terms = normalize_term_list (di_exclude_terms i),
                        ni_feed_subscription_ids = (if scope = Folders then [] else feeds),
                        ni_folder_ids = (if scope = Feeds then [] else folders),
                        ni_include_terms = includes, ni_name = name,
                        ni_scheduled_hour = normalize_scheduled_hour (di_scheduled_hour i),
                        ni_source_scope = scope, ni_time_zone = zone, ni_topic_prompt = prompt\<rparr>)"

lemma set_dedupe: "set (dedupe seen xs) = set xs - set seen"
  by (induction seen xs rule: dedupe.induct) auto

lemma distinct_dedupe: "distinct (dedupe seen xs)"
  by (induction seen xs rule: dedupe.induct) (auto simp: set_dedupe)

lemma scan_terms_nonempty: "t \<in> set (scan_terms s) \<Longrightarrow> pt_value t \<noteq> []"
  by (induction s rule: scan_terms.induct)
    (auto dest: term_of_nonempty split: option.splits if_splits)

lemma term_list_wf: "distinct (normalize_term_list v) \<and> [] \<notin> set (normalize_term_list v)"
  by (auto simp: normalize_term_list_def distinct_dedupe set_dedupe parse_smart_digest_string_def
      set_dedupe_terms dest: scan_terms_nonempty)

lemma ids_wf: "distinct (normalize_ids v) \<and> [] \<notin> set (normalize_ids v)"
  by (simp add: normalize_ids_def distinct_dedupe set_dedupe)

lemma scheduled_hour_range: "0 \<le> normalize_scheduled_hour v \<and> normalize_scheduled_hour v \<le> 23"
  by (simp add: normalize_scheduled_hour_def split: option.split)

text \<open>No text is lost by splitting: the parts and the separators make up the text.\<close>

lemma split_term_parts_length:
  "length current + length s = length (concat (split_term_parts current q s)) +
     (length (split_term_parts current q s) - 1)"
proof -
  have "split_term_parts current q s \<noteq> [] \<and> length current + length s + 1 =
      length (concat (split_term_parts current q s)) + length (split_term_parts current q s)"
    by (induction current q s rule: split_term_parts.induct) auto
  then show ?thesis by (cases "split_term_parts current q s") auto
qed

definition normalized_ok :: "normalized_input \<Rightarrow> bool" where
  "normalized_ok n \<longleftrightarrow>
     ni_name n \<noteq> [] \<and> ni_topic_prompt n \<noteq> [] \<and>
     ni_include_terms n \<noteq> [] \<and> distinct (ni_include_terms n) \<and> [] \<notin> set (ni_include_terms n) \<and>
     distinct (ni_exclude_terms n) \<and> [] \<notin> set (ni_exclude_terms n) \<and>
     0 \<le> ni_scheduled_hour n \<and> ni_scheduled_hour n \<le> 23 \<and>
     is_supported_time_zone (ni_time_zone n) \<and>
     distinct (ni_folder_ids n) \<and> distinct (ni_feed_subscription_ids n) \<and>
     (ni_folder_ids n \<noteq> [] \<longleftrightarrow> ni_source_scope n = Folders) \<and>
     (ni_feed_subscription_ids n \<noteq> [] \<longleftrightarrow> ni_source_scope n = Feeds)"

lemma digest_normalized_ok: "normalize_smart_digest_input i = Inr n \<Longrightarrow> normalized_ok n"
proof -
  assume n: "normalize_smart_digest_input i = Inr n"
  have "is_supported_time_zone ''UTC''" by (simp add: is_supported_time_zone_def time_zone_options_def)
  then show ?thesis
    using n term_list_wf [of "di_include_terms i"] term_list_wf [of "di_exclude_terms i"]
      ids_wf [of "di_folder_ids i"] ids_wf [of "di_feed_subscription_ids i"]
      scheduled_hour_range [of "di_scheduled_hour i"]
    by (cases "normalize_source_scope (di_source_scope i)")
      (auto simp: normalize_smart_digest_input_def Let_def normalized_ok_def split: if_splits)
qed

text \<open>C26: Whatever the form sends, a rule that passes normalization is well formed: a name, a prompt
  and at least one include term, no empty or repeated term, an hour of the day, a supported time
  zone, and a selection of folders (or feeds) exactly when the scope asks for one.\<close>

theorem digest_input_normalized:
  assumes "normalize_smart_digest_input i = Inr n"
  shows "normalized_ok n"
  by (rule digest_normalized_ok [OF assms])

definition example_input :: digest_input where
  "example_input = \<lparr>di_email_enabled = True, di_exclude_terms = ''sports, sports'',
     di_feed_subscription_ids = Some [''s1''], di_folder_ids = Some ['' f1 '', ''f1''],
     di_include_terms = ''AI, ai'', di_name = '' Morning  news '', di_scheduled_hour = None,
     di_source_scope = ''FOLDERS'', di_time_zone = ''Mars'', di_topic_prompt = ''x''\<rparr>"

definition example_normalized :: normalized_input where
  "example_normalized = \<lparr>ni_email_enabled = True, ni_exclude_terms = [''sports''],
     ni_feed_subscription_ids = [], ni_folder_ids = [''f1''], ni_include_terms = [''ai''],
     ni_name = ''Morning news'', ni_scheduled_hour = 8, ni_source_scope = Folders,
     ni_time_zone = ''UTC'', ni_topic_prompt = ''x''\<rparr>"

lemma example_normalizes: "normalize_smart_digest_input example_input = Inr example_normalized"
  by code_simp

theorem digest_input_normalized_witness: "normalized_ok example_normalized"
  by (rule digest_input_normalized [OF example_normalizes])

subsection \<open>The schedule\<close>

text \<open>The fields of the clock of a zone (\<open>Intl.DateTimeFormat\<close>): \<open>off\<close> is the offset of the zone.\<close>

definition zoned_date_parts :: "(time \<Rightarrow> int) \<Rightarrow> time \<Rightarrow> date_parts" where
  "zoned_date_parts off t = utc_parts (t + off t)"

definition parts_utc :: "date_parts \<Rightarrow> time" where
  "parts_utc p = date_utc (p_year p) (p_month p) (p_day p) (p_hour p) (p_minute p) (p_second p)"

text \<open>At most four corrections of the candidate, as in the loop of \<open>zonedLocalTimeToUtc\<close>.\<close>

fun correct_candidate :: "nat \<Rightarrow> (time \<Rightarrow> int) \<Rightarrow> time \<Rightarrow> time \<Rightarrow> time" where
  "correct_candidate 0 off target c = c"
| "correct_candidate (Suc n) off target c =
     (let difference = parts_utc (zoned_date_parts off c) - target
      in if difference = 0 then c else correct_candidate n off target (c - difference))"

definition zoned_local_time_to_utc :: "(time \<Rightarrow> int) \<Rightarrow> date_parts \<Rightarrow> time" where
  "zoned_local_time_to_utc off p = correct_candidate 4 off (parts_utc p) (parts_utc p)"

definition add_utc_calendar_days :: "int \<Rightarrow> int \<Rightarrow> int \<Rightarrow> int \<Rightarrow> date_parts" where
  "add_utc_calendar_days year month day amount = utc_parts (date_utc year month (day + amount) 0 0 0)"

definition at_hour :: "date_parts \<Rightarrow> int \<Rightarrow> date_parts" where
  "at_hour p h = p\<lparr>p_hour := h, p_minute := 0, p_second := 0\<rparr>"

definition schedule_next_smart_digest_run ::
  "(string \<Rightarrow> time \<Rightarrow> int) \<Rightarrow> time \<Rightarrow> rat option \<Rightarrow> string \<Rightarrow> time" where
  "schedule_next_smart_digest_run tz from_time scheduled_hour time_zone =
     (let off = tz (if is_supported_time_zone time_zone then time_zone else ''UTC'');
          h = normalize_scheduled_hour scheduled_hour;
          local_from = zoned_date_parts off from_time;
          candidate = zoned_local_time_to_utc off (at_hour local_from h)
      in if candidate \<le> from_time
         then zoned_local_time_to_utc off (at_hour
           (add_utc_calendar_days (p_year local_from) (p_month local_from) (p_day local_from) 1) h)
         else candidate)"

lemma year_since_1970: "0 \<le> d \<Longrightarrow> 1970 \<le> year_of_day d"
proof (rule ccontr)
  assume "0 \<le> d" "\<not> 1970 \<le> year_of_day d"
  then have "day_from_year (year_of_day d + 1) \<le> day_from_year 1970"
    by (intro day_from_year_mono) simp
  then show False using year_of_day [of d] \<open>0 \<le> d\<close> by (simp add: day_from_year_def)
qed

lemma full_year_since_1970: "0 \<le> d \<Longrightarrow> full_year (year_of_day d) = year_of_day d"
  using year_since_1970 [of d] by (simp add: full_year_def)

lemma parts_utc_zoned:
  assumes "0 \<le> t + off t"
  shows "parts_utc (zoned_date_parts off t) = t + off t - (t + off t) mod 1000"
  using date_utc_parts [of "t + off t"] full_year_since_1970 [of "(t + off t) div ms_per_day"] assms
  by (simp add: parts_utc_def zoned_date_parts_def Let_def ms_per_day_def pos_imp_zdiv_nonneg_iff)

text \<open>The instant of an hour on the day of \<open>t\<close>.\<close>

lemma parts_utc_at_hour:
  assumes "0 \<le> t"
  shows "parts_utc (at_hour (utc_parts t) h) = t div ms_per_day * ms_per_day + h * 3600000"
proof -
  have "full_year (year_of_day (t div ms_per_day)) = year_of_day (t div ms_per_day)"
    using assms by (intro full_year_since_1970) (simp add: ms_per_day_def pos_imp_zdiv_nonneg_iff)
  then show ?thesis
    by (simp add: parts_utc_def at_hour_def utc_parts_def Let_def date_utc_def make_day_parts)
qed

lemma next_day:
  assumes "0 \<le> t"
  shows "date_utc (p_year (utc_parts t)) (p_month (utc_parts t)) (p_day (utc_parts t) + 1) 0 0 0 =
    (t div ms_per_day + 1) * ms_per_day"
proof -
  have y: "full_year (p_year (utc_parts t)) = p_year (utc_parts t)"
    using full_year_since_1970 [of "t div ms_per_day"] assms
    by (simp add: utc_parts_def Let_def ms_per_day_def pos_imp_zdiv_nonneg_iff)
  have "make_day (p_year (utc_parts t)) (p_month (utc_parts t)) (p_day (utc_parts t)) = t div ms_per_day"
    by (simp only: utc_parts_def Let_def date_parts.simps make_day_parts)
  moreover have "make_day y m (x + 1) = make_day y m x + 1" for y m x
    by (simp add: make_day_def Let_def)
  ultimately show ?thesis by (simp add: date_utc_def y)
qed

definition local_instant :: "(time \<Rightarrow> int) \<Rightarrow> time \<Rightarrow> bool" where
  "local_instant off c \<longleftrightarrow> 0 \<le> c + off c \<and> (1000 :: int) dvd c + off c"

lemma parts_utc_local: "local_instant off c \<Longrightarrow> parts_utc (zoned_date_parts off c) = c + off c"
  by (simp add: local_instant_def parts_utc_zoned dvd_eq_mod_eq_0)

text \<open>
  The loop of \<open>zonedLocalTimeToUtc\<close> finds the instant whose local time is the target whenever the
  offset in force just before or just after the target is right for it: \<open>a\<close> is the offset at the
  target read as UTC, \<open>b\<close> the one at the first correction.
\<close>

lemma correct_candidate_exact:
  assumes a: "a = off target" and b: "b = off (target - a)" and hit: "off (target - b) = b"
    and l: "local_instant off target" "local_instant off (target - a)" "local_instant off (target - b)"
  shows "correct_candidate 4 off target target = target - b"
proof -
  have p: "parts_utc (zoned_date_parts off target) - target = a"
    "parts_utc (zoned_date_parts off (target - a)) - target = b - a"
    "parts_utc (zoned_date_parts off (target - b)) - target = 0"
    using parts_utc_local [OF l(1)] parts_utc_local [OF l(2)] parts_utc_local [OF l(3)] a b hit
    by simp_all
  have last: "correct_candidate (Suc (Suc n)) off target (target - a) = target - b" for n
  proof (cases "b = a")
    case True
    then show ?thesis using p by (simp add: Let_def)
  next
    case False
    have "target - a - (b - a) = target - b" by simp
    then show ?thesis using p False by (simp add: Let_def)
  qed
  show ?thesis
  proof (cases "a = 0")
    case True
    then have "b = 0" using a b by simp
    then show ?thesis using p True by (simp add: eval_nat_numeral Let_def)
  next
    case False
    have "correct_candidate (Suc (Suc (Suc (Suc 0)))) off target target =
        correct_candidate (Suc (Suc (Suc 0))) off target (target - a)"
      unfolding correct_candidate.simps(2) [of "Suc (Suc (Suc 0))"] Let_def p(1) using False by simp
    moreover have "(4 :: nat) = Suc (Suc (Suc (Suc 0)))" by simp
    ultimately show ?thesis using last [of "Suc 0"] by (simp only:)
  qed
qed

text \<open>
  The instants a zone without changes of its offset needs: whole seconds, and a clock past the first
  days of the epoch so that local times are not negative.
\<close>

definition fixed_zone :: "(time \<Rightarrow> int) \<Rightarrow> int \<Rightarrow> bool" where
  "fixed_zone off z \<longleftrightarrow> (\<forall>t. off t = z) \<and> (1000 :: int) dvd z \<and> \<bar>z\<bar> < ms_per_day"

lemma fixed_zone_hit:
  assumes "fixed_zone off z" and "(1000 :: int) dvd target" and "2 * ms_per_day \<le> target"
  shows "correct_candidate 4 off target target = target - z"
proof -
  have "\<bar>z\<bar> < ms_per_day" "(1000 :: int) dvd z" "\<And>t. off t = z" using assms(1) by (auto simp: fixed_zone_def)
  then show ?thesis
    using assms(2,3) by (intro correct_candidate_exact [of z]) (auto simp: local_instant_def intro: dvd_add)
qed

lemma hour_dvd: "(1000 :: int) dvd d * ms_per_day + h * 3600000"
  by (simp add: ms_per_day_def dvd_add dvd_mult)

lemma hour_parts:
  assumes "0 \<le> h" "h \<le> 23"
  shows "p_hour (utc_parts (d * ms_per_day + h * 3600000)) = h"
    "p_minute (utc_parts (d * ms_per_day + h * 3600000)) = 0"
    "p_second (utc_parts (d * ms_per_day + h * 3600000)) = 0"
proof -
  have m: "h * 3600000 mod ms_per_day = h * 3600000"
    using assms by (simp add: ms_per_day_def)
  have "h * 3600000 div 60000 = h * 60" "h * 3600000 div 1000 = h * 60 * 60"
    using nonzero_mult_div_cancel_right [of 60000 "h * 60"] nonzero_mult_div_cancel_right [of 1000 "h * 3600"]
    by simp_all
  then show "p_hour (utc_parts (d * ms_per_day + h * 3600000)) = h"
    "p_minute (utc_parts (d * ms_per_day + h * 3600000)) = 0"
    "p_second (utc_parts (d * ms_per_day + h * 3600000)) = 0"
    by (simp_all add: utc_parts_def Let_def m)
qed

text \<open>C23: In a zone whose offset does not change, the next run of a rule lies within the following 24
  hours, strictly after now, at the full hour of the rule on the clock of the zone: so it is the next
  time that clock shows the hour.\<close>

theorem digest_schedule_next:
  assumes zone: "fixed_zone (tz (if is_supported_time_zone time_zone then time_zone else ''UTC'')) z"
    and from_time: "4 * ms_per_day \<le> from_time"
    and r: "r = schedule_next_smart_digest_run tz from_time hour time_zone"
  shows "from_time < r \<and> r \<le> from_time + ms_per_day \<and>
    p_hour (utc_parts (r + z)) = normalize_scheduled_hour hour \<and>
    p_minute (utc_parts (r + z)) = 0 \<and> p_second (utc_parts (r + z)) = 0"
proof -
  let ?off = "tz (if is_supported_time_zone time_zone then time_zone else ''UTC'')"
  let ?h = "normalize_scheduled_hour hour" and ?t = "from_time + z"
  define d where "d = ?t div ms_per_day"
  have h: "0 \<le> ?h" "?h \<le> 23" using scheduled_hour_range by simp_all
  have z: "\<bar>z\<bar> < ms_per_day" "?off from_time = z" using zone by (auto simp: fixed_zone_def)
  have t: "3 * ms_per_day \<le> ?t" using z(1) from_time by linarith
  have day: "d * ms_per_day \<le> ?t" "?t < (d + 1) * ms_per_day"
    using div_mult_mod_eq [of ?t ms_per_day] pos_mod_bound [of ms_per_day ?t] pos_mod_sign [of ms_per_day ?t]
    by (simp_all add: d_def ms_per_day_def)
  have "3 < d + 1" using day(2) t by (simp add: ms_per_day_def)
  then have d: "2 * ms_per_day \<le> d * ms_per_day + ?h * 3600000"
    "2 * ms_per_day \<le> (d + 1) * ms_per_day + ?h * 3600000"
    using h(1) by (simp_all add: ms_per_day_def)
  let ?p = "utc_parts ?t"
  have lf: "zoned_date_parts ?off from_time = ?p" by (simp add: zoned_date_parts_def z(2))
  have first: "zoned_local_time_to_utc ?off (at_hour ?p ?h) = d * ms_per_day + ?h * 3600000 - z"
    using parts_utc_at_hour [of ?t ?h] t fixed_zone_hit [OF zone hour_dvd d(1)]
    by (simp add: zoned_local_time_to_utc_def d_def ms_per_day_def)
  have "add_utc_calendar_days (p_year ?p) (p_month ?p) (p_day ?p) 1 = utc_parts ((d + 1) * ms_per_day)"
    using next_day [of ?t] t by (simp add: add_utc_calendar_days_def d_def ms_per_day_def)
  moreover have "0 \<le> (d + 1) * ms_per_day" "(d + 1) * ms_per_day div ms_per_day = d + 1"
    using \<open>3 < d + 1\<close> by (simp_all add: ms_per_day_def)
  ultimately have second: "zoned_local_time_to_utc ?off (at_hour (add_utc_calendar_days (p_year ?p)
      (p_month ?p) (p_day ?p) 1) ?h) = (d + 1) * ms_per_day + ?h * 3600000 - z"
    using parts_utc_at_hour [of "(d + 1) * ms_per_day" ?h] fixed_zone_hit [OF zone hour_dvd d(2)]
    by (simp add: zoned_local_time_to_utc_def)
  show ?thesis
  proof (cases "d * ms_per_day + ?h * 3600000 - z \<le> from_time")
    case True
    then have "r = (d + 1) * ms_per_day + ?h * 3600000 - z"
      by (simp only: r schedule_next_smart_digest_run_def Let_def lf first second if_True)
    then show ?thesis
      using True day(2) h hour_parts [OF h, of "d + 1"] by (simp add: distrib_right ms_per_day_def)
  next
    case False
    then have "r = d * ms_per_day + ?h * 3600000 - z"
      by (simp only: r schedule_next_smart_digest_run_def Let_def lf first if_False)
    then show ?thesis
      using False day(1) h hour_parts [OF h, of d] by (simp add: ms_per_day_def)
  qed
qed

theorem digest_schedule_next_witness:
  "(let r = schedule_next_smart_digest_run (\<lambda>_ _. 9 * 3600000) 1000000000000 (Some 7) ''Asia/Tokyo''
    in 1000000000000 < r \<and> r \<le> 1000086400000 \<and> p_hour (utc_parts (r + 9 * 3600000)) = 7)"
proof -
  have "fixed_zone (\<lambda>_. 9 * 3600000) (9 * 3600000)" by (simp add: fixed_zone_def ms_per_day_def)
  moreover have "normalize_scheduled_hour (Some 7) = 7" by (simp add: normalize_scheduled_hour_def floor_eq_iff)
  ultimately show ?thesis
    using digest_schedule_next [of "\<lambda>_ _. 9 * 3600000" "''Asia/Tokyo''" "9 * 3600000" 1000000000000 _ "Some 7"]
    by (simp add: ms_per_day_def Let_def)
qed


text \<open>New York on 10 March 2024, when its clocks went from UTC-5 to UTC-4 at 07:00 UTC.\<close>

definition new_york :: "time \<Rightarrow> int" where
  "new_york t = (if t < 1710054000000 then - 18000000 else - 14400000)"


subsection \<open>Creating a rule\<close>

record digest_user =
  du_id :: string
  du_plan :: plan

record folder_row =
  fo_id :: string
  fo_user :: string

record subscription_row =
  su_id :: string
  su_user :: string
  su_feed :: string
  su_folder :: "string option"
  su_is_paused :: bool

record digest_rule =
  ru_id :: string
  ru_user :: string
  ru_content_watermark_at :: "time option"
  ru_email_enabled :: bool
  ru_exclude_terms :: "string list"
  ru_folders :: "string list"
  ru_include_terms :: "string list"
  ru_is_enabled :: bool
  ru_last_matched_at :: "time option"
  ru_last_run_at :: "time option"
  ru_name :: string
  ru_next_run_at :: "time option"
  ru_scheduled_hour :: int
  ru_source_scope :: source_scope
  ru_subscriptions :: "string list"
  ru_time_zone :: string
  ru_topic_prompt :: string

record rule_store =
  st_users :: "digest_user list"
  st_folders :: "folder_row list"
  st_subscriptions :: "subscription_row list"
  st_rules :: "digest_rule list"

text \<open>\<open>Number.POSITIVE_INFINITY\<close> is \<open>None\<close>.\<close>

definition smart_digest_enabled_limit :: "plan \<Rightarrow> nat option" where
  "smart_digest_enabled_limit p =
     (case p of Plan_Admin \<Rightarrow> None | Plan_Pro \<Rightarrow> Some 10 | Plan_Free \<Rightarrow> Some 1)"

definition limit_message_for_plan :: "plan \<Rightarrow> string" where
  "limit_message_for_plan p =
     (case p of
        Plan_Free \<Rightarrow> ''Free accounts can enable one Smart Digest.''
      | Plan_Pro \<Rightarrow> ''Pro accounts can enable up to 10 Smart Digests.''
      | Plan_Admin \<Rightarrow> ''You have reached the Smart Digest limit for your plan.'')"

definition enabled_rules :: "string \<Rightarrow> rule_store \<Rightarrow> nat" where
  "enabled_rules u s = length (filter (\<lambda>r. ru_user r = u \<and> ru_is_enabled r) (st_rules s))"

fun at_limit :: "nat \<Rightarrow> nat option \<Rightarrow> bool" where
  "at_limit n None = False"
| "at_limit n (Some m) = (m \<le> n)"

fun within_limit :: "nat \<Rightarrow> nat option \<Rightarrow> bool" where
  "within_limit n None = True"
| "within_limit n (Some m) = (n \<le> m)"

lemma within_limit_Suc: "\<not> at_limit n l \<Longrightarrow> within_limit (Suc n) l"
  by (cases l) auto

definition folders_belong_to_user :: "string list \<Rightarrow> string \<Rightarrow> rule_store \<Rightarrow> bool" where
  "folders_belong_to_user ids u s \<longleftrightarrow>
     length (filter (\<lambda>f. fo_id f \<in> set ids \<and> fo_user f = u) (st_folders s)) = length ids"

definition subscriptions_belong_to_user :: "string list \<Rightarrow> string \<Rightarrow> rule_store \<Rightarrow> bool" where
  "subscriptions_belong_to_user ids u s \<longleftrightarrow>
     length (filter (\<lambda>x. su_id x \<in> set ids \<and> \<not> su_is_paused x \<and> su_user x = u) (st_subscriptions s))
       = length ids"

text \<open>
  The insertion and its trigger \<open>UserPlanQuota_track_smart_digest\<close> (migration
  20260713200000): the plan is read again under the lock of the quota row, and the insertion is
  refused at the limit.
\<close>

definition insert_rule :: "digest_rule \<Rightarrow> rule_store \<Rightarrow> rule_store option" where
  "insert_rule r s =
     (case row_at du_id (ru_user r) (st_users s) of
        Some u \<Rightarrow>
          if ru_is_enabled r \<and> at_limit (enabled_rules (ru_user r) s) (smart_digest_enabled_limit (du_plan u))
          then None else Some (s\<lparr>st_rules := st_rules s @ [r]\<rparr>)
      | None \<Rightarrow> None)"

definition new_rule :: "(string \<Rightarrow> time \<Rightarrow> int) \<Rightarrow> string \<Rightarrow> time \<Rightarrow> normalized_input \<Rightarrow> string \<Rightarrow> digest_rule" where
  "new_rule tz rule_id now n u =
     \<lparr>ru_id = rule_id, ru_user = u, ru_content_watermark_at = None,
      ru_email_enabled = ni_email_enabled n, ru_exclude_terms = ni_exclude_terms n,
      ru_folders = ni_folder_ids n, ru_include_terms = ni_include_terms n, ru_is_enabled = True,
      ru_last_matched_at = None, ru_last_run_at = None, ru_name = ni_name n,
      ru_next_run_at = Some (schedule_next_smart_digest_run tz now
        (Some (of_int (ni_scheduled_hour n))) (ni_time_zone n)),
      ru_scheduled_hour = ni_scheduled_hour n, ru_source_scope = ni_source_scope n,
      ru_subscriptions = ni_feed_subscription_ids n, ru_time_zone = ni_time_zone n,
      ru_topic_prompt = ni_topic_prompt n\<rparr>"

text \<open>
  \<open>env\<close> is what other requests do between the checks and the insertion; the only error of the
  database that the code translates is the one of the trigger.
\<close>

definition create_smart_digest_rule ::
  "(rule_store \<Rightarrow> rule_store) \<Rightarrow> (string \<Rightarrow> time \<Rightarrow> int) \<Rightarrow> string \<Rightarrow> time \<Rightarrow> digest_input \<Rightarrow> string \<Rightarrow>
   rule_store \<Rightarrow> (digest_error + digest_rule) \<times> rule_store" where
  "create_smart_digest_rule env tz rule_id now i u s =
     (case normalize_smart_digest_input i of
        Inl e \<Rightarrow> (Inl e, s)
      | Inr n \<Rightarrow>
          (case row_at du_id u (st_users s) of
             None \<Rightarrow> (Inl (Smart_Digest_Error ''User not found.''), s)
           | Some user \<Rightarrow>
               if at_limit (enabled_rules u s) (smart_digest_enabled_limit (du_plan user))
               then (Inl (Smart_Digest_Error (limit_message_for_plan (du_plan user))), s)
               else if ni_source_scope n = Folders \<and> \<not> folders_belong_to_user (ni_folder_ids n) u s
               then (Inl (Smart_Digest_Error ''Selected folders were not found.''), s)
               else if ni_source_scope n = Feeds \<and>
                 \<not> subscriptions_belong_to_user (ni_feed_subscription_ids n) u s
               then (Inl (Smart_Digest_Error ''Selected feeds were not found or are paused.''), s)
               else
                 let s1 = env s; r = new_rule tz rule_id now n u
                 in case insert_rule r s1 of
                      Some s2 \<Rightarrow> (Inr r, s2)
                    | None \<Rightarrow> (Inl (Smart_Digest_Error (limit_message_for_plan (du_plan user))), s1)))"

text \<open>The selected folders, when the count of the query is right, are all there.\<close>

lemma selected_all_found:
  assumes "distinct (map key t)" "distinct ids"
    and "length (filter (\<lambda>x. key x \<in> set ids \<and> p x) t) = length ids" and "i \<in> set ids"
  shows "\<exists>x \<in> set t. key x = i \<and> p x"
proof -
  let ?f = "filter (\<lambda>x. key x \<in> set ids \<and> p x) t"
  have d: "distinct (map key ?f)" using assms(1) by (simp add: distinct_map_filter)
  have "set (map key ?f) \<subseteq> set ids" by auto
  moreover have "card (set (map key ?f)) = card (set ids)"
    using distinct_card [OF d] distinct_card [OF assms(2)] assms(3) by simp
  ultimately have "set (map key ?f) = set ids" by (simp add: card_subset_eq)
  then have "i \<in> set (map key ?f)" using assms(4) by simp
  then show ?thesis by auto
qed



end
