(* ===== verification/Digest_Run.thy ===== *)
theory Digest_Run
  imports Smart_Digests Fenced_Lease "HOL-Library.Product_Lexorder"
begin

text \<open>
  \<open>src/lib/smart-digest-run-leases.ts\<close> (the lease on a run) and
  \<open>src/lib/smart-digest-processing.ts\<close> (the worker that makes one digest of a rule for one scheduled
  instant). The database is the record \<open>digest_db\<close>; what other workers do between two queries is the
  parameter \<open>dp_env\<close>, the clock at each of its readings is \<open>dp_clock\<close>.
\<close>

subsection \<open>The data\<close>

datatype run_status = Run_Pending | Run_Processing | Run_Completed | Run_Failed | Run_Canceled
datatype digest_status = Digest_Completed | Digest_Completed_No_Matches
datatype email_status = Email_Not_Requested | Email_Pending | Email_Unknown | Email_Sent | Email_Failed

record digest_run =
  dr_id :: string
  dr_attempt :: int
  dr_completed_at :: "time option"
  dr_digest_id :: "string option"
  dr_email_status :: "email_status option"
  dr_error_message :: "string option"
  dr_last_heartbeat_at :: "time option"
  dr_lease_expires_at :: "time option"
  dr_lease_owner :: "string option"
  dr_processing_started_at :: "time option"
  dr_rule :: string
  dr_scheduled_for :: time
  dr_status :: run_status
  dr_watermark_from :: "time option"
  dr_watermark_to :: "time option"

record run_lease =
  rl_attempt :: int
  rl_id :: string
  rl_lease_expires_at :: time
  rl_owner :: string

record candidate =
  ca_id :: string
  ca_content :: "string option"
  ca_created_at :: time
  ca_feed :: string
  ca_feed_title :: string
  ca_published_at :: "time option"
  ca_summary :: "string option"
  ca_title :: string
  ca_url :: string

record digest_item =
  it_article :: string
  it_title :: string
  it_url :: string
  it_feed_title :: string
  it_matched_fields :: "string list"
  it_matched_terms :: "string list"
  it_position :: nat
  it_published_at :: "time option"
  it_reason :: string
  it_summary :: string

record digest =
  dg_id :: string
  dg_article_count :: nat
  dg_completed_at :: time
  dg_email_status :: email_status
  dg_items :: "digest_item list"
  dg_rule :: string
  dg_run :: string
  dg_started_at :: time
  dg_status :: digest_status
  dg_title :: string
  dg_topic_prompt :: string
  dg_user :: string

record digest_db =
  dd_accounts :: "eligibility_user list"
  dd_rules :: "digest_rule list"
  dd_subscriptions :: "subscription_row list"
  dd_articles :: "candidate list"
  dd_runs :: "digest_run list"
  dd_digests :: "digest list"
  dd_email_queue :: "string list"

subsection \<open>The lease on a run\<close>

definition smart_digest_processing_lease_ms :: int where
  "smart_digest_processing_lease_ms = 10 * 60 * 1000"

definition run_lease_where :: "run_lease \<Rightarrow> time \<Rightarrow> digest_run \<Rightarrow> bool" where
  "run_lease_where l now r \<longleftrightarrow>
     dr_attempt r = rl_attempt l \<and> dr_id r = rl_id l \<and> gt_opt (dr_lease_expires_at r) now \<and>
     dr_lease_owner r = Some (rl_owner l) \<and> dr_status r = Run_Processing"

definition run_claimable :: "string \<Rightarrow> time \<Rightarrow> digest_run \<Rightarrow> bool" where
  "run_claimable i now r \<longleftrightarrow>
     dr_id r = i \<and> (dr_status r = Run_Pending \<or> dr_status r = Run_Failed \<or>
       (dr_lease_expires_at r = None \<or> lte_opt (dr_lease_expires_at r) now) \<and> dr_status r = Run_Processing)"

definition claimed_run :: "time \<Rightarrow> time \<Rightarrow> string \<Rightarrow> digest_run \<Rightarrow> digest_run" where
  "claimed_run now expires owner r =
     r\<lparr>dr_attempt := dr_attempt r + 1, dr_error_message := None, dr_last_heartbeat_at := Some now,
       dr_lease_expires_at := Some expires, dr_lease_owner := Some owner,
       dr_processing_started_at := Some now, dr_status := Run_Processing\<rparr>"

definition claim_smart_digest_run ::
  "(digest_run list \<Rightarrow> digest_run list) \<Rightarrow> int \<Rightarrow> time \<Rightarrow> string \<Rightarrow> string \<Rightarrow> digest_run list \<Rightarrow>
   run_lease option \<times> digest_run list" where
  "claim_smart_digest_run env lease_ms now owner i t =
     (let expires = add_milliseconds now lease_ms;
          (t1, count) = update_many (run_claimable i now) (claimed_run now expires owner) t
      in if count \<noteq> 1 then (None, t1)
         else let t2 = env t1
              in case row_at dr_id i t2 of
                   None \<Rightarrow> (None, t2)
                 | Some r \<Rightarrow>
                     if dr_attempt r < 1 \<or> dr_lease_owner r \<noteq> Some owner \<or>
                        dr_lease_expires_at r \<noteq> Some expires \<or> dr_status r \<noteq> Run_Processing
                     then (None, t2)
                     else (Some \<lparr>rl_attempt = dr_attempt r, rl_id = dr_id r,
                                 rl_lease_expires_at = expires, rl_owner = owner\<rparr>, t2))"

definition renewed_run :: "time \<Rightarrow> time \<Rightarrow> digest_run \<Rightarrow> digest_run" where
  "renewed_run now expires r =
     r\<lparr>dr_last_heartbeat_at := Some now, dr_lease_expires_at := Some expires\<rparr>"

definition renew_smart_digest_run_lease ::
  "int \<Rightarrow> time \<Rightarrow> run_lease \<Rightarrow> digest_run list \<Rightarrow> bool \<times> digest_run list" where
  "renew_smart_digest_run_lease lease_ms now l t =
     (let (t', count) = update_many (run_lease_where l now)
            (renewed_run now (add_milliseconds now lease_ms)) t
      in (count = 1, t'))"

text \<open>
  A run ends in a write that frees the lease: completed with its digest, recovered, or failed. The
  boolean says whether the \<open>where\<close> found the row.
\<close>

definition freed_run :: "time \<Rightarrow> run_status \<Rightarrow> digest_run \<Rightarrow> digest_run" where
  "freed_run now status r =
     r\<lparr>dr_last_heartbeat_at := Some now, dr_lease_expires_at := None, dr_lease_owner := None,
       dr_processing_started_at := None, dr_status := status\<rparr>"

datatype run_end =
    Fail_Run string
  | Recover_Run time
  | Complete_Run time string email_status time time

fun ended_run :: "time \<Rightarrow> run_end \<Rightarrow> digest_run \<Rightarrow> digest_run" where
  "ended_run heartbeat_at (Fail_Run message) r =
     (freed_run heartbeat_at Run_Failed r)\<lparr>dr_error_message := Some message\<rparr>"
| "ended_run heartbeat_at (Recover_Run completed_at) r =
     (freed_run heartbeat_at Run_Completed r)\<lparr>dr_completed_at := Some completed_at\<rparr>"
| "ended_run heartbeat_at (Complete_Run completed_at digest_id email from_t to_t) r =
     (freed_run heartbeat_at Run_Completed r)\<lparr>dr_completed_at := Some completed_at,
        dr_digest_id := Some digest_id, dr_email_status := Some email,
        dr_watermark_from := Some from_t, dr_watermark_to := Some to_t\<rparr>"

definition finish_digest_run ::
  "time \<Rightarrow> time \<times> run_end \<Rightarrow> run_lease \<Rightarrow> digest_run list \<Rightarrow> bool \<times> digest_run list" where
  "finish_digest_run now x l t =
     (let (t', count) = update_many (run_lease_where l now) (ended_run (fst x) (snd x)) t
      in (0 < count, t'))"

definition fail_digest_run ::
  "time \<Rightarrow> string \<Rightarrow> run_lease \<Rightarrow> digest_run list \<Rightarrow> bool \<times> digest_run list" where
  "fail_digest_run now message = finish_digest_run now (now, Fail_Run message)"

lemma claimed_run_simps [simp]:
  "dr_id (claimed_run now e w r) = dr_id r" "dr_attempt (claimed_run now e w r) = dr_attempt r + 1"
  "dr_lease_expires_at (claimed_run now e w r) = Some e" "dr_lease_owner (claimed_run now e w r) = Some w"
  "dr_status (claimed_run now e w r) = Run_Processing" "dr_rule (claimed_run now e w r) = dr_rule r"
  "dr_scheduled_for (claimed_run now e w r) = dr_scheduled_for r"
  "dr_digest_id (claimed_run now e w r) = dr_digest_id r"
  "dr_email_status (claimed_run now e w r) = dr_email_status r"
  by (simp_all add: claimed_run_def)

lemma renewed_run_simps [simp]:
  "dr_id (renewed_run now e r) = dr_id r" "dr_attempt (renewed_run now e r) = dr_attempt r"
  "dr_lease_expires_at (renewed_run now e r) = Some e"
  "dr_lease_owner (renewed_run now e r) = dr_lease_owner r"
  "dr_status (renewed_run now e r) = dr_status r" "dr_rule (renewed_run now e r) = dr_rule r"
  "dr_scheduled_for (renewed_run now e r) = dr_scheduled_for r"
  "dr_digest_id (renewed_run now e r) = dr_digest_id r"
  by (simp_all add: renewed_run_def)

lemma freed_run_simps [simp]:
  "dr_id (freed_run now st r) = dr_id r" "dr_attempt (freed_run now st r) = dr_attempt r"
  "dr_lease_expires_at (freed_run now st r) = None" "dr_lease_owner (freed_run now st r) = None"
  "dr_status (freed_run now st r) = st" "dr_rule (freed_run now st r) = dr_rule r"
  "dr_scheduled_for (freed_run now st r) = dr_scheduled_for r"
  "dr_digest_id (freed_run now st r) = dr_digest_id r"
  by (simp_all add: freed_run_def)

lemma ended_run_simps [simp]:
  "dr_id (ended_run hb x r) = dr_id r" "dr_attempt (ended_run hb x r) = dr_attempt r"
  "dr_lease_expires_at (ended_run hb x r) = None" "dr_rule (ended_run hb x r) = dr_rule r"
  "dr_scheduled_for (ended_run hb x r) = dr_scheduled_for r"
  by (cases x; simp)+

definition run_live :: "time \<Rightarrow> run_lease \<Rightarrow> digest_run list \<Rightarrow> bool" where
  "run_live now l t \<longleftrightarrow> (\<exists>r. row_at dr_id (rl_id l) t = Some r \<and> run_lease_where l now r)"

definition run_gen :: "digest_run list \<Rightarrow> string \<Rightarrow> int" where
  "run_gen t i = (case row_at dr_id i t of None \<Rightarrow> 0 | Some r \<Rightarrow> dr_attempt r)"

definition runs_invar :: "digest_run list \<Rightarrow> bool" where
  "runs_invar t \<longleftrightarrow> distinct (map dr_id t) \<and> (\<forall>r \<in> set t. 0 \<le> dr_attempt r)"

definition run_claim ::
  "int \<Rightarrow> time \<Rightarrow> string \<times> string \<Rightarrow> digest_run list \<Rightarrow> run_lease option \<times> digest_run list" where
  "run_claim ms now w = claim_smart_digest_run id ms now (fst w) (snd w)"

lemma run_where_id: "run_lease_where l now r \<Longrightarrow> dr_id r = rl_id l"
  by (simp add: run_lease_where_def)

lemma run_claimable_id: "run_claimable i now r \<Longrightarrow> dr_id r = i"
  by (simp add: run_claimable_def)

text \<open>What the update of the claim does to the row, and the result without interference.\<close>

lemma claim_update:
  assumes "distinct (map dr_id t)"
  shows "snd (update_many (run_claimable i now) (claimed_run now e w) t) =
      (case row_at dr_id i t of None \<Rightarrow> 0 | Some r \<Rightarrow> if run_claimable i now r then 1 else 0)"
    and "row_at dr_id k (fst (update_many (run_claimable i now) (claimed_run now e w) t)) =
      map_option (\<lambda>r. if run_claimable i now r then claimed_run now e w r else r) (row_at dr_id k t)"
  by (rule update_many_count [OF assms run_claimable_id], assumption) (simp add: row_at_update_many)

lemma run_claim_cases:
  assumes "runs_invar t"
  shows "(\<exists>r. row_at dr_id (snd w) t = Some r \<and> run_claimable (snd w) now r \<and>
            run_claim ms now w t =
              (Some \<lparr>rl_attempt = dr_attempt r + 1, rl_id = snd w,
                     rl_lease_expires_at = add_milliseconds now ms, rl_owner = fst w\<rparr>,
               fst (update_many (run_claimable (snd w) now)
                 (claimed_run now (add_milliseconds now ms) (fst w)) t)))
         \<or> run_claim ms now w t = (None, t)"
proof -
  let ?u = "update_many (run_claimable (snd w) now) (claimed_run now (add_milliseconds now ms) (fst w)) t"
  have d: "distinct (map dr_id t)" using assms by (simp add: runs_invar_def)
  note cu = claim_update [OF d, where i = "snd w" and now = now and e = "add_milliseconds now ms" and w = "fst w"]
  show ?thesis
  proof (cases "\<exists>r. row_at dr_id (snd w) t = Some r \<and> run_claimable (snd w) now r")
    case True
    then obtain r where r: "row_at dr_id (snd w) t = Some r" "run_claimable (snd w) now r" by blast
    have "0 \<le> dr_attempt r" using row_at_SomeD [OF r(1)] assms by (simp add: runs_invar_def)
    then have "run_claim ms now w t =
        (Some \<lparr>rl_attempt = dr_attempt r + 1, rl_id = snd w,
               rl_lease_expires_at = add_milliseconds now ms, rl_owner = fst w\<rparr>, fst ?u)"
      using r cu row_at_key [OF r(1)]
      by (simp add: run_claim_def claim_smart_digest_run_def Let_def case_prod_beta)
    with r show ?thesis by blast
  next
    case False
    then have "snd ?u = 0" using cu(1) by (auto split: option.splits)
    then show ?thesis
      using update_many_none [of "run_claimable (snd w) now" _ t]
      by (simp add: run_claim_def claim_smart_digest_run_def Let_def case_prod_beta)
  qed
qed

lemma runs_invar_update:
  assumes "runs_invar t" and "\<And>r. dr_id (f r) = dr_id r" and "\<And>r. dr_attempt r \<le> dr_attempt (f r)"
  shows "runs_invar (fst (update_many p f t))"
  using assms by (auto simp: runs_invar_def update_many_set) (meson order_trans)

lemma run_update_count:
  "runs_invar t \<Longrightarrow> snd (update_many (run_lease_where l now) f t) = (if run_live now l t then 1 else 0)"
  using update_many_count [of dr_id t "run_lease_where l now" "rl_id l" f]
  by (auto simp: runs_invar_def run_live_def run_where_id split: option.splits)

lemma run_gen_update:
  assumes "\<And>r. dr_id (f r) = dr_id r" and "\<And>r. dr_attempt (f r) = dr_attempt r"
  shows "run_gen (fst (update_many p f t)) = run_gen t"
  by (auto simp: run_gen_def fun_eq_iff row_at_update_many [of dr_id, OF assms(1)] assms(2)
      split: option.splits)

lemma run_live_earlier: "run_live now l t \<Longrightarrow> u \<le> now \<Longrightarrow> run_live u l t"
  by (auto simp: run_live_def run_lease_where_def intro: gt_opt_antimono)

lemma run_live_renew: "run_live now l t \<Longrightarrow> run_live now l (snd (renew_smart_digest_run_lease ms now l t))"
  by (auto simp: run_live_def renew_smart_digest_run_lease_def case_prod_beta row_at_update_many
      run_lease_where_def)

lemma run_live_finish: "run_live now l t \<Longrightarrow> \<not> run_live u l (snd (finish_digest_run now x l t))"
  by (auto simp: run_live_def finish_digest_run_def case_prod_beta row_at_update_many
      run_lease_where_def)

lemma run_live_gen: "run_live now l t \<Longrightarrow> rl_attempt l = run_gen t (rl_id l)"
  by (auto simp: run_live_def run_gen_def run_lease_where_def)

interpretation run_lease: fenced_lease
  "run_claim ms" "renew_smart_digest_run_lease ms" finish_digest_run
  run_live rl_id rl_attempt run_gen runs_invar
proof unfold_locales
  fix t :: "digest_run list" and w now l l' t'
  assume inv: "runs_invar t"
  note cc = run_claim_cases [OF inv, of w now ms]
  show "runs_invar (snd (run_claim ms now w t))"
    using cc inv by (auto intro!: runs_invar_update)
  show "run_live now l t'" if "run_claim ms now w t = (Some l, t')"
    using cc that
    by (auto simp: run_live_def row_at_update_many run_lease_where_def run_claimable_id)
  show "rl_id l' \<noteq> rl_id l" if "run_live now l t" "run_claim ms now w t = (Some l', t')"
    using cc that
    by (auto simp: run_live_def run_claimable_def run_lease_where_def gt_opt_iff lte_opt_iff)
  show "rl_attempt l = run_gen t (rl_id l) + 1 \<and>
      run_gen t' = (run_gen t)(rl_id l := run_gen t (rl_id l) + 1)"
    if c: "run_claim ms now w t = (Some l, t')"
  proof -
    obtain r where r: "row_at dr_id (snd w) t = Some r" "run_claimable (snd w) now r"
      "rl_id l = snd w" "rl_attempt l = dr_attempt r + 1"
      and t': "t' = fst (update_many (run_claimable (snd w) now)
        (claimed_run now (add_milliseconds now ms) (fst w)) t)"
      using cc c by auto
    have "run_gen t' i = (if i = snd w then dr_attempt r + 1 else run_gen t i)" for i
      using r(1,2) by (auto simp: t' run_gen_def row_at_update_many run_claimable_def
          split: option.splits dest: row_at_key)
    then show ?thesis using r by (auto simp: run_gen_def)
  qed
  show "t' = t" if "run_claim ms now w t = (None, t')"
    using cc that by auto
  fix u x
  show "run_live now l (snd (renew_smart_digest_run_lease ms now l t))" if "run_live now l t"
    by (rule run_live_renew [OF that])
  show "\<not> run_live u l (snd (finish_digest_run now x l t))" if "fst (finish_digest_run now x l t)"
    using that inv
    by (intro run_live_finish) (auto simp: finish_digest_run_def case_prod_beta run_update_count
        split: if_splits)
qed (auto simp: renew_smart_digest_run_lease_def finish_digest_run_def case_prod_beta Let_def
    run_update_count run_live_gen run_gen_update runs_invar_update update_many_none run_live_earlier)

definition run_with_run_lease_heartbeat ::
  "run_lease \<Rightarrow> digest_run list heartbeat_event list \<Rightarrow> 'a option \<Rightarrow> time \<Rightarrow> digest_run list \<Rightarrow>
   (bool \<times> 'a) option \<times> digest_run list" where
  "run_with_run_lease_heartbeat =
     run_with_heartbeat (renew_smart_digest_run_lease smart_digest_processing_lease_ms)"

text \<open>C27: A digest worker that lost its run to a second worker can neither renew the lease nor end
  the run (complete, recover or fail it) any more, whatever claims, renewals and endings follow: so
  a late worker never overwrites the outcome of the one that replaced it.\<close>

theorem digest_run_fenced:
  assumes "runs_invar t" and "run_live now0 l t"
    and "claim_smart_digest_run id ms now owner (rl_id l) t = (Some l', t')"
    and "u = lease_run (run_claim ms) (renew_smart_digest_run_lease ms) finish_digest_run ops t'"
  shows "renew_smart_digest_run_lease ms later l u = (False, u) \<and>
    finish_digest_run later x l u = (False, u)"
proof -
  have c: "run_claim ms now (owner, rl_id l) t = (Some l', t')"
    using assms(3) by (simp add: run_claim_def)
  have "rl_id l' = rl_id l"
    using run_claim_cases [OF assms(1), of "(owner, rl_id l)" now ms] c by auto
  then have "\<not> fst (renew_smart_digest_run_lease ms later l u) \<and>
      snd (renew_smart_digest_run_lease ms later l u) = u \<and> finish_digest_run later x l u = (False, u)"
    by (intro run_lease.fenced_writes [OF assms(1) c _ _ assms(4)])
      (simp_all add: run_live_gen [OF assms(2)])
  then show ?thesis by (simp add: prod_eq_iff)
qed

definition example_run :: digest_run where
  "example_run = \<lparr>dr_id = ''run'', dr_attempt = 2, dr_completed_at = None, dr_digest_id = None,
     dr_email_status = Some Email_Not_Requested, dr_error_message = None,
     dr_last_heartbeat_at = Some 0, dr_lease_expires_at = Some 1000, dr_lease_owner = Some ''w1'',
     dr_processing_started_at = Some 0, dr_rule = ''rule'', dr_scheduled_for = 0,
     dr_status = Run_Processing, dr_watermark_from = None, dr_watermark_to = None\<rparr>"

definition example_run_lease :: run_lease where
  "example_run_lease = \<lparr>rl_attempt = 2, rl_id = ''run'', rl_lease_expires_at = 1000, rl_owner = ''w1''\<rparr>"

lemma example_run_claim:
  "claim_smart_digest_run id 600000 2000 ''w2'' (rl_id example_run_lease) [example_run] =
     (Some \<lparr>rl_attempt = 3, rl_id = ''run'', rl_lease_expires_at = 602000, rl_owner = ''w2''\<rparr>,
      [claimed_run 2000 602000 ''w2'' example_run])"
  by code_simp

theorem digest_run_fenced_witness:
  "finish_digest_run 3000 (3000, Complete_Run 3000 ''d'' Email_Pending 0 3000) example_run_lease
     [claimed_run 2000 602000 ''w2'' example_run] = (False, [claimed_run 2000 602000 ''w2'' example_run])"
proof -
  have "runs_invar [example_run]" "run_live 500 example_run_lease [example_run]"
    by (simp_all add: runs_invar_def example_run_def run_live_def example_run_lease_def run_lease_where_def)
  then show ?thesis
    using digest_run_fenced [OF _ _ example_run_claim, of 500 _ "[]" 3000]
    by (simp add: lease_run_def)
qed

end
