(* ===== verification/Digest_Processing.thy ===== *)
theory Digest_Processing
  imports Digest_Run
begin

text \<open>
  \<open>src/lib/smart-digest-processing.ts\<close>: the worker that turns one scheduled instant of a rule into a
  digest. One call runs its queries in the order of the code; the parameters of a call are in
  \<open>digest_call\<close>: what other workers write at the numbered points between queries (\<open>dc_env\<close>), the
  clock readings of \<open>leaseNow\<close> (\<open>dc_clock\<close>), the values the database and \<open>randomUUID\<close> draw, and
  whether the article query, the transaction and the e-mail queue answer at all.
\<close>

definition first_run_lookback_ms :: int where
  "first_run_lookback_ms = 24 * 60 * 60 * 1000"

definition smart_digest_late_arrival_lookback_ms :: int where
  "smart_digest_late_arrival_lookback_ms = 2 * 60 * 60 * 1000"

subsection \<open>Which articles a run looks at\<close>

definition digest_watermark_from :: "digest_rule \<Rightarrow> time \<Rightarrow> time" where
  "digest_watermark_from rule now =
     (case ru_content_watermark_at rule of
        Some w \<Rightarrow> w
      | None \<Rightarrow> (case ru_last_run_at rule of Some l \<Rightarrow> l | None \<Rightarrow> now - first_run_lookback_ms))
     - smart_digest_late_arrival_lookback_ms"

definition smart_digest_candidate_where ::
  "digest_rule \<Rightarrow> subscription_row list \<Rightarrow> candidate \<Rightarrow> bool" where
  "smart_digest_candidate_where rule subs a \<longleftrightarrow>
     list_ex (\<lambda>x. su_feed x = ca_feed a \<and> \<not> su_is_paused x \<and> su_user x = ru_user rule \<and>
       (case ru_source_scope rule of
          Folders \<Rightarrow> (case su_folder x of None \<Rightarrow> False | Some f \<Rightarrow> f \<in> set (ru_folders rule))
        | Feeds \<Rightarrow> su_id x \<in> set (ru_subscriptions rule)
        | All_Feeds \<Rightarrow> True)) subs"

definition in_window :: "time \<Rightarrow> time \<Rightarrow> time option \<Rightarrow> bool" where
  "in_window a b x = (case x of None \<Rightarrow> False | Some t \<Rightarrow> a \<le> t \<and> t \<le> b)"

definition smart_digest_window_where ::
  "string \<Rightarrow> time \<Rightarrow> time \<Rightarrow> digest list \<Rightarrow> candidate \<Rightarrow> bool" where
  "smart_digest_window_where rule_id from_t to_t digests a \<longleftrightarrow>
     (in_window from_t to_t (ca_published_at a) \<or> in_window from_t to_t (Some (ca_created_at a))) \<and>
     \<not> list_ex (\<lambda>d. dg_rule d = rule_id \<and> list_ex (\<lambda>i. it_article i = ca_id a) (dg_items d)) digests"

text \<open>
  \<open>orderBy: [{publishedAt: "desc"}, {createdAt: "desc"}], take: 100\<close>; PostgreSQL puts NULLs first
  when it sorts descending.
\<close>

definition newest_first :: "candidate \<Rightarrow> (int \<times> int) \<times> int" where
  "newest_first a =
     ((case ca_published_at a of None \<Rightarrow> (0, 0) | Some t \<Rightarrow> (1, - t)), - ca_created_at a)"

definition find_candidates :: "digest_rule \<Rightarrow> time \<Rightarrow> time \<Rightarrow> digest_db \<Rightarrow> candidate list" where
  "find_candidates rule from_t to_t s =
     take 100 (sort_key newest_first
       (filter (\<lambda>a. smart_digest_candidate_where rule (dd_subscriptions s) a \<and>
                    smart_digest_window_where (ru_id rule) from_t to_t (dd_digests s) a)
         (dd_articles s)))"

subsection \<open>The items of a digest\<close>

text \<open>\<open>a || b\<close> on possibly null strings: the first one that is not empty.\<close>

definition or_string :: "string option \<Rightarrow> string \<Rightarrow> string" where
  "or_string a b = (case a of None \<Rightarrow> b | Some s \<Rightarrow> if s = [] then b else s)"

definition compact_article_summary :: "candidate \<Rightarrow> string" where
  "compact_article_summary a =
     (let source = compact_whitespace (or_string (ca_summary a) (or_string (ca_content a) (ca_title a)));
          summary = (if source = [] then compact_whitespace (ca_title a) else source)
      in if length summary \<le> 240 then summary else trim_end (take 237 summary) @ ''...'')"

definition match_candidate :: "digest_rule \<Rightarrow> candidate \<Rightarrow> match_result" where
  "match_candidate rule a = match_smart_digest_article
     \<lparr>ma_content = ca_content a, ma_feed_title = Some (ca_feed_title a), ma_summary = ca_summary a,
      ma_title = Some (ca_title a)\<rparr> (ru_exclude_terms rule) (ru_include_terms rule)"

definition digest_item_of :: "nat \<Rightarrow> match_result \<Rightarrow> candidate \<Rightarrow> digest_item" where
  "digest_item_of pos m a =
     \<lparr>it_article = ca_id a, it_title = ca_title a, it_url = ca_url a, it_feed_title = ca_feed_title a,
      it_matched_fields = mr_fields m, it_matched_terms = mr_terms m, it_position = pos,
      it_published_at = ca_published_at a, it_reason = mr_reason m,
      it_summary = compact_article_summary a\<rparr>"

fun matching_digest_items :: "digest_rule \<Rightarrow> digest_item list \<Rightarrow> candidate list \<Rightarrow> digest_item list" where
  "matching_digest_items rule items [] = items"
| "matching_digest_items rule items (a # as) =
     (let m = match_candidate rule a
      in if mr_matched m
         then matching_digest_items rule (items @ [digest_item_of (length items + 1) m a]) as
         else matching_digest_items rule items as)"

subsection \<open>One call of the worker\<close>

datatype processing_status = Processed digest_status | Skipped

record processing_result =
  pr_article_count :: nat
  pr_digest_id :: "string option"
  pr_status :: processing_status

datatype processing_error =
  Invalid_Scheduled_Time | Run_Not_Found_After_Claim | Failure string

record digest_call =
  dc_env :: "nat \<Rightarrow> digest_db \<Rightarrow> digest_db"
  dc_claim_env :: "digest_run list \<Rightarrow> digest_run list"
  dc_clock :: "nat \<Rightarrow> time"
  dc_events :: "digest_db heartbeat_event list"
  dc_owner :: string
  dc_new_run :: string
  dc_new_digest :: string
  dc_time_zones :: "string \<Rightarrow> time \<Rightarrow> int"
  dc_query_error :: "string option"
  dc_commit_error :: "string option"
  dc_constraint_error :: string
  dc_queue_error :: "string option"

definition skipped_result :: processing_result where
  "skipped_result = \<lparr>pr_article_count = 0, pr_digest_id = None, pr_status = Skipped\<rparr>"

definition skipped_run_result :: "digest_run \<Rightarrow> processing_result" where
  "skipped_run_result r = \<lparr>pr_article_count = 0, pr_digest_id = dr_digest_id r, pr_status = Skipped\<rparr>"

definition on_runs :: "(digest_run list \<Rightarrow> 'a \<times> digest_run list) \<Rightarrow> digest_db \<Rightarrow> 'a \<times> digest_db" where
  "on_runs f s = (let (x, t) = f (dd_runs s) in (x, s\<lparr>dd_runs := t\<rparr>))"

definition enqueue_email :: "digest_call \<Rightarrow> string \<Rightarrow> digest_db \<Rightarrow> (processing_error + unit) \<times> digest_db" where
  "enqueue_email c i s =
     (case dc_queue_error c of
        Some e \<Rightarrow> (Inl (Failure e), s)
      | None \<Rightarrow> (Inr (), s\<lparr>dd_email_queue := dd_email_queue s @ [i]\<rparr>))"

definition enqueue_pending_email ::
  "digest_call \<Rightarrow> digest_run \<Rightarrow> digest_db \<Rightarrow> (processing_error + unit) \<times> digest_db" where
  "enqueue_pending_email c r s =
     (if dr_digest_id r \<noteq> None \<and> dr_email_status r = Some Email_Pending
      then enqueue_email c (dr_id r) s else (Inr (), s))"

definition new_run :: "string \<Rightarrow> string \<Rightarrow> time \<Rightarrow> digest_run" where
  "new_run i rule_id scheduled_for =
     \<lparr>dr_id = i, dr_attempt = 0, dr_completed_at = None, dr_digest_id = None,
      dr_email_status = Some Email_Not_Requested, dr_error_message = None,
      dr_last_heartbeat_at = None, dr_lease_expires_at = None, dr_lease_owner = None,
      dr_processing_started_at = None, dr_rule = rule_id, dr_scheduled_for = scheduled_for,
      dr_status = Run_Pending, dr_watermark_from = None, dr_watermark_to = None\<rparr>"

definition upsert_run :: "string \<Rightarrow> string \<Rightarrow> time \<Rightarrow> digest_db \<Rightarrow> (digest_run \<times> digest_db) option" where
  "upsert_run i rule_id scheduled_for s =
     (case row_at (\<lambda>r. (dr_rule r, dr_scheduled_for r)) (rule_id, scheduled_for) (dd_runs s) of
        Some r \<Rightarrow> Some (r, s)
      | None \<Rightarrow>
          if i \<in> dr_id ` set (dd_runs s) then None
          else (let r = new_run i rule_id scheduled_for in Some (r, s\<lparr>dd_runs := dd_runs s @ [r]\<rparr>)))"

definition may_process :: "string \<Rightarrow> digest_db \<Rightarrow> bool" where
  "may_process u s \<longleftrightarrow>
     (let e = get_background_eligibility u (dd_accounts s) in be_active e \<and> be_ai_allowed e)"

definition new_digest ::
  "string \<Rightarrow> digest_rule \<Rightarrow> string \<Rightarrow> digest_item list \<Rightarrow> email_status \<Rightarrow> time \<Rightarrow> digest" where
  "new_digest i rule run_id items email now =
     \<lparr>dg_id = i, dg_article_count = length items, dg_completed_at = now, dg_email_status = email,
      dg_items = items, dg_rule = ru_id rule, dg_run = run_id, dg_started_at = now,
      dg_status = (if items = [] then Digest_Completed_No_Matches else Digest_Completed),
      dg_title = ru_name rule, dg_topic_prompt = ru_topic_prompt rule, dg_user = ru_user rule\<rparr>"

text \<open>The digest a run gives: the one that exists for it, or a new one.\<close>

definition upsert_digest ::
  "string \<Rightarrow> digest_rule \<Rightarrow> string \<Rightarrow> digest_item list \<Rightarrow> email_status \<Rightarrow> time \<Rightarrow> digest_db \<Rightarrow>
   (digest \<times> digest_db) option" where
  "upsert_digest i rule run_id items email now s =
     (case row_at dg_run run_id (dd_digests s) of
        Some d \<Rightarrow> Some (d, s)
      | None \<Rightarrow>
          if i \<in> dg_id ` set (dd_digests s) then None
          else
            let d = new_digest i rule run_id items email now
            in Some (d, s\<lparr>dd_digests := dd_digests s @ [d]\<rparr>))"

definition processed_rule :: "bool \<Rightarrow> time \<Rightarrow> time \<Rightarrow> digest_rule \<Rightarrow> digest_rule" where
  "processed_rule matched now next_run r =
     r\<lparr>ru_content_watermark_at := Some now,
       ru_last_matched_at := (if matched then Some now else ru_last_matched_at r),
       ru_last_run_at := Some now, ru_next_run_at := Some next_run\<rparr>"

text \<open>
  The transaction: renew, insert the digest, move the watermark of the rule, complete the run. When
  the rule is gone, or the drawn identifier is taken, the database throws (with the message
  \<open>dc_constraint_error\<close>) and everything is rolled back.
\<close>

definition commit_digest ::
  "digest_call \<Rightarrow> digest_rule \<Rightarrow> run_lease \<Rightarrow> string \<Rightarrow> digest_item list \<Rightarrow> email_status \<Rightarrow> time \<Rightarrow> time \<Rightarrow> time \<Rightarrow>
   digest_db \<Rightarrow> (processing_error + digest option) \<times> digest_db" where
  "commit_digest c rule l run_id items email from_t next_run now s =
     (case dc_commit_error c of
        Some e \<Rightarrow> (Inl (Failure e), s)
      | None \<Rightarrow>
        (let (renewed, s1) = on_runs (renew_smart_digest_run_lease smart_digest_processing_lease_ms (dc_clock c 4) l) s
         in if \<not> renewed then (Inr None, s1)
            else
              case upsert_digest (dc_new_digest c) rule run_id items email now s1 of
                None \<Rightarrow> (Inl (Failure (dc_constraint_error c)), s)
              | Some (d, s2) \<Rightarrow>
                  if row_at ru_id (ru_id rule) (dd_rules s2) = None
                  then (Inl (Failure (dc_constraint_error c)), s)
                  else
                    let s3 = s2\<lparr>dd_rules := fst (update_many (\<lambda>r. ru_id r = ru_id rule)
                                (processed_rule (items \<noteq> []) now next_run) (dd_rules s2))\<rparr>;
                        (completed, s4) = on_runs (finish_digest_run (dc_clock c 6)
                          (dc_clock c 5, Complete_Run now (dg_id d) email from_t now) l) s3
                    in (Inr (if completed then Some d else None), s4)))"

text \<open>The \<open>try\<close> block after the query: match, check the account again, commit, queue the e-mail.\<close>

definition digest_candidates ::
  "digest_call \<Rightarrow> digest_rule \<Rightarrow> run_lease \<Rightarrow> digest_run \<Rightarrow> time \<Rightarrow> time \<Rightarrow> time \<Rightarrow> candidate list \<Rightarrow> digest_db \<Rightarrow>
   (processing_error + processing_result) \<times> digest_db" where
  "digest_candidates c rule l run from_t next_run now candidates s =
     (let items = take 50 (matching_digest_items rule [] candidates);
          status = (if items = [] then Digest_Completed_No_Matches else Digest_Completed);
          email = (if ru_email_enabled rule \<and> items \<noteq> [] then Email_Pending else Email_Not_Requested)
      in if \<not> may_process (ru_user rule) s
         then (Inr (skipped_run_result run),
               snd (on_runs (fail_digest_run (dc_clock c 3)
                 ''Smart Digest owner is no longer eligible for background work.'' l) s))
         else
           case commit_digest c rule l (dr_id run) items email from_t next_run now (dc_env c 3 s) of
             (Inl e, s2) \<Rightarrow> (Inl e, s2)
           | (Inr None, s2) \<Rightarrow> (Inr (skipped_run_result run), s2)
           | (Inr (Some d), s2) \<Rightarrow>
               let res = \<lparr>pr_article_count = dg_article_count d, pr_digest_id = Some (dg_id d),
                          pr_status = Processed status\<rparr>
               in if email = Email_Pending
                  then (case enqueue_email c (dr_id run) s2 of
                          (Inl e, s3) \<Rightarrow> (Inl e, s3)
                        | (Inr _, s3) \<Rightarrow> (Inr res, s3))
                  else (Inr res, s2))"

text \<open>The whole block: the query runs under the heartbeat of the lease.\<close>

definition digest_work ::
  "digest_call \<Rightarrow> digest_rule \<Rightarrow> run_lease \<Rightarrow> digest_run \<Rightarrow> time \<Rightarrow> time \<Rightarrow> digest_db \<Rightarrow>
   (processing_error + processing_result) \<times> digest_db" where
  "digest_work c rule l run next_run now s =
     (let from_t = digest_watermark_from rule now;
          found = (case dc_query_error c of
                     Some e \<Rightarrow> None
                   | None \<Rightarrow> Some (find_candidates rule from_t now s));
          (work, s1) = run_with_heartbeat
            (\<lambda>t lease. on_runs (renew_smart_digest_run_lease smart_digest_processing_lease_ms t lease))
            l (dc_events c) found (dc_clock c 2) s
      in case work of
           None \<Rightarrow> (Inl (Failure (case dc_query_error c of None \<Rightarrow> [] | Some e \<Rightarrow> e)), s1)
         | Some (held, candidates) \<Rightarrow>
             if \<not> held then (Inr (skipped_run_result run), s1)
             else digest_candidates c rule l run from_t next_run now candidates s1)"

fun error_message :: "processing_error \<Rightarrow> string" where
  "error_message Invalid_Scheduled_Time = ''Smart Digest run has an invalid scheduled time.''"
| "error_message Run_Not_Found_After_Claim = ''Smart Digest run not found after it was claimed.''"
| "error_message (Failure e) = e"

definition then_skip ::
  "digest_run \<Rightarrow> (processing_error + unit) \<times> digest_db \<Rightarrow> (processing_error + processing_result) \<times> digest_db" where
  "then_skip r x = (case x of (Inl e, s) \<Rightarrow> (Inl e, s) | (Inr _, s) \<Rightarrow> (Inr (skipped_run_result r), s))"

text \<open>After the claim: recover a digest that is already there, or do the work.\<close>

definition process_claimed_run ::
  "digest_call \<Rightarrow> digest_rule \<Rightarrow> run_lease \<Rightarrow> time \<Rightarrow> digest_db \<Rightarrow>
   (processing_error + processing_result) \<times> digest_db" where
  "process_claimed_run c rule l now s =
     (case row_at dr_id (rl_id l) (dd_runs s) of
        None \<Rightarrow> (Inl Run_Not_Found_After_Claim, s)
      | Some run \<Rightarrow>
          if dr_digest_id run \<noteq> None
          then (let (recovered, s1) = on_runs (finish_digest_run (dc_clock c 1) (now, Recover_Run now) l) s
                in if \<not> recovered then (Inr (skipped_run_result run), s1)
                   else then_skip run (enqueue_pending_email c run s1))
          else
            let next_run = schedule_next_smart_digest_run (dc_time_zones c) now
                  (Some (of_int (ru_scheduled_hour rule))) (ru_time_zone rule)
            in case digest_work c rule l run next_run now s of
                 (Inl e, s1) \<Rightarrow> (Inl e, snd (on_runs (fail_digest_run (dc_clock c 7) (error_message e) l) s1))
               | (Inr r, s1) \<Rightarrow> (Inr r, s1))"

definition process_smart_digest_rule ::
  "digest_call \<Rightarrow> string \<Rightarrow> time option \<Rightarrow> time \<Rightarrow> digest_db \<Rightarrow>
   (processing_error + processing_result) \<times> digest_db" where
  "process_smart_digest_rule c rule_id scheduled_for now s =
     (case scheduled_for of
        None \<Rightarrow> (Inl Invalid_Scheduled_Time, s)
      | Some instant \<Rightarrow>
          (case row_at ru_id rule_id (dd_rules s) of
             None \<Rightarrow> (Inr skipped_result, s)
           | Some rule \<Rightarrow>
               if row_at eu_id (ru_user rule) (dd_accounts s) = None \<or> \<not> ru_is_enabled rule
               then (Inr skipped_result, s)
               else if \<not> may_process (ru_user rule) s then (Inr skipped_result, s)
               else
                 case upsert_run (dc_new_run c) rule_id instant (dc_env c 0 s) of
                   None \<Rightarrow> (Inl (Failure (dc_constraint_error c)), dc_env c 0 s)
                 | Some (run, s1) \<Rightarrow>
                     let (lease, s2) = on_runs (claim_smart_digest_run (dc_claim_env c)
                           smart_digest_processing_lease_ms (dc_clock c 0) (dc_owner c) (dr_id run))
                           (dc_env c 1 s1)
                     in case lease of
                          None \<Rightarrow> then_skip run (enqueue_pending_email c run s2)
                        | Some l \<Rightarrow> process_claimed_run c rule l now (dc_env c 2 s2)))"

subsection \<open>What a run of the worker keeps\<close>

definition runs_ok :: "digest_run list \<Rightarrow> bool" where
  "runs_ok t \<longleftrightarrow> runs_invar t \<and> distinct (map (\<lambda>r. (dr_rule r, dr_scheduled_for r)) t)"

definition digest_shape :: "digest \<Rightarrow> bool" where
  "digest_shape d \<longleftrightarrow>
     dg_article_count d = length (dg_items d) \<and> length (dg_items d) \<le> 50 \<and>
     map it_position (dg_items d) = [1 ..< length (dg_items d) + 1] \<and>
     (dg_status d = Digest_Completed_No_Matches \<longleftrightarrow> dg_items d = [])"

definition digest_articles :: "digest \<Rightarrow> string list" where
  "digest_articles d = map it_article (dg_items d)"

text \<open>All articles a rule has reported so far, over its digests in order.\<close>

definition reported :: "string \<Rightarrow> digest list \<Rightarrow> string list" where
  "reported rule_id ds = concat (map digest_articles (filter (\<lambda>d. dg_rule d = rule_id) ds))"

definition db_ok :: "digest_db \<Rightarrow> bool" where
  "db_ok s \<longleftrightarrow> runs_ok (dd_runs s) \<and> distinct (map dg_id (dd_digests s)) \<and>
     distinct (map dg_run (dd_digests s)) \<and> list_all digest_shape (dd_digests s) \<and>
     distinct (map ca_id (dd_articles s))"

lemma on_runs_simps [simp]:
  "dd_digests (snd (on_runs f s)) = dd_digests s" "dd_articles (snd (on_runs f s)) = dd_articles s"
  "dd_runs (snd (on_runs f s)) = snd (f (dd_runs s))" "fst (on_runs f s) = fst (f (dd_runs s))"
  "dd_rules (snd (on_runs f s)) = dd_rules s" "dd_accounts (snd (on_runs f s)) = dd_accounts s"
  by (simp_all add: on_runs_def case_prod_beta)

lemma runs_ok_update:
  assumes "runs_ok t" and "\<And>r. dr_id (f r) = dr_id r" and "\<And>r. dr_attempt r \<le> dr_attempt (f r)"
    and "\<And>r. dr_rule (f r) = dr_rule r" "\<And>r. dr_scheduled_for (f r) = dr_scheduled_for r"
  shows "runs_ok (fst (update_many p f t))"
  using assms runs_invar_update [of t f p] by (simp add: runs_ok_def)

lemma runs_ok_lease [simp]:
  "runs_ok t \<Longrightarrow> runs_ok (snd (renew_smart_digest_run_lease ms now l t))"
  "runs_ok t \<Longrightarrow> runs_ok (snd (finish_digest_run now x l t))"
  "runs_ok t \<Longrightarrow> runs_ok (snd (fail_digest_run now m l t))"
  by (simp_all add: renew_smart_digest_run_lease_def finish_digest_run_def fail_digest_run_def
      case_prod_beta runs_ok_update)

lemma runs_ok_claim:
  assumes "runs_ok t" and "\<And>t. runs_ok t \<Longrightarrow> runs_ok (env t)"
  shows "runs_ok (snd (claim_smart_digest_run env ms now w i t))"
  using assms runs_ok_update [OF assms(1), of "claimed_run now (add_milliseconds now ms) w" "run_claimable i now"]
  by (auto simp: claim_smart_digest_run_def Let_def case_prod_beta split: option.split)

lemma items_positions:
  "map it_position items = [1 ..< length items + 1] \<Longrightarrow>
     map it_position (matching_digest_items rule items as) =
       [1 ..< length (matching_digest_items rule items as) + 1]"
proof (induction as arbitrary: items)
  case (Cons a as)
  have step: "map it_position (items @ [digest_item_of (length items + 1) m a]) =
      [1 ..< length (items @ [digest_item_of (length items + 1) m a]) + 1]" for m
    using Cons.prems by (simp add: digest_item_of_def)
  show ?case
    using Cons.IH [OF step] Cons.IH [OF Cons.prems] by (simp only: matching_digest_items.simps Let_def split: if_split) blast
qed simp

lemma items_articles:
  "map it_article (matching_digest_items rule items as) =
     map it_article items @ map ca_id (filter (\<lambda>a. mr_matched (match_candidate rule a)) as)"
  by (induction as arbitrary: items) (auto simp: Let_def digest_item_of_def)

lemma take_positions: "map f xs = [1 ..< length xs + 1] \<Longrightarrow> map f (take n xs) = [1 ..< length (take n xs) + 1]"
  by (simp add: take_map [symmetric] take_upt min_def)

lemma find_candidates_set:
  "a \<in> set (find_candidates rule from_t to_t s) \<Longrightarrow> a \<in> set (dd_articles s) \<and>
     smart_digest_candidate_where rule (dd_subscriptions s) a \<and>
     smart_digest_window_where (ru_id rule) from_t to_t (dd_digests s) a"
  unfolding find_candidates_def by (auto dest: in_set_takeD)

lemma find_candidates_distinct:
  assumes "distinct (map ca_id (dd_articles s))"
  shows "distinct (map ca_id (find_candidates rule from_t to_t s))"
proof -
  have "distinct (map ca_id (sort_key newest_first (filter P (dd_articles s))))" for P
    using assms by (simp add: distinct_map distinct_filter inj_on_def)
  then show ?thesis
    unfolding find_candidates_def take_map [symmetric] by (rule distinct_take)
qed

lemma reported_iff:
  "x \<in> set (reported rule_id ds) \<longleftrightarrow> (\<exists>d \<in> set ds. dg_rule d = rule_id \<and> x \<in> set (digest_articles d))"
  by (auto simp: reported_def)

text \<open>The items for a run: at most 50, numbered from 1, none of them reported before.\<close>

lemma work_items:
  assumes "distinct (map ca_id (dd_articles s))"
    and "items = take 50 (matching_digest_items rule [] (find_candidates rule from_t to_t s))"
  shows "length items \<le> 50" and "map it_position items = [1 ..< length items + 1]"
    and "distinct (map it_article items)"
    and "set (map it_article items) \<inter> set (reported (ru_id rule) (dd_digests s)) = {}"
proof -
  let ?c = "find_candidates rule from_t to_t s"
  let ?m = "filter (\<lambda>a. mr_matched (match_candidate rule a)) ?c"
  show "length items \<le> 50" by (simp add: assms(2))
  show "map it_position items = [1 ..< length items + 1]"
    unfolding assms(2) by (rule take_positions, rule items_positions) simp
  have art: "map it_article items = take 50 (map ca_id ?m)"
    by (simp add: assms(2) take_map [symmetric] items_articles)
  have "distinct (map ca_id ?m)"
    using find_candidates_distinct [OF assms(1)] by (simp add: distinct_map_filter)
  then show "distinct (map it_article items)" unfolding art by (rule distinct_take)
  have "x \<notin> set (reported (ru_id rule) (dd_digests s))" if x: "x \<in> set (map it_article items)" for x
  proof -
    obtain a where a: "a \<in> set ?c" "x = ca_id a"
      using in_set_takeD [OF x [unfolded art]] by auto
    have "\<not> list_ex (\<lambda>d. dg_rule d = ru_id rule \<and> list_ex (\<lambda>i. it_article i = ca_id a) (dg_items d))
        (dd_digests s)"
      using find_candidates_set [OF a(1)] by (simp add: smart_digest_window_where_def)
    then show ?thesis
      by (auto simp: reported_iff digest_articles_def list_ex_iff a(2)) blast
  qed
  then show "set (map it_article items) \<inter> set (reported (ru_id rule) (dd_digests s)) = {}" by blast
qed

definition no_repeat :: "digest list \<Rightarrow> bool" where
  "no_repeat ds \<longleftrightarrow> (\<forall>r. distinct (reported r ds))"

definition items_ok :: "digest_item list \<Rightarrow> bool" where
  "items_ok items \<longleftrightarrow> length items \<le> 50 \<and> map it_position items = [1 ..< length items + 1] \<and>
     distinct (map it_article items)"

lemma new_digest_shape: "items_ok items \<Longrightarrow> digest_shape (new_digest i rule run_id items email now)"
  by (simp add: items_ok_def digest_shape_def new_digest_def)

lemma upsert_digest_Some:
  assumes "upsert_digest i rule run_id items email now s = Some (d, s')"
  shows "(s' = s \<and> row_at dg_run run_id (dd_digests s) = Some d) \<or>
    (d = new_digest i rule run_id items email now \<and> s' = s\<lparr>dd_digests := dd_digests s @ [d]\<rparr> \<and>
     i \<notin> dg_id ` set (dd_digests s) \<and> run_id \<notin> dg_run ` set (dd_digests s))"
  using assms
  by (auto simp: upsert_digest_def Let_def row_at_None_iff split: option.splits if_splits)

lemma db_ok_runs: "db_ok s \<Longrightarrow> runs_ok (snd (f (dd_runs s))) \<Longrightarrow> db_ok (snd (on_runs f s))"
  by (simp add: db_ok_def)

lemma db_ok_upsert_digest:
  assumes "db_ok s" "items_ok items" "upsert_digest i rule run_id items email now s = Some (d, s')"
  shows "db_ok s'"
  using upsert_digest_Some [OF assms(3)]
proof (elim disjE conjE)
  assume "d = new_digest i rule run_id items email now" "s' = s\<lparr>dd_digests := dd_digests s @ [d]\<rparr>"
    "i \<notin> dg_id ` set (dd_digests s)" "run_id \<notin> dg_run ` set (dd_digests s)"
  moreover have "dg_id (new_digest i rule run_id items email now) = i"
    "dg_run (new_digest i rule run_id items email now) = run_id" by (simp_all add: new_digest_def)
  ultimately show ?thesis
    using assms(1) new_digest_shape [OF assms(2)] by (simp add: db_ok_def)
qed (use assms(1) in simp)

lemma no_repeat_upsert_digest:
  assumes "no_repeat (dd_digests s)" "items_ok items"
    and "upsert_digest i rule run_id items email now s = Some (d, s')"
    and "set (map it_article items) \<inter> set (reported (ru_id rule) (dd_digests s)) = {}"
  shows "no_repeat (dd_digests s')"
  using upsert_digest_Some [OF assms(3)]
proof (elim disjE conjE)
  assume d: "d = new_digest i rule run_id items email now" "s' = s\<lparr>dd_digests := dd_digests s @ [d]\<rparr>"
  have a: "digest_articles d = map it_article items" "dg_rule d = ru_id rule"
    by (simp_all add: d(1) new_digest_def digest_articles_def)
  have "distinct (reported r (dd_digests s @ [d]))" for r
    using assms(1,2,4) by (auto simp: reported_def no_repeat_def items_ok_def a)
  then show ?thesis by (simp add: d(2) no_repeat_def)
qed (use assms(1) in simp)

definition keeps :: "(digest_db \<Rightarrow> bool) \<Rightarrow> (digest_db \<Rightarrow> digest_db) \<Rightarrow> bool" where
  "keeps I f \<longleftrightarrow> (\<forall>s. I s \<longrightarrow> I (f s))"

text \<open>Other workers keep the keys and shapes of the tables.\<close>

definition call_ok :: "digest_call \<Rightarrow> bool" where
  "call_ok c \<longleftrightarrow> (\<forall>n. keeps db_ok (dc_env c n)) \<and> (\<forall>f. Other f \<in> set (dc_events c) \<longrightarrow> keeps db_ok f) \<and>
     (\<forall>t. runs_ok t \<longrightarrow> runs_ok (dc_claim_env c t))"

lemma commit_digest_cases:
  assumes "commit_digest c rule l run_id items email from_t next_run now s = (res, s')"
  obtains "s' = s" "\<not> (\<exists>d. res = Inr (Some d))"
  | "s' = snd (on_runs (renew_smart_digest_run_lease smart_digest_processing_lease_ms (dc_clock c 4) l) s)"
    "res = Inr None"
  | d s2 where
      "upsert_digest (dc_new_digest c) rule run_id items email now
        (snd (on_runs (renew_smart_digest_run_lease smart_digest_processing_lease_ms (dc_clock c 4) l) s)) = Some (d, s2)"
      "s' = snd (on_runs (finish_digest_run (dc_clock c 6)
        (dc_clock c 5, Complete_Run now (dg_id d) email from_t now) l)
        (s2\<lparr>dd_rules := fst (update_many (\<lambda>r. ru_id r = ru_id rule)
          (processed_rule (items \<noteq> []) now next_run) (dd_rules s2))\<rparr>))"
      "res = Inr (if fst (finish_digest_run (dc_clock c 6)
        (dc_clock c 5, Complete_Run now (dg_id d) email from_t now) l (dd_runs s2)) then Some d else None)"
      "fst (renew_smart_digest_run_lease smart_digest_processing_lease_ms (dc_clock c 4) l (dd_runs s))"
  using assms
  by (auto simp: commit_digest_def Let_def case_prod_beta split: option.splits if_splits)

lemma db_ok_rules [simp]: "db_ok (s\<lparr>dd_rules := x\<rparr>) = db_ok s" "db_ok (s\<lparr>dd_email_queue := y\<rparr>) = db_ok s"
  by (simp_all add: db_ok_def)

lemma commit_db_ok:
  assumes "db_ok s" "items_ok items"
    and "commit_digest c rule l run_id items email from_t next_run now s = (res, s')"
  shows "db_ok s'"
proof -
  let ?s1 = "snd (on_runs (renew_smart_digest_run_lease smart_digest_processing_lease_ms (dc_clock c 4) l) s)"
  have s1: "db_ok ?s1" using assms(1) by (intro db_ok_runs) (simp_all add: db_ok_def)
  from assms(3) show ?thesis
  proof (cases rule: commit_digest_cases)
    case (3 d s2)
    have "db_ok s2" by (rule db_ok_upsert_digest [OF s1 assms(2) 3(1)])
    then show ?thesis unfolding 3(2) by (intro db_ok_runs) (simp_all add: db_ok_def)
  qed (use assms(1) s1 in simp_all)
qed

lemma commit_no_repeat:
  assumes "no_repeat (dd_digests s)" "items_ok items"
    and "set (map it_article items) \<inter> set (reported (ru_id rule) (dd_digests s)) = {}"
    and "commit_digest c rule l run_id items email from_t next_run now s = (res, s')"
  shows "no_repeat (dd_digests s')"
  using assms(4)
proof (cases rule: commit_digest_cases)
  case (3 d s2)
  have "no_repeat (dd_digests s2)"
    by (rule no_repeat_upsert_digest [OF _ assms(2) 3(1)]) (use assms(1,3) in simp_all)
  then show ?thesis by (simp add: 3(2))
qed (use assms(1) in simp_all)

subsection \<open>The invariant of the whole worker\<close>

lemma enqueue_keeps [simp]:
  "dd_digests (snd (enqueue_email c i s)) = dd_digests s" "db_ok (snd (enqueue_email c i s)) = db_ok s"
  "dd_digests (snd (enqueue_pending_email c r s)) = dd_digests s"
  "db_ok (snd (enqueue_pending_email c r s)) = db_ok s"
  by (simp_all add: enqueue_email_def enqueue_pending_email_def split: option.split)

lemma then_skip_state [simp]: "snd (then_skip r x) = snd x"
  by (simp add: then_skip_def split: sum.split prod.split)

text \<open>The state a piece of the worker ends in satisfies \<open>I\<close>.\<close>

lemma digest_candidates_inv:
  assumes "\<And>now m s. I s \<Longrightarrow> I (snd (on_runs (fail_digest_run now m l) s))"
    and "\<And>items email res s'. items = take 50 (matching_digest_items rule [] candidates) \<Longrightarrow>
      commit_digest c rule l (dr_id run) items email from_t next_run now (dc_env c 3 s) = (res, s') \<Longrightarrow> I s'"
    and "\<And>i s. I s \<Longrightarrow> I (snd (enqueue_email c i s))" and "I s"
  shows "I (snd (digest_candidates c rule l run from_t next_run now candidates s))"
proof -
  let ?items = "take 50 (matching_digest_items rule [] candidates)"
  let ?email = "if ru_email_enabled rule \<and> ?items \<noteq> [] then Email_Pending else Email_Not_Requested"
  obtain res s2 where cm: "commit_digest c rule l (dr_id run) ?items ?email from_t next_run now (dc_env c 3 s) = (res, s2)"
    by fastforce
  then have i2: "I s2" using assms(2) by blast
  obtain e s3 where en: "enqueue_email c (dr_id run) s2 = (e, s3)" by fastforce
  have "I s3" using assms(3) [OF i2, of "dr_id run"] en by simp
  then show ?thesis
    using assms(1) [OF assms(4)] i2 cm en
    by (simp add: digest_candidates_def Let_def del: take_eq_Nil2 take_eq_Nil
        split: sum.split option.split prod.split)
qed

lemma items_ok_work:
  assumes "distinct (map ca_id (dd_articles s))"
    and "items = take 50 (matching_digest_items rule [] (find_candidates rule from_t to_t s))"
  shows "items_ok items"
  using work_items(1,2,3) [OF assms] by (simp add: items_ok_def)

text \<open>
  The same for the piece under the heartbeat: \<open>J\<close> holds while the query runs, and \<open>I\<close> after the
  commit.
\<close>

lemma digest_work_inv:
  assumes weaker: "\<And>s. J s \<Longrightarrow> I s"
    and renew: "\<And>now s. J s \<Longrightarrow> J (snd (on_runs (renew_smart_digest_run_lease smart_digest_processing_lease_ms now l) s))"
    and others: "\<And>f s. Other f \<in> set (dc_events c) \<Longrightarrow> J s \<Longrightarrow> J (f s)"
    and fail: "\<And>now m s. I s \<Longrightarrow> I (snd (on_runs (fail_digest_run now m l) s))"
    and queue: "\<And>i s. I s \<Longrightarrow> I (snd (enqueue_email c i s))"
    and commit: "\<And>items email res s1 s'. J s1 \<Longrightarrow>
      items = take 50 (matching_digest_items rule [] (find_candidates rule (digest_watermark_from rule now) now s)) \<Longrightarrow>
      commit_digest c rule l (dr_id run) items email (digest_watermark_from rule now) next_run now
        (dc_env c 3 s1) = (res, s') \<Longrightarrow> I s'"
    and start: "J s"
  shows "I (snd (digest_work c rule l run next_run now s))"
proof -
  let ?from = "digest_watermark_from rule now"
  let ?found = "case dc_query_error c of Some e \<Rightarrow> None | None \<Rightarrow> Some (find_candidates rule ?from now s)"
  let ?renew = "\<lambda>t lease. on_runs (renew_smart_digest_run_lease smart_digest_processing_lease_ms t lease)"
  obtain work s1 where hb: "run_with_heartbeat ?renew l (dc_events c) ?found (dc_clock c 2) s = (work, s1)"
    by fastforce
  have j1: "J s1"
    using run_with_heartbeat_inv [of J ?renew l "dc_events c" s ?found "dc_clock c 2"] renew others start hb
    by simp
  then have i1: "I s1" by (rule weaker)
  show ?thesis
  proof (cases work)
    case None
    then show ?thesis using hb i1 by (simp add: digest_work_def Let_def)
  next
    case (Some p)
    obtain held cands where p: "p = (held, cands)" by fastforce
    have "?found = Some cands"
      using run_with_heartbeat_result(1) [of ?renew l "dc_events c" ?found "dc_clock c 2" s held cands] hb Some p
      by simp
    then have cands: "cands = find_candidates rule ?from now s" by (auto split: option.splits)
    have "I (snd (digest_candidates c rule l run ?from next_run now cands s1))"
      by (rule digest_candidates_inv [OF fail _ queue i1]) (use commit [OF j1] cands in auto)
    then show ?thesis using hb i1 Some p by (simp add: digest_work_def Let_def)
  qed
qed

lemma runs_end_inv:
  assumes "\<And>now x s. I s \<Longrightarrow> I (snd (on_runs (finish_digest_run now x l) s))"
    and "\<And>i s. I s \<Longrightarrow> I (snd (enqueue_email c i s))" and "I s"
    and work: "\<And>run next_run. row_at dr_id (rl_id l) (dd_runs s) = Some run \<Longrightarrow>
      I (snd (digest_work c rule l run next_run now s))"
  shows "I (snd (process_claimed_run c rule l now s))"
proof -
  have pend: "I (snd (enqueue_pending_email c r t))" if "I t" for r t
    using assms(2) that by (simp add: enqueue_pending_email_def)
  show ?thesis
  proof (cases "row_at dr_id (rl_id l) (dd_runs s)")
    case None
    then show ?thesis using assms(3) by (simp add: process_claimed_run_def)
  next
    case (Some run)
    show ?thesis
    proof (cases "dr_digest_id run = None")
      case True
      define next_run where "next_run = schedule_next_smart_digest_run (dc_time_zones c) now
        (Some (of_int (ru_scheduled_hour rule))) (ru_time_zone rule)"
      obtain res s1 where w: "digest_work c rule l run next_run now s = (res, s1)" by fastforce
      then have "I s1" using work [OF Some, of next_run] by simp
      then show ?thesis
        using assms(1) [of s1 "dc_clock c 7"] w Some True
        by (cases res) (simp_all add: process_claimed_run_def next_run_def [symmetric] Let_def fail_digest_run_def)
    next
      case False
      obtain rec s1 where f: "on_runs (finish_digest_run (dc_clock c 1) (now, Recover_Run now) l) s = (rec, s1)"
        by fastforce
      then have "I s1" using assms(1) [OF assms(3), of "dc_clock c 1" "(now, Recover_Run now)"] by simp
      then show ?thesis using f Some False pend by (simp add: process_claimed_run_def)
    qed
  qed
qed

lemma upsert_run_inv:
  assumes "db_ok s" "upsert_run i rule_id instant s = Some (r, s')"
  shows "db_ok s' \<and> dd_digests s' = dd_digests s"
proof -
  have "distinct (map dr_id (dd_runs s @ [new_run i rule_id instant]))"
    if "db_ok s" "i \<notin> dr_id ` set (dd_runs s)"
    using that by (simp add: db_ok_def runs_ok_def runs_invar_def new_run_def)
  then show ?thesis
    using assms
    by (auto simp: upsert_run_def db_ok_def runs_ok_def runs_invar_def Let_def row_at_None_iff new_run_def
        split: option.splits if_splits)
qed

lemma process_inv:
  assumes env: "\<And>n s. I s \<Longrightarrow> I (dc_env c n s)"
    and upsert: "\<And>s r s'. I s \<Longrightarrow> upsert_run (dc_new_run c) rule_id instant s = Some (r, s') \<Longrightarrow> I s'"
    and claim: "\<And>i s. I s \<Longrightarrow> I (snd (on_runs (claim_smart_digest_run (dc_claim_env c)
      smart_digest_processing_lease_ms (dc_clock c 0) (dc_owner c) i) s))"
    and queue: "\<And>i s. I s \<Longrightarrow> I (snd (enqueue_email c i s))"
    and rest: "\<And>rule l s. ru_id rule = rule_id \<Longrightarrow> I s \<Longrightarrow> I (snd (process_claimed_run c rule l now s))"
    and start: "I s"
  shows "I (snd (process_smart_digest_rule c rule_id (Some instant) now s))"
proof -
  have pend: "I (snd (enqueue_pending_email c r t))" if "I t" for r t
    using queue that by (simp add: enqueue_pending_email_def)
  let ?claim = "\<lambda>run s1. on_runs (claim_smart_digest_run (dc_claim_env c)
    smart_digest_processing_lease_ms (dc_clock c 0) (dc_owner c) (dr_id run)) (dc_env c 1 s1)"
  have after: "I (snd (case lease of None \<Rightarrow> then_skip run (enqueue_pending_email c run s2)
      | Some l \<Rightarrow> process_claimed_run c rule l now (dc_env c 2 s2)))"
    if up: "upsert_run (dc_new_run c) rule_id instant (dc_env c 0 s) = Some (run, s1)"
      and "ru_id rule = rule_id" "?claim run s1 = (lease, s2)"
    for run s1 rule lease s2
  proof -
    have "I (snd (?claim run s1))" using claim env upsert [OF env [OF start] up] by blast
    then show ?thesis using that rest [OF that(2) env] pend by (simp split: option.split)
  qed
  show ?thesis
  proof (cases "row_at ru_id rule_id (dd_rules s)")
    case None
    then show ?thesis using start by (simp add: process_smart_digest_rule_def)
  next
    case (Some rule)
    show ?thesis
    proof (cases "upsert_run (dc_new_run c) rule_id instant (dc_env c 0 s)")
      case None
      then show ?thesis using start env [OF start, of 0] Some by (simp add: process_smart_digest_rule_def)
    next
      case (Some p)
      obtain run s1 where p: "p = (run, s1)" by fastforce
      obtain lease s2 where cl: "?claim run s1 = (lease, s2)" by fastforce
      show ?thesis
        using after [OF Some [unfolded p] row_at_key [OF \<open>row_at ru_id rule_id (dd_rules s) = Some rule\<close>] cl]
          start Some \<open>row_at ru_id rule_id (dd_rules s) = Some rule\<close>
        by (simp add: process_smart_digest_rule_def p cl del: One_nat_def)
    qed
  qed
qed

subsection \<open>Properties\<close>

lemma db_ok_lease:
  "db_ok s \<Longrightarrow> db_ok (snd (on_runs (renew_smart_digest_run_lease ms now l) s))"
  "db_ok s \<Longrightarrow> db_ok (snd (on_runs (finish_digest_run now x l) s))"
  "db_ok s \<Longrightarrow> db_ok (snd (on_runs (fail_digest_run now m l) s))"
  by (simp_all add: db_ok_def)

lemma db_ok_claim:
  "db_ok s \<Longrightarrow> (\<And>t. runs_ok t \<Longrightarrow> runs_ok (env t)) \<Longrightarrow>
     db_ok (snd (on_runs (claim_smart_digest_run env ms now w i) s))"
  by (simp add: db_ok_def runs_ok_claim)

lemma process_db_ok:
  assumes "call_ok c" "db_ok s"
  shows "db_ok (snd (process_smart_digest_rule c rule_id scheduled now s))"
proof (cases scheduled)
  case None
  then show ?thesis using assms(2) by (simp add: process_smart_digest_rule_def)
next
  case (Some instant)
  have env: "db_ok (dc_env c n t)" if "db_ok t" for n t
    using assms(1) that by (simp add: call_ok_def keeps_def)
  have others: "db_ok (f t)" if "Other f \<in> set (dc_events c)" "db_ok t" for f t
    using assms(1) that by (auto simp: call_ok_def keeps_def)
  have claim: "db_ok (snd (on_runs (claim_smart_digest_run (dc_claim_env c) ms t w i) u))" if "db_ok u" for ms t w i u
    using that assms(1) by (intro db_ok_claim) (simp_all add: call_ok_def)
  have work: "db_ok (snd (digest_work c rule l run next_run now u))" if u: "db_ok u" for rule l run next_run u
  proof (rule digest_work_inv [where J = db_ok])
    fix items email res s1 s'
    assume "db_ok s1" "items = take 50 (matching_digest_items rule []
        (find_candidates rule (digest_watermark_from rule now) now u))"
      "commit_digest c rule l (dr_id run) items email (digest_watermark_from rule now) next_run now
        (dc_env c 3 s1) = (res, s')"
    moreover have "distinct (map ca_id (dd_articles u))" using u by (simp add: db_ok_def)
    ultimately show "db_ok s'" using commit_db_ok [OF env items_ok_work] by blast
  qed (use u others db_ok_lease in \<open>simp_all (no_asm_simp)\<close>)
  show ?thesis
    unfolding Some
  proof (rule process_inv)
    show "db_ok (snd (process_claimed_run c rule l now u))" if "db_ok u" for rule l u
      by (rule runs_end_inv) (use that work [OF that] db_ok_lease(2) in simp_all)
  qed (use assms(2) env claim upsert_run_inv in \<open>simp_all (no_asm_simp)\<close>)
qed

text \<open>C13: Whatever other workers do between the queries of a run (as long as they keep the keys of the
  tables), there is one run for each rule and scheduled instant, at most one digest for each run, and
  every digest has at most 50 items, numbered from 1 and counted by its article count.\<close>

theorem digest_one_per_run:
  assumes "call_ok c" "db_ok s"
  shows "db_ok (snd (process_smart_digest_rule c rule_id scheduled now s))"
  by (rule process_db_ok [OF assms])

text \<open>
  The others keep the tables and repeat no article, and between the article query and the commit of
  this run they make no digest of the same rule.
\<close>

definition once_ok :: "digest_db \<Rightarrow> bool" where
  "once_ok s \<longleftrightarrow> db_ok s \<and> no_repeat (dd_digests s)"

definition same_reported :: "string \<Rightarrow> (digest_db \<Rightarrow> digest_db) \<Rightarrow> bool" where
  "same_reported rule_id f \<longleftrightarrow>
     (\<forall>s. reported rule_id (dd_digests (f s)) = reported rule_id (dd_digests s))"

definition call_alone :: "digest_call \<Rightarrow> string \<Rightarrow> bool" where
  "call_alone c rule_id \<longleftrightarrow>
     (\<forall>n. keeps once_ok (dc_env c n)) \<and> (\<forall>t. runs_ok t \<longrightarrow> runs_ok (dc_claim_env c t)) \<and>
     (\<forall>f. Other f \<in> set (dc_events c) \<longrightarrow> keeps once_ok f \<and> same_reported rule_id f) \<and>
     same_reported rule_id (dc_env c 3)"

lemma once_ok_lease:
  "once_ok s \<Longrightarrow> once_ok (snd (on_runs (renew_smart_digest_run_lease ms now l) s))"
  "once_ok s \<Longrightarrow> once_ok (snd (on_runs (finish_digest_run now x l) s))"
  "once_ok s \<Longrightarrow> once_ok (snd (on_runs (fail_digest_run now m l) s))"
  "once_ok (snd (enqueue_email c i s)) = once_ok s"
  by (simp_all add: once_ok_def db_ok_lease)

text \<open>C8: No article is reported twice to a rule: when no other worker makes a digest of the same rule
  between the article query and the commit of this run, the articles of all digests of every rule
  stay pairwise distinct.\<close>

theorem digest_no_repeat:
  assumes "call_alone c rule_id" "once_ok s"
  shows "once_ok (snd (process_smart_digest_rule c rule_id scheduled now s))"
proof (cases scheduled)
  case None
  then show ?thesis using assms(2) by (simp add: process_smart_digest_rule_def)
next
  case (Some instant)
  have env: "once_ok (dc_env c n t)" if "once_ok t" for n t
    using assms(1) that by (simp add: call_alone_def keeps_def)
  have others: "once_ok (f t)" "reported rule_id (dd_digests (f t)) = reported rule_id (dd_digests t)"
    if "Other f \<in> set (dc_events c)" "once_ok t" for f t
    using assms(1) that by (auto simp: call_alone_def keeps_def same_reported_def)
  have env3: "reported rule_id (dd_digests (dc_env c 3 t)) = reported rule_id (dd_digests t)" for t
    using assms(1) by (auto simp: call_alone_def same_reported_def)
  have claim: "once_ok (snd (on_runs (claim_smart_digest_run (dc_claim_env c) ms t w i) u))"
    if "once_ok u" for ms t w i u
    using that assms(1) by (simp add: once_ok_def call_alone_def db_ok_claim)
  have work: "once_ok (snd (digest_work c rule l run next_run now u))"
    if u: "once_ok u" "ru_id rule = rule_id" for rule l run next_run u
  proof (rule digest_work_inv [where J = "\<lambda>t. once_ok t \<and>
      reported rule_id (dd_digests t) = reported rule_id (dd_digests u)"])
    fix items email res s1 s'
    assume s1: "once_ok s1 \<and> reported rule_id (dd_digests s1) = reported rule_id (dd_digests u)"
      and it: "items = take 50 (matching_digest_items rule []
        (find_candidates rule (digest_watermark_from rule now) now u))"
      and cm: "commit_digest c rule l (dr_id run) items email (digest_watermark_from rule now) next_run now
        (dc_env c 3 s1) = (res, s')"
    have a: "distinct (map ca_id (dd_articles u))" using u by (simp add: once_ok_def db_ok_def)
    have ok: "once_ok (dc_env c 3 s1)" using env s1 by simp
    have disjoint: "set (map it_article items) \<inter> set (reported (ru_id rule) (dd_digests (dc_env c 3 s1))) = {}"
      using work_items(4) [OF a it] env3 [of s1] s1 u(2) by simp
    have "db_ok s'" "no_repeat (dd_digests s')"
      using commit_db_ok [OF _ items_ok_work [OF a it] cm]
        commit_no_repeat [OF _ items_ok_work [OF a it] disjoint cm] ok
      by (simp_all add: once_ok_def)
    then show "once_ok s'" by (simp add: once_ok_def)
  qed (use u(1) others once_ok_lease in \<open>simp_all (no_asm_simp)\<close>)
  show ?thesis
    unfolding Some
  proof (rule process_inv)
    show "once_ok (snd (process_claimed_run c rule l now u))" if "ru_id rule = rule_id" "once_ok u" for rule l u
      by (rule runs_end_inv) (use that work [OF that(2,1)] once_ok_lease(2,4) in simp_all)
    show "once_ok s'" if "once_ok t" "upsert_run (dc_new_run c) rule_id instant t = Some (r, s')" for t r s'
      using upsert_run_inv [OF _ that(2)] that(1) by (simp add: once_ok_def)
  qed (use assms(2) env claim once_ok_lease(4) in \<open>simp_all (no_asm_simp)\<close>)
qed

text \<open>What a committed digest leaves in the tables.\<close>

definition digest_committed :: "string \<Rightarrow> time \<Rightarrow> digest \<Rightarrow> digest_db \<Rightarrow> bool" where
  "digest_committed rule_id now d s \<longleftrightarrow>
     d \<in> set (dd_digests s) \<and>
     (\<exists>r \<in> set (dd_runs s). dr_id r = dg_run d \<and> dr_status r = Run_Completed \<and>
        dr_digest_id r = Some (dg_id d) \<and> dr_lease_owner r = None \<and>
        dr_completed_at r = Some now \<and> dr_watermark_to r = Some now) \<and>
     (\<exists>r. row_at ru_id rule_id (dd_rules s) = Some r \<and> ru_content_watermark_at r = Some now \<and>
        ru_last_run_at r = Some now \<and> ru_next_run_at r \<noteq> None)"

lemma finish_completes:
  assumes "fst (finish_digest_run t (hb, Complete_Run now i email from_t to_t) l rs)"
  shows "\<exists>r \<in> set (snd (finish_digest_run t (hb, Complete_Run now i email from_t to_t) l rs)).
    dr_id r = rl_id l \<and> dr_status r = Run_Completed \<and> dr_digest_id r = Some i \<and>
    dr_lease_owner r = None \<and> dr_completed_at r = Some now \<and> dr_watermark_to r = Some to_t"
proof -
  have "filter (run_lease_where l t) rs \<noteq> []"
    using assms by (simp add: finish_digest_run_def case_prod_beta update_many_def)
  then obtain r where r: "r \<in> set rs" "run_lease_where l t r" by (auto simp: filter_empty_conv)
  let ?e = "ended_run hb (Complete_Run now i email from_t to_t) r"
  have "?e \<in> set (snd (finish_digest_run t (hb, Complete_Run now i email from_t to_t) l rs))"
    using r by (auto simp: finish_digest_run_def case_prod_beta update_many_set)
  then show ?thesis using run_where_id [OF r(2)] by (intro bexI [of _ ?e]) simp_all
qed

lemma commit_committed:
  assumes "commit_digest c rule l (rl_id l) items email from_t next_run now s = (Inr (Some d), s')"
  shows "digest_committed (ru_id rule) now d s'"
  using assms
proof (cases rule: commit_digest_cases)
  case (3 d' s2)
  then have d: "d' = d" and done_ok: "fst (finish_digest_run (dc_clock c 6)
      (dc_clock c 5, Complete_Run now (dg_id d) email from_t now) l (dd_runs s2))"
    by (auto split: if_splits)
  have mem: "d \<in> set (dd_digests s2) \<and> dg_run d = rl_id l"
    using upsert_digest_Some [OF 3(1)] unfolding d by (auto simp: new_digest_def dest: row_at_SomeD)
  have "row_at ru_id (ru_id rule) (dd_rules s2) \<noteq> None"
    using assms 3(1,4) unfolding d by (auto simp: commit_digest_def Let_def case_prod_beta split: option.splits if_splits)
  then obtain r where "row_at ru_id (ru_id rule) (dd_rules s2) = Some r" by blast
  then have "row_at ru_id (ru_id rule) (dd_rules s') = Some (processed_rule (items \<noteq> []) now next_run r)"
    using row_at_key by (fastforce simp: 3(2) row_at_update_many processed_rule_def)
  moreover have "ru_content_watermark_at (processed_rule m now next_run r) = Some now"
    "ru_last_run_at (processed_rule m now next_run r) = Some now"
    "ru_next_run_at (processed_rule m now next_run r) = Some next_run" for m
    by (simp_all add: processed_rule_def)
  ultimately show ?thesis
    using mem finish_completes [OF done_ok] unfolding digest_committed_def 3(2) d
    by (auto simp del: ended_run.simps)
qed auto

lemma candidates_committed:
  assumes "digest_candidates c rule l run from_t next_run now cands s = (Inr r, s')"
    and "pr_status r = Processed st" "dr_id run = rl_id l"
  shows "\<exists>d. digest_committed (ru_id rule) now d s' \<and> pr_digest_id r = Some (dg_id d) \<and>
    pr_article_count r = dg_article_count d"
proof -
  let ?items = "take 50 (matching_digest_items rule [] cands)"
  let ?email = "if ru_email_enabled rule \<and> ?items \<noteq> [] then Email_Pending else Email_Not_Requested"
  obtain res s2 where cm: "commit_digest c rule l (dr_id run) ?items ?email from_t next_run now (dc_env c 3 s) = (res, s2)"
    by fastforce
  obtain e s3 where en: "enqueue_email c (dr_id run) s2 = (e, s3)" by fastforce
  have s3: "dd_digests s3 = dd_digests s2" "dd_runs s3 = dd_runs s2" "dd_rules s3 = dd_rules s2"
    using en by (auto simp: enqueue_email_def split: option.splits)
  obtain d where d: "res = Inr (Some d)" "s' = s2 \<or> s' = s3" "pr_digest_id r = Some (dg_id d)"
    "pr_article_count r = dg_article_count d"
    using assms(1,2) cm en
    by (auto simp: digest_candidates_def Let_def skipped_run_result_def
        split: if_splits sum.splits option.splits)
  have s2: "digest_committed (ru_id rule) now d s2"
    using commit_committed cm unfolding d(1) assms(3) by blast
  moreover have "digest_committed (ru_id rule) now d s3"
    using s2 by (simp add: digest_committed_def s3)
  ultimately show ?thesis using d by blast
qed


text \<open>Calling the worker again for a run that is already completed changes nothing but the e-mail
  queue: the run keeps its digest, the rule its watermark, and an e-mail that is still pending is
  queued once more.\<close>

theorem digest_completed_idempotent:
  assumes "\<And>n t. dc_env c n t = t" and "distinct (map dr_id (dd_runs s))"
    and "row_at (\<lambda>r. (dr_rule r, dr_scheduled_for r)) (rule_id, instant) (dd_runs s) = Some run"
    and "dr_status run = Run_Completed"
    and "process_smart_digest_rule c rule_id (Some instant) now s = (res, s')"
  shows "s' = s\<lparr>dd_email_queue := dd_email_queue s'\<rparr> \<and>
    (\<forall>r. res = Inr r \<longrightarrow> pr_status r = Skipped) \<and>
    dd_email_queue s' \<in> {dd_email_queue s, dd_email_queue s @ [dr_id run]}"
proof -
  have "run \<in> set (dd_runs s)" using row_at_SomeD [OF assms(3)] by simp
  then have row: "row_at dr_id (dr_id run) (dd_runs s) = Some run" by (rule row_at_distinct [OF assms(2)])
  have none: "snd (update_many (run_claimable (dr_id run) t) f (dd_runs s)) = 0" for t f
    using update_many_count [OF assms(2), of "run_claimable (dr_id run) t" "dr_id run" f] row assms(4)
    by (simp add: run_claimable_def)
  have claim: "on_runs (claim_smart_digest_run e ms t w (dr_id run)) s = (None, s)" for e ms t w
    using none update_many_none [OF none]
    by (simp add: on_runs_def claim_smart_digest_run_def Let_def case_prod_beta)
  show ?thesis
    using assms(5) assms(1,3) claim
    by (auto simp: process_smart_digest_rule_def upsert_run_def then_skip_def skipped_result_def
        skipped_run_result_def enqueue_pending_email_def enqueue_email_def
        split: option.splits if_splits)
qed

subsection \<open>A concrete run\<close>

definition example_rule :: digest_rule where
  "example_rule = \<lparr>ru_id = ''rule'', ru_user = ''u'', ru_content_watermark_at = None,
     ru_email_enabled = True, ru_exclude_terms = [], ru_folders = [], ru_include_terms = [''ai''],
     ru_is_enabled = True, ru_last_matched_at = None, ru_last_run_at = None, ru_name = ''N'',
     ru_next_run_at = None, ru_scheduled_hour = 8, ru_source_scope = All_Feeds,
     ru_subscriptions = [], ru_time_zone = ''UTC'', ru_topic_prompt = ''P''\<rparr>"

definition example_db :: digest_db where
  "example_db = \<lparr>
     dd_accounts = [\<lparr>eu_id = ''u'', eu_disabled_at = None, eu_email_verified = None, eu_plan = Plan_Free\<rparr>],
     dd_rules = [example_rule],
     dd_subscriptions = [\<lparr>su_id = ''s'', su_user = ''u'', su_feed = ''f'', su_folder = None, su_is_paused = False\<rparr>],
     dd_articles = [\<lparr>ca_id = ''a'', ca_content = None, ca_created_at = 999999990000, ca_feed = ''f'',
       ca_feed_title = ''F'', ca_published_at = None, ca_summary = None, ca_title = ''AI now'', ca_url = ''x''\<rparr>],
     dd_runs = [], dd_digests = [], dd_email_queue = []\<rparr>"

definition example_call :: digest_call where
  "example_call = \<lparr>dc_env = \<lambda>_ s. s, dc_claim_env = \<lambda>t. t, dc_clock = \<lambda>_. 1000000000000,
     dc_events = [], dc_owner = ''w'', dc_new_run = ''run'', dc_new_digest = ''d'',
     dc_time_zones = \<lambda>_ _. 0, dc_query_error = None, dc_commit_error = None,
     dc_constraint_error = ''constraint'', dc_queue_error = None\<rparr>"

lemma example_db_ok: "once_ok example_db"
  by (simp add: once_ok_def db_ok_def example_db_def runs_ok_def runs_invar_def no_repeat_def reported_def)

lemma example_call_ok: "call_ok example_call" "call_alone example_call r"
  by (simp_all add: call_ok_def call_alone_def example_call_def keeps_def same_reported_def)

lemma example_processed:
  "let (res, s) = process_smart_digest_rule example_call ''rule'' (Some 0) 1000000000000 example_db
   in res = Inr \<lparr>pr_article_count = 1, pr_digest_id = Some ''d'', pr_status = Processed Digest_Completed\<rparr> \<and>
      map digest_articles (dd_digests s) = [[''a'']] \<and> dd_email_queue s = [''run''] \<and>
      map dr_status (dd_runs s) = [Run_Completed]"
  by code_simp

theorem digest_one_per_run_witness:
  "db_ok (snd (process_smart_digest_rule example_call ''rule'' (Some 0) 1000000000000 example_db))"
  by (rule digest_one_per_run) (use example_db_ok example_call_ok in \<open>simp_all add: once_ok_def\<close>)

theorem digest_no_repeat_witness:
  "no_repeat (dd_digests (snd (process_smart_digest_rule example_call ''rule'' (Some 0) 1000000000000 example_db)))"
  using digest_no_repeat [OF example_call_ok(2) example_db_ok] by (simp add: once_ok_def)


definition example_completed :: digest_run where
  "example_completed = (new_run ''run'' ''rule'' 0)\<lparr>dr_status := Run_Completed,
     dr_digest_id := Some ''d'', dr_email_status := Some Email_Pending\<rparr>"

theorem digest_completed_idempotent_witness:
  "let s = example_db\<lparr>dd_runs := [example_completed]\<rparr>;
       s' = snd (process_smart_digest_rule example_call ''rule'' (Some 0) 1000000000000 s)
   in s' = s\<lparr>dd_email_queue := dd_email_queue s'\<rparr>"
proof -
  let ?s = "example_db\<lparr>dd_runs := [example_completed]\<rparr>"
  obtain res s' where p: "process_smart_digest_rule example_call ''rule'' (Some 0) 1000000000000 ?s = (res, s')"
    by fastforce
  have "s' = ?s\<lparr>dd_email_queue := dd_email_queue s'\<rparr>"
    using digest_completed_idempotent [of example_call ?s "''rule''" 0 example_completed, OF _ _ _ _ p]
    by (simp add: example_call_def example_completed_def new_run_def)
  then show ?thesis using p by (simp add: Let_def)
qed

text \<open>
  Without that condition an article can be reported twice: while a run of the rule is between its
  article query and its commit, another worker processes the run of the next instant completely.
\<close>

definition racing_call :: digest_call where
  "racing_call = example_call\<lparr>dc_owner := ''w2'', dc_new_run := ''run2'', dc_new_digest := ''d2'',
     dc_env := \<lambda>n s. if n = 3 then snd (process_smart_digest_rule example_call ''rule'' (Some 0) 1000000000000 s) else s\<rparr>"


end
