(* ===== verification/Js_Number.thy ===== *)
theory Js_Number
  imports Js_String
begin

text \<open>
  Numbers as the sources read and print them: \<open>toString(b)\<close>, \<open>Number.parseInt(s, 10)\<close> and the value
  of a run of digits.
\<close>

definition digit_char :: "nat \<Rightarrow> char" where
  "digit_char n = (if n < 10 then char_of (48 + n) else char_of (87 + n))"

definition digit_value :: "char \<Rightarrow> nat" where
  "digit_value c = (if code c \<le> 57 then code c - 48 else if code c \<le> 70 then code c - 55 else code c - 87)"

function to_base :: "nat \<Rightarrow> nat \<Rightarrow> string" where
  "to_base b n = (if n < b \<or> b < 2 then [digit_char n] else to_base b (n div b) @ [digit_char (n mod b)])"
  by pat_completeness auto
termination by (relation "measure snd") (auto simp: div_less_dividend)

declare to_base.simps [simp del]

definition of_base :: "nat \<Rightarrow> string \<Rightarrow> nat" where
  "of_base b s = foldl (\<lambda>a c. a * b + digit_value c) 0 s"

definition parse_int10 :: "string \<Rightarrow> int option" where
  "parse_int10 s =
     (let t = trim_start s;
          neg = (case t of [] \<Rightarrow> False | c # _ \<Rightarrow> c = CHR ''-'');
          u = (case t of [] \<Rightarrow> [] | c # r \<Rightarrow> if c = CHR ''-'' \<or> c = CHR ''+'' then r else t);
          ds = takeWhile is_digit u
      in if ds = [] then None else Some (if neg then - int (of_base 10 ds) else int (of_base 10 ds)))"

lemma digit_value_char: "n < 16 \<Longrightarrow> digit_value (digit_char n) = n"
  by (simp add: digit_value_def digit_char_def)

lemma of_base_snoc [simp]: "of_base b (s @ [c]) = of_base b s * b + digit_value c"
  by (simp add: of_base_def)

lemma of_to_base: "2 \<le> b \<Longrightarrow> b \<le> 16 \<Longrightarrow> of_base b (to_base b n) = n"
proof (induction b n rule: to_base.induct)
  case (1 b n)
  show ?case
  proof (cases "n < b")
    case True
    then show ?thesis using 1 by (simp add: to_base.simps [of b n] of_base_def digit_value_char)
  next
    case False
    then have "of_base b (to_base b (n div b)) = n div b" using 1 by simp
    moreover have "n mod b < b" using 1(2) by simp
    then have "n mod b < 16" using 1(3) by simp
    ultimately show ?thesis
      using False 1(2) by (simp add: to_base.simps [of b n] digit_value_char)
  qed
qed

lemma to_base_nonempty [simp]: "to_base b n \<noteq> []"
  by (simp add: to_base.simps [of b n])

lemma digit_char_digit: "n < 10 \<Longrightarrow> is_digit (digit_char n)"
  by (simp add: digit_char_def is_digit_def)

lemma digit_char_hex: "n < 16 \<Longrightarrow> is_hex_digit (digit_char n)"
  by (simp add: digit_char_def is_hex_digit_def is_digit_def)

lemma to_base_digits:
  assumes "\<And>n. n < b \<Longrightarrow> P (digit_char n)" "2 \<le> b"
  shows "c \<in> set (to_base b n) \<Longrightarrow> P c"
proof (induction n rule: less_induct)
  case (less n)
  show ?case
  proof (cases "n < b")
    case True
    then show ?thesis using less assms by (simp add: to_base.simps [of b n])
  next
    case False
    then have "n div b < n" using assms(2) by simp
    have c: "c \<in> set (to_base b (n div b)) \<or> c = digit_char (n mod b)"
      using less.prems False assms(2) by (auto simp: to_base.simps [of b n])
    have "n mod b < b" using assms(2) by simp
    then show ?thesis using c less.IH [OF \<open>n div b < n\<close>] assms(1) by blast
  qed
qed

lemma to_dec_digits: "c \<in> set (to_base 10 n) \<Longrightarrow> is_digit c"
  using to_base_digits [of 10 is_digit c n] digit_char_digit by simp

lemma to_hex_digits: "c \<in> set (to_base 16 n) \<Longrightarrow> is_hex_digit c"
  using to_base_digits [of 16 is_hex_digit c n] digit_char_hex by simp

lemma length_to_base: "2 \<le> b \<Longrightarrow> n < b ^ k \<Longrightarrow> 0 < k \<Longrightarrow> length (to_base b n) \<le> k"
proof (induction k arbitrary: n)
  case (Suc k)
  show ?case
  proof (cases "n < b")
    case True
    then show ?thesis by (simp add: to_base.simps [of b n])
  next
    case False
    then have "0 < k" using Suc.prems by (cases k) auto
    have "n div b < b ^ k" using Suc.prems by (simp add: div_less_iff_less_mult mult.commute)
    then have "length (to_base b (n div b)) \<le> k" using Suc.IH Suc.prems(1) \<open>0 < k\<close> by simp
    then show ?thesis using False by (simp add: to_base.simps [of b n])
  qed
qed simp

lemma digit_not_space: "is_digit c \<Longrightarrow> \<not> js_space c"
  by (auto simp: is_digit_def js_space_def)

lemma parse_int10_dec [simp]: "parse_int10 (to_base 10 n) = Some (int n)"
proof -
  obtain c r where cr: "to_base 10 n = c # r" by (cases "to_base 10 n") auto
  have d: "\<forall>x \<in> set (c # r). is_digit x" using to_dec_digits [of _ n] unfolding cr by blast
  then have "trim_start (c # r) = c # r" by (simp add: trim_start_def digit_not_space)
  moreover have "c \<noteq> CHR ''-''" "c \<noteq> CHR ''+''" using d by (auto simp: is_digit_def code_def)
  moreover have "takeWhile is_digit (c # r) = c # r" unfolding takeWhile_eq_all_conv by (rule d)
  moreover have "of_base 10 (c # r) = n" using of_to_base [of 10 n] unfolding cr by simp
  ultimately show ?thesis unfolding cr by (simp only: parse_int10_def Let_def list.case) simp
qed

end
