(* ===== verification/Ip_Address.thy ===== *)
theory Ip_Address
  imports Js_Number "HOL-Library.Word"
begin

text \<open>
  The address checks of \<open>src/lib/url-safety.ts\<close>: \<open>normalizeHostname\<close>, the IPv6 parser, and the
  decision which IPv4 and IPv6 addresses are private. \<open>net.isIP\<close> is the function of the Node
  runtime: 4 or 6 for a literal, 0 for anything else. The decisions are compared with lists of
  address blocks in prefix notation.
\<close>

unbundle bit_operations_syntax

subsection \<open>Literals\<close>

fun split_double :: "string \<Rightarrow> string list" where
  "split_double [] = [[]]"
| "split_double [c] = [[c]]"
| "split_double (c # d # s) =
     (if c = CHR '':'' \<and> d = CHR '':'' then [] # split_double s
      else case split_double (d # s) of [] \<Rightarrow> [[c]] | w # ws \<Rightarrow> (c # w) # ws)"

definition decimal_octet :: "string \<Rightarrow> bool" where
  "decimal_octet p \<longleftrightarrow> p \<noteq> [] \<and> length p \<le> 3 \<and> list_all is_digit p \<and>
     (length p = 1 \<or> hd p \<noteq> CHR ''0'') \<and> of_base 10 p \<le> 255"

definition ipv4_literal :: "string \<Rightarrow> bool" where
  "ipv4_literal s \<longleftrightarrow> length (js_split CHR ''.'' s) = 4 \<and> list_all decimal_octet (js_split CHR ''.'' s)"

definition hextet :: "string \<Rightarrow> bool" where
  "hextet p \<longleftrightarrow> 1 \<le> length p \<and> length p \<le> 4 \<and> list_all is_hex_digit p"

definition colon_parts :: "string \<Rightarrow> string list" where
  "colon_parts s = (if s = [] then [] else js_split CHR '':'' s)"

text \<open>The number of 16-bit groups of the parts, of which the last may be an IPv4 literal.\<close>

definition group_count :: "string list \<Rightarrow> nat option" where
  "group_count ps =
     (if list_all hextet ps then Some (length ps)
      else if ps \<noteq> [] \<and> list_all hextet (butlast ps) \<and> ipv4_literal (last ps) then Some (length ps + 1)
      else None)"

definition ipv6_zone :: "string \<Rightarrow> bool" where
  "ipv6_zone z \<longleftrightarrow> z = [] \<or> (length z \<noteq> 1 \<and>
     list_all (\<lambda>c. is_alnum c \<or> c = CHR ''-'' \<or> c = CHR ''.'' \<or> c = CHR '':'') (tl z))"

definition ipv6_literal :: "string \<Rightarrow> bool" where
  "ipv6_literal s \<longleftrightarrow>
     ipv6_zone (dropWhile (\<lambda>c. c \<noteq> CHR ''%'') s) \<and>
     (case split_double (takeWhile (\<lambda>c. c \<noteq> CHR ''%'') s) of
        [a] \<Rightarrow> group_count (colon_parts a) = Some 8
      | [a, b] \<Rightarrow> list_all hextet (colon_parts a) \<and>
          (case group_count (colon_parts b) of
             None \<Rightarrow> False | Some n \<Rightarrow> length (colon_parts a) + n \<le> 7)
      | _ \<Rightarrow> False)"

definition net_is_ip :: "string \<Rightarrow> nat" where
  "net_is_ip s = (if ipv4_literal s then 4 else if ipv6_literal s then 6 else 0)"

subsection \<open>The checks of the source\<close>

definition strip_brackets :: "string \<Rightarrow> string" where
  "strip_brackets s =
     (let t = (case s of [] \<Rightarrow> [] | c # r \<Rightarrow> if c = CHR ''['' then r else s)
      in if t \<noteq> [] \<and> last t = CHR '']'' then butlast t else t)"

definition normalize_hostname :: "string \<Rightarrow> string" where
  "normalize_hostname h =
     (let t = strip_brackets (js_lower h)
      in if t \<noteq> [] \<and> last t = CHR ''.'' then butlast t else t)"

definition private_octets :: "int \<Rightarrow> int \<Rightarrow> int \<Rightarrow> bool" where
  "private_octets first second third \<longleftrightarrow>
     first = 0 \<or> first = 10 \<or> first = 127 \<or> first \<ge> 224 \<or>
     (first = 100 \<and> second \<ge> 64 \<and> second \<le> 127) \<or>
     (first = 169 \<and> second = 254) \<or>
     (first = 172 \<and> second \<ge> 16 \<and> second \<le> 31) \<or>
     (first = 192 \<and> second = 0 \<and> third = 0) \<or>
     (first = 192 \<and> second = 0 \<and> third = 2) \<or>
     (first = 192 \<and> second = 88 \<and> third = 99) \<or>
     (first = 192 \<and> second = 168) \<or>
     (first = 198 \<and> (second = 18 \<or> second = 19)) \<or>
     (first = 198 \<and> second = 51 \<and> third = 100) \<or>
     (first = 203 \<and> second = 0 \<and> third = 113)"

definition is_private_ipv4_address :: "string \<Rightarrow> bool" where
  "is_private_ipv4_address a =
     (case map parse_int10 (js_split CHR ''.'' a) of
        [Some first, Some second, Some third, Some fourth] \<Rightarrow>
          list_ex (\<lambda>p. p < 0 \<or> 255 < p) [first, second, third, fourth] \<or> private_octets first second third
      | _ \<Rightarrow> True)"

definition octets_hex :: "nat \<Rightarrow> nat \<Rightarrow> string" where
  "octets_hex a b = to_base 16 (push_bit 8 a OR b)"

text \<open>An IPv4 tail becomes two groups; any other dotted part makes the address malformed.\<close>

definition expand_dotted :: "string list \<Rightarrow> string list option" where
  "expand_dotted parts =
     (if list_ex (js_includes ''.'') parts
      then (if list_ex (js_includes ''.'') (butlast parts) \<or> net_is_ip (last parts) = 0 then None
            else case map (of_base 10) (js_split CHR ''.'' (last parts)) of
                   [a, b, c, d] \<Rightarrow> Some (butlast parts @ [octets_hex a b, octets_hex c d])
                 | _ \<Rightarrow> None)
      else Some parts)"

definition checked_groups :: "string list \<Rightarrow> nat list option" where
  "checked_groups full =
     (if length full \<noteq> 8 \<or> list_ex (\<lambda>p. \<not> hextet p) full then None
      else Some (map (of_base 16) full))"

definition parse_ipv6_hextets :: "string \<Rightarrow> nat list option" where
  "parse_ipv6_hextets address =
     (let sections = split_double (normalize_hostname address)
      in if 2 < length sections then None
         else
           let left = colon_parts (hd sections);
               right = (if length sections = 2 then colon_parts (last sections) else [])
           in case expand_dotted (left @ right) of
                None \<Rightarrow> None
              | Some parts \<Rightarrow>
                  if length sections = 1 \<and> length parts \<noteq> 8 then None
                  else if length sections \<noteq> 1 \<and> 8 < length parts + 1 then None
                  else
                    let full = (if length sections = 1 then parts
                          else take (length left) parts @ replicate (8 - length parts) ''0'' @
                            drop (length left) parts)
                    in checked_groups full)"

definition listed_groups :: "nat \<Rightarrow> nat \<Rightarrow> nat \<Rightarrow> nat \<Rightarrow> nat \<Rightarrow> nat \<Rightarrow> bool" where
  "listed_groups first second third fourth fifth sixth \<longleftrightarrow>
     first AND 0xfe00 = 0xfc00 \<or> first AND 0xffc0 = 0xfe80 \<or> first AND 0xff00 = 0xff00 \<or>
     (first = 0x2001 \<and> second = 0x0db8) \<or>
     (first = 0x2001 \<and> second AND 0xfff0 = 0x0010) \<or>
     (first = 0x2001 \<and> second AND 0xfff0 = 0x0020) \<or>
     first = 0x2002 \<or>
     (first = 0x64 \<and> second = 0xff9b \<and> third = 0 \<and> fourth = 0 \<and> fifth = 0 \<and> sixth = 0) \<or>
     (first = 0x64 \<and> second = 0xff9b \<and> third = 1) \<or>
     (first = 0x100 \<and> second = 0 \<and> third = 0 \<and> fourth = 0)"

definition private_groups :: "nat list \<Rightarrow> bool" where
  "private_groups g =
     (let first = g ! 0; second = g ! 1; third = g ! 2; fourth = g ! 3; fifth = g ! 4;
          sixth = g ! 5; seventh = g ! 6; eighth = g ! 7
      in if list_all (\<lambda>x. x = 0) g \<or> (list_all (\<lambda>x. x = 0) (take 7 g) \<and> eighth = 1) \<or>
            list_all (\<lambda>x. x = 0) (take 6 g)
         then True
         else if list_all (\<lambda>x. x = 0) (take 5 g) \<and> sixth = 0xffff
         then is_private_ipv4_address (js_join CHR ''.'' (map (to_base 10)
           [drop_bit 8 seventh, seventh AND 0xff, drop_bit 8 eighth, eighth AND 0xff]))
         else listed_groups first second third fourth fifth sixth)"

definition is_private_ipv6_address :: "string \<Rightarrow> bool" where
  "is_private_ipv6_address a =
     (case parse_ipv6_hextets a of None \<Rightarrow> True | Some g \<Rightarrow> private_groups g)"

definition is_private_ip_address :: "string \<Rightarrow> bool" where
  "is_private_ip_address a =
     (let n = normalize_hostname a; v = net_is_ip n
      in if v = 4 then is_private_ipv4_address n
         else if v = 6 then is_private_ipv6_address n else True)"

subsection \<open>Address blocks\<close>

text \<open>\<open>in_prefix bits v (p, len)\<close>: the first \<open>len\<close> of the \<open>bits\<close> bits of \<open>v\<close> are those of \<open>p\<close>.\<close>

definition in_prefix :: "nat \<Rightarrow> nat \<Rightarrow> nat \<times> nat \<Rightarrow> bool" where
  "in_prefix bits v p \<longleftrightarrow> v div 2 ^ (bits - snd p) = fst p div 2 ^ (bits - snd p)"

definition octet_value :: "nat \<Rightarrow> nat \<Rightarrow> nat \<Rightarrow> nat \<Rightarrow> nat" where
  "octet_value a b c d = ((a * 256 + b) * 256 + c) * 256 + d"

text \<open>The special-purpose IPv4 blocks (RFC 6890 and its updates), with multicast and 240/4.\<close>

definition special_ipv4 :: "(nat \<times> nat) list" where
  "special_ipv4 =
     [(octet_value 0 0 0 0, 8), (octet_value 10 0 0 0, 8), (octet_value 127 0 0 0, 8),
      (octet_value 224 0 0 0, 4), (octet_value 240 0 0 0, 4), (octet_value 100 64 0 0, 10),
      (octet_value 169 254 0 0, 16), (octet_value 172 16 0 0, 12), (octet_value 192 0 0 0, 24),
      (octet_value 192 0 2 0, 24), (octet_value 192 88 99 0, 24), (octet_value 192 168 0 0, 16),
      (octet_value 198 18 0 0, 15), (octet_value 198 51 100 0, 24), (octet_value 203 0 113 0, 24)]"

definition group_value :: "nat list \<Rightarrow> nat" where
  "group_value g = foldl (\<lambda>a x. a * 65536 + x) 0 g"

definition special_ipv6 :: "(nat \<times> nat) list" where
  "special_ipv6 =
     [(0, 96),
      (group_value [0xfc00, 0, 0, 0, 0, 0, 0, 0], 7),
      (group_value [0xfe80, 0, 0, 0, 0, 0, 0, 0], 10),
      (group_value [0xff00, 0, 0, 0, 0, 0, 0, 0], 8),
      (group_value [0x2001, 0xdb8, 0, 0, 0, 0, 0, 0], 32),
      (group_value [0x2001, 0x10, 0, 0, 0, 0, 0, 0], 28),
      (group_value [0x2001, 0x20, 0, 0, 0, 0, 0, 0], 28),
      (group_value [0x2002, 0, 0, 0, 0, 0, 0, 0], 16),
      (group_value [0x64, 0xff9b, 0, 0, 0, 0, 0, 0], 96),
      (group_value [0x64, 0xff9b, 1, 0, 0, 0, 0, 0], 48),
      (group_value [0x100, 0, 0, 0, 0, 0, 0, 0], 64)]"

definition special_address4 :: "nat \<Rightarrow> bool" where
  "special_address4 v \<longleftrightarrow> list_ex (in_prefix 32 v) special_ipv4"

text \<open>The IPv4-mapped block \<open>::ffff:0:0/96\<close> is decided by the IPv4 address in it.\<close>

definition special_address6 :: "nat \<Rightarrow> bool" where
  "special_address6 v \<longleftrightarrow> list_ex (in_prefix 128 v) special_ipv6 \<or>
     (in_prefix 128 v (group_value [0, 0, 0, 0, 0, 0xffff, 0, 0], 96) \<and> special_address4 (v mod 2 ^ 32))"

subsection \<open>IPv4\<close>

lemma octet_value_div:
  assumes "b < 256" "c < 256" "d < 256"
  shows "octet_value a b c d div 2 ^ 8 = (a * 256 + b) * 256 + c"
    "octet_value a b c d div 2 ^ 16 = a * 256 + b"
    "octet_value a b c d div 2 ^ 24 = a"
    "octet_value a b c d div 2 ^ 22 = a * 4 + b div 64"
    "octet_value a b c d div 2 ^ 20 = a * 16 + b div 16"
    "octet_value a b c d div 2 ^ 17 = a * 128 + b div 2"
    "octet_value a b c d div 2 ^ 28 = a div 16"
proof -
  have step: "(x * 256 + y) div 256 = x" if "y < 256" for x y :: nat using that by simp
  show d8: "octet_value a b c d div 2 ^ 8 = (a * 256 + b) * 256 + c"
    using step [OF assms(3)] by (simp only: octet_value_def) simp
  have split: "octet_value a b c d div 2 ^ (k + 8) = ((a * 256 + b) * 256 + c) div 2 ^ k" for k
    using d8 by (simp only: power_add mult.commute [of "2 ^ k"] div_mult2_eq)
  have split2: "octet_value a b c d div 2 ^ (k + 16) = (a * 256 + b) div 2 ^ k" for k
  proof -
    have "octet_value a b c d div 2 ^ (k + 16) = ((a * 256 + b) * 256 + c) div 2 ^ (k + 8)"
      using split [of "k + 8"] by (simp add: add.assoc)
    also have "\<dots> = (a * 256 + b) div 2 ^ k"
      using step [OF assms(2), of "a * 256 + b"]
      by (simp only: power_add mult.commute [of "2 ^ k"] div_mult2_eq) simp
    finally show ?thesis .
  qed
  show "octet_value a b c d div 2 ^ 16 = a * 256 + b" using split2 [of 0] by simp
  show d24: "octet_value a b c d div 2 ^ 24 = a" using split2 [of 8] step [OF assms(1), of a] by simp
  have "(a * 256 + b) div 64 = a * 4 + b div 64" "(a * 256 + b) div 16 = a * 16 + b div 16"
    "(a * 256 + b) div 2 = a * 128 + b div 2" by simp_all
  then show "octet_value a b c d div 2 ^ 22 = a * 4 + b div 64"
    "octet_value a b c d div 2 ^ 20 = a * 16 + b div 16"
    "octet_value a b c d div 2 ^ 17 = a * 128 + b div 2"
    using split2 [of 6] split2 [of 4] split2 [of 1] by simp_all
  have "octet_value a b c d div 2 ^ (24 + 4) = octet_value a b c d div 2 ^ 24 div 2 ^ 4"
    by (simp only: power_add div_mult2_eq)
  then show "octet_value a b c d div 2 ^ 28 = a div 16" using d24 by simp
qed

lemma base_inj:
  fixes x y p q n :: nat
  assumes "y < n" "q < n"
  shows "x * n + y = p * n + q \<longleftrightarrow> x = p \<and> y = q"
proof
  assume e: "x * n + y = p * n + q"
  have "(x * n + y) div n = x" "(p * n + q) div n = p" "(x * n + y) mod n = y" "(p * n + q) mod n = q"
    using assms by simp_all
  then show "x = p \<and> y = q" using e by metis
qed simp

lemma in_block:
  assumes "b < 256" "c < 256" "d < 256" "q < 256" "r < 256"
  shows "in_prefix 32 (octet_value a b c d) (octet_value p q r 0, 8) \<longleftrightarrow> a = p"
    "in_prefix 32 (octet_value a b c d) (octet_value p q r 0, 10) \<longleftrightarrow> a = p \<and> b div 64 = q div 64"
    "in_prefix 32 (octet_value a b c d) (octet_value p q r 0, 16) \<longleftrightarrow> a = p \<and> b = q"
    "in_prefix 32 (octet_value a b c d) (octet_value p q r 0, 12) \<longleftrightarrow> a = p \<and> b div 16 = q div 16"
    "in_prefix 32 (octet_value a b c d) (octet_value p q r 0, 24) \<longleftrightarrow> a = p \<and> b = q \<and> c = r"
    "in_prefix 32 (octet_value a b c d) (octet_value p q r 0, 15) \<longleftrightarrow> a = p \<and> b div 2 = q div 2"
    "in_prefix 32 (octet_value a b c d) (octet_value p q r 0, 4) \<longleftrightarrow> a div 16 = p div 16"
proof -
  have len: "(32 :: nat) - 8 = 24" "(32 :: nat) - 10 = 22" "(32 :: nat) - 16 = 16" "(32 :: nat) - 12 = 20"
    "(32 :: nat) - 24 = 8" "(32 :: nat) - 15 = 17" "(32 :: nat) - 4 = 28" by simp_all
  have z: "(0 :: nat) < 256" by simp
  note dp = octet_value_div [OF assms(1-3), of a] octet_value_div [OF assms(4,5) z, of p]
  show "in_prefix 32 (octet_value a b c d) (octet_value p q r 0, 8) \<longleftrightarrow> a = p"
    "in_prefix 32 (octet_value a b c d) (octet_value p q r 0, 4) \<longleftrightarrow> a div 16 = p div 16"
    by (simp_all only: in_prefix_def fst_conv snd_conv len dp)
  show "in_prefix 32 (octet_value a b c d) (octet_value p q r 0, 10) \<longleftrightarrow> a = p \<and> b div 64 = q div 64"
    using base_inj [of "b div 64" 4 "q div 64" a p] assms by (simp only: in_prefix_def fst_conv snd_conv len dp; auto)
  show "in_prefix 32 (octet_value a b c d) (octet_value p q r 0, 16) \<longleftrightarrow> a = p \<and> b = q"
    using base_inj [of b 256 q a p] assms by (simp only: in_prefix_def fst_conv snd_conv len dp)
  show "in_prefix 32 (octet_value a b c d) (octet_value p q r 0, 12) \<longleftrightarrow> a = p \<and> b div 16 = q div 16"
    using base_inj [of "b div 16" 16 "q div 16" a p] assms by (simp only: in_prefix_def fst_conv snd_conv len dp; auto)
  show "in_prefix 32 (octet_value a b c d) (octet_value p q r 0, 24) \<longleftrightarrow> a = p \<and> b = q \<and> c = r"
    unfolding in_prefix_def fst_conv snd_conv len dp base_inj [OF assms(2,5)] base_inj [OF assms(1,4)]
    by blast
  show "in_prefix 32 (octet_value a b c d) (octet_value p q r 0, 15) \<longleftrightarrow> a = p \<and> b div 2 = q div 2"
    using base_inj [of "b div 2" 128 "q div 2" a p] assms by (simp only: in_prefix_def fst_conv snd_conv len dp; auto)
qed

lemma quot_range: "0 < n \<Longrightarrow> b div n = k \<longleftrightarrow> k * n \<le> b \<and> b < (k + 1) * (n :: nat)"
  using less_eq_div_iff_mult_less_eq [of n k b] div_less_iff_less_mult [of n b "k + 1"] by auto

lemma block_ranges:
  fixes a b :: nat
  assumes "a < 256"
  shows "b div 64 = 1 \<longleftrightarrow> 64 \<le> b \<and> b \<le> 127" "b div 16 = 1 \<longleftrightarrow> 16 \<le> b \<and> b \<le> 31"
    "b div 2 = 9 \<longleftrightarrow> b = 18 \<or> b = 19" "a div 16 = 14 \<or> a div 16 = 15 \<or> R \<longleftrightarrow> 224 \<le> a \<or> R"
proof -
  have pos: "(0 :: nat) < 64" "(0 :: nat) < 16" "(0 :: nat) < 2" by simp_all
  show "b div 64 = 1 \<longleftrightarrow> 64 \<le> b \<and> b \<le> 127" unfolding quot_range [OF pos(1)] by auto
  show "b div 16 = 1 \<longleftrightarrow> 16 \<le> b \<and> b \<le> 31" unfolding quot_range [OF pos(2)] by auto
  show "b div 2 = 9 \<longleftrightarrow> b = 18 \<or> b = 19" unfolding quot_range [OF pos(3)] by auto
  show "a div 16 = 14 \<or> a div 16 = 15 \<or> R \<longleftrightarrow> 224 \<le> a \<or> R"
    unfolding quot_range [OF pos(2)] using assms by auto
qed

lemma int_tests:
  "int x = 0 \<longleftrightarrow> x = 0" "int x = numeral n \<longleftrightarrow> x = numeral n" "numeral n \<le> int x \<longleftrightarrow> numeral n \<le> x"
  "int x \<le> numeral n \<longleftrightarrow> x \<le> numeral n"
  using of_nat_eq_0_iff [of x, where ?'a = int] of_nat_eq_iff [of x "numeral n", where ?'a = int]
    of_nat_le_iff [of "numeral n" x, where ?'a = int] of_nat_le_iff [of x "numeral n", where ?'a = int]
  unfolding of_nat_numeral .

lemma private_octets_iff:
  assumes "a < 256" "b < 256" "c < 256" "d < 256"
  shows "private_octets (int a) (int b) (int c) \<longleftrightarrow> special_address4 (octet_value a b c d)"
proof -
  note bl = in_block [OF assms(2-4)]
  have "special_address4 (octet_value a b c d) \<longleftrightarrow>
      a = 0 \<or> a = 10 \<or> a = 127 \<or> a div 16 = 14 \<or> a div 16 = 15 \<or> (a = 100 \<and> b div 64 = 1) \<or>
      (a = 169 \<and> b = 254) \<or> (a = 172 \<and> b div 16 = 1) \<or> (a = 192 \<and> b = 0 \<and> c = 0) \<or>
      (a = 192 \<and> b = 0 \<and> c = 2) \<or> (a = 192 \<and> b = 88 \<and> c = 99) \<or> (a = 192 \<and> b = 168) \<or>
      (a = 198 \<and> b div 2 = 9) \<or> (a = 198 \<and> b = 51 \<and> c = 100) \<or> (a = 203 \<and> b = 0 \<and> c = 113)"
    by (simp add: special_address4_def special_ipv4_def bl)
  moreover have "private_octets (int a) (int b) (int c) \<longleftrightarrow>
      a = 0 \<or> a = 10 \<or> a = 127 \<or> 224 \<le> a \<or> (a = 100 \<and> 64 \<le> b \<and> b \<le> 127) \<or> (a = 169 \<and> b = 254) \<or>
      (a = 172 \<and> 16 \<le> b \<and> b \<le> 31) \<or> (a = 192 \<and> b = 0 \<and> c = 0) \<or> (a = 192 \<and> b = 0 \<and> c = 2) \<or>
      (a = 192 \<and> b = 88 \<and> c = 99) \<or> (a = 192 \<and> b = 168) \<or> (a = 198 \<and> (b = 18 \<or> b = 19)) \<or>
      (a = 198 \<and> b = 51 \<and> c = 100) \<or> (a = 203 \<and> b = 0 \<and> c = 113)"
    unfolding private_octets_def int_tests by (rule refl)
  ultimately show ?thesis
    unfolding block_ranges [OF assms(1)] by (simp only:)
qed

text \<open>The value of an IPv4 literal, read off its text.\<close>

definition ipv4_value :: "string \<Rightarrow> nat" where
  "ipv4_value s = foldl (\<lambda>v p. v * 256 + of_base 10 p) 0 (js_split CHR ''.'' s)"

lemma parse_int10_digits:
  assumes "p \<noteq> []" "list_all is_digit p"
  shows "parse_int10 p = Some (int (of_base 10 p))"
proof -
  obtain c r where cr: "p = c # r" using assms(1) by (cases p) auto
  have d: "\<forall>x \<in> set (c # r). is_digit x" using assms(2) unfolding cr by (simp add: list_all_iff)
  have "trim_start (c # r) = c # r" using d by (simp add: trim_start_def digit_not_space)
  moreover have "c \<noteq> CHR ''-''" "c \<noteq> CHR ''+''" using d by (auto simp: is_digit_def code_def)
  moreover have "takeWhile is_digit (c # r) = c # r" unfolding takeWhile_eq_all_conv by (rule d)
  ultimately show ?thesis unfolding cr by (simp only: parse_int10_def Let_def list.case) simp
qed

lemma set_js_join: "set (js_join d ws) \<subseteq> insert d (\<Union>w \<in> set ws. set w)"
  by (induction d ws rule: js_join.induct) auto

lemma ipv4_parts:
  assumes "ipv4_literal s"
  obtains p q r t where "js_split CHR ''.'' s = [p, q, r, t]" "list_all decimal_octet [p, q, r, t]"
proof -
  from assms obtain p q r t where "js_split CHR ''.'' s = [p, q, r, t]"
    by (auto simp: ipv4_literal_def numeral_eq_Suc length_Suc_conv)
  then show thesis using that assms by (simp add: ipv4_literal_def)
qed

definition address_char :: "char \<Rightarrow> bool" where
  "address_char c \<longleftrightarrow> is_hex_digit c \<or> c = CHR '':'' \<or> c = CHR ''.''"

text \<open>A text of such characters in lower case that does not end in a dot is its own host name.\<close>

lemma normalize_hostname_id:
  assumes "list_all address_char s" "js_lower s = s" "s = [] \<or> last s \<noteq> CHR ''.''"
  shows "normalize_hostname s = s"
proof -
  have "c \<noteq> CHR ''['' \<and> c \<noteq> CHR '']''" if "c \<in> set s" for c
    using assms(1) that
    by (auto simp: list_all_iff address_char_def is_hex_digit_def is_digit_def code_def)
  then have "strip_brackets s = s" by (cases s) (auto simp: strip_brackets_def Let_def)
  then show ?thesis using assms(2,3) by (auto simp: normalize_hostname_def Let_def)
qed

lemma last_js_join: "ws \<noteq> [] \<Longrightarrow> last ws \<noteq> [] \<Longrightarrow> last (js_join d ws) = last (last ws) \<and> js_join d ws \<noteq> []"
  by (induction d ws rule: js_join.induct) auto

lemma ipv4_chars:
  assumes "ipv4_literal s"
  shows "list_all (\<lambda>c. is_digit c \<or> c = CHR ''.'') s \<and> s \<noteq> [] \<and> last s \<noteq> CHR ''.''"
proof -
  obtain p q r t where ps: "js_split CHR ''.'' s = [p, q, r, t]" "list_all decimal_octet [p, q, r, t]"
    by (rule ipv4_parts [OF assms])
  then have s: "s = js_join CHR ''.'' [p, q, r, t]" using js_join_split [of "CHR ''.''" s] by simp
  have "is_digit c \<or> c = CHR ''.''" if "c \<in> set s" for c
    using that set_js_join [of "CHR ''.''" "[p, q, r, t]"] ps(2) unfolding s
    by (auto simp: decimal_octet_def list_all_iff)
  moreover have "t \<noteq> []" "is_digit (last t)" using ps(2) by (auto simp: decimal_octet_def list_all_iff)
  moreover have "\<not> is_digit CHR ''.''" by (simp add: is_digit_def code_def)
  ultimately have "last t \<noteq> CHR ''.''" by metis
  then have "s \<noteq> [] \<and> last s \<noteq> CHR ''.''"
    using last_js_join [of "[p, q, r, t]" "CHR ''.''"] \<open>t \<noteq> []\<close> by (simp only: s) simp
  then show ?thesis
    using \<open>\<And>c. c \<in> set s \<Longrightarrow> is_digit c \<or> c = CHR ''.''\<close> by (simp add: list_all_iff)
qed

lemma ipv4_normalized:
  assumes "ipv4_literal s"
  shows "normalize_hostname s = s"
proof (rule normalize_hostname_id)
  note chars = ipv4_chars [OF assms]
  then show "list_all address_char s"
    by (auto simp: list_all_iff address_char_def is_hex_digit_def)
  have "lower_char c = c" if "c \<in> set s" for c
    using chars that by (auto simp: list_all_iff lower_char_def is_digit_def is_upper_az_def code_def)
  then show "js_lower s = s" by (simp add: js_lower_def map_idI)
  show "s = [] \<or> last s \<noteq> CHR ''.''" using chars by blast
qed

lemma ipv4_octets:
  assumes "ipv4_literal s"
  obtains a b c d where "a < 256" "b < 256" "c < 256" "d < 256"
    "map parse_int10 (js_split CHR ''.'' s) = map (\<lambda>x. Some (int x)) [a, b, c, d]"
    "ipv4_value s = octet_value a b c d"
proof -
  obtain p q r t where ps: "js_split CHR ''.'' s = [p, q, r, t]" "list_all decimal_octet [p, q, r, t]"
    by (rule ipv4_parts [OF assms])
  show thesis
    by (rule that [of "of_base 10 p" "of_base 10 q" "of_base 10 r" "of_base 10 t"])
      (use ps in \<open>auto simp: decimal_octet_def parse_int10_digits ipv4_value_def octet_value_def\<close>)
qed

lemma private_ipv4_iff:
  assumes "a < 256" "b < 256" "c < 256" "d < 256"
    and "map parse_int10 (js_split CHR ''.'' s) = map (\<lambda>x. Some (int x)) [a, b, c, d]"
  shows "is_private_ipv4_address s \<longleftrightarrow> special_address4 (octet_value a b c d)"
  using private_octets_iff [OF assms(1-4)] assms by (simp add: is_private_ipv4_address_def)

text \<open>C30: For every IPv4 literal the check of the octets decides exactly membership of the address in
  the special-purpose blocks (RFC 6890 and its updates, multicast and 240/4).\<close>

theorem ipv4_private_exact:
  assumes "ipv4_literal s"
  shows "is_private_ip_address s \<longleftrightarrow> special_address4 (ipv4_value s)"
proof -
  obtain a b c d where "a < 256" "b < 256" "c < 256" "d < 256"
    "map parse_int10 (js_split CHR ''.'' s) = map (\<lambda>x. Some (int x)) [a, b, c, d]"
    "ipv4_value s = octet_value a b c d"
    by (rule ipv4_octets [OF assms])
  then show ?thesis
    using private_ipv4_iff assms by (simp add: is_private_ip_address_def ipv4_normalized net_is_ip_def)
qed

lemma example_literals: "ipv4_literal ''169.254.169.254'' \<and> ipv4_literal ''8.8.8.8'' \<and> \<not> ipv4_literal ''1.2.3''"
  by code_simp

theorem ipv4_private_exact_witness:
  "is_private_ip_address ''169.254.169.254'' \<longleftrightarrow> special_address4 (ipv4_value ''169.254.169.254'')"
  by (rule ipv4_private_exact) (simp add: example_literals)

subsection \<open>IPv6\<close>

lemma and_high:
  fixes n :: nat
  assumes "n < 2 ^ 16" "k \<le> 16"
  shows "n AND push_bit k (mask (16 - k)) = push_bit k (drop_bit k n)"
proof (rule bit_eqI)
  fix i
  have "bit n i \<Longrightarrow> i < 16" using assms(1) by (metis bit_take_bit_iff take_bit_nat_eq_self)
  then show "bit (n AND push_bit k (mask (16 - k))) i = bit (push_bit k (drop_bit k n)) i"
    using assms(2) by (auto simp: bit_simps)
qed

lemma mask_tests:
  fixes n :: nat
  assumes "n < 65536"
  shows "n AND 0xfe00 = 0xfc00 \<longleftrightarrow> n div 2 ^ 9 = 0xfc00 div 2 ^ 9"
    "n AND 0xffc0 = 0xfe80 \<longleftrightarrow> n div 2 ^ 6 = 0xfe80 div 2 ^ 6"
    "n AND 0xff00 = 0xff00 \<longleftrightarrow> n div 2 ^ 8 = 0xff00 div 2 ^ 8"
    "n AND 0xfff0 = 0x0010 \<longleftrightarrow> n div 2 ^ 4 = 0x0010 div 2 ^ 4"
    "n AND 0xfff0 = 0x0020 \<longleftrightarrow> n div 2 ^ 4 = 0x0020 div 2 ^ 4"
  using and_high [of n 9] and_high [of n 6] and_high [of n 8] and_high [of n 4] assms
  by (simp_all add: mask_eq_exp_minus_1 push_bit_eq_mult drop_bit_eq_div)

definition groups_ok :: "nat list \<Rightarrow> bool" where
  "groups_ok g \<longleftrightarrow> list_all (\<lambda>x. x < 65536) g"

lemma group_value_snoc [simp]: "group_value (g @ [x]) = group_value g * 65536 + x"
  by (simp add: group_value_def)

lemma group_value_append: "group_value (g @ h) = group_value g * 65536 ^ length h + group_value h"
proof (induction h rule: rev_induct)
  case (snoc x h)
  have "group_value (g @ h @ [x]) = group_value (g @ h) * 65536 + x"
    using group_value_snoc [of "g @ h" x] by simp
  then show ?case using snoc by (simp add: distrib_right)
qed (simp add: group_value_def [of "[]"])

lemma group_value_less: "groups_ok g \<Longrightarrow> group_value g < 65536 ^ length g"
proof (induction g rule: rev_induct)
  case (snoc x g)
  then have "group_value g + 1 \<le> 65536 ^ length g" "x < 65536" by (simp_all add: groups_ok_def)
  then have "(group_value g + 1) * 65536 \<le> 65536 ^ length g * 65536" by (intro mult_right_mono) simp_all
  then show ?case using \<open>x < 65536\<close> by simp
qed (simp add: group_value_def)

lemma group_value_div:
  assumes "groups_ok h"
  shows "group_value (g @ h) div 65536 ^ length h = group_value g"
  using group_value_less [OF assms] by (simp add: group_value_append)

lemma group_value_inj:
  "groups_ok g \<Longrightarrow> groups_ok h \<Longrightarrow> length g = length h \<Longrightarrow> group_value g = group_value h \<longleftrightarrow> g = h"
proof (induction g arbitrary: h rule: rev_induct)
  case (snoc x g)
  obtain y h' where h: "h = h' @ [y]" using snoc.prems(3) by (cases h rule: rev_cases) auto
  then show ?case
    using snoc base_inj [of x 65536 y "group_value g" "group_value h'"] by (simp add: groups_ok_def)
qed simp

lemma eight_groups:
  assumes "length g = 8"
  obtains g0 g1 g2 g3 g4 g5 g6 g7 where "g = [g0, g1, g2, g3, g4, g5, g6, g7]"
proof -
  have "\<exists>g0 g1 g2 g3 g4 g5 g6 g7. g = [g0, g1, g2, g3, g4, g5, g6, g7]"
    using assms by (auto simp: numeral_eq_Suc length_Suc_conv)
  then show thesis using that by blast
qed

text \<open>A block whose prefix ends inside or at the end of the groups \<open>h\<close> of an address \<open>h @ t\<close>.\<close>

lemma in_prefix_groups:
  assumes "groups_ok t" "groups_ok u" "length t = length u" "128 - len = 16 * length t + j"
  shows "in_prefix 128 (group_value (h @ t)) (group_value (p @ u), len) \<longleftrightarrow>
    group_value h div 2 ^ j = group_value p div 2 ^ j"
proof -
  have "(2 :: nat) ^ (128 - len) = 65536 ^ length t * 2 ^ j"
    by (simp add: assms(4) power_add power_mult)
  moreover have "group_value (h @ t) div (65536 ^ length t * 2 ^ j) = group_value h div 2 ^ j"
    using group_value_div [OF assms(1)] by (simp add: div_mult2_eq)
  moreover have "group_value (p @ u) div (65536 ^ length t * 2 ^ j) = group_value p div 2 ^ j"
    using group_value_div [OF assms(2)] assms(3) by (simp add: div_mult2_eq)
  ultimately show ?thesis by (simp only: in_prefix_def fst_conv snd_conv)
qed

lemma group_value_small: "group_value [x] = x" "group_value [x, y] = x * 65536 + y"
  by (simp_all add: group_value_def)

lemma special_blocks:
  assumes "groups_ok [g0, g1, g2, g3, g4, g5, g6, g7]"
  defines "g \<equiv> [g0, g1, g2, g3, g4, g5, g6, g7]"
  shows "in_prefix 128 (group_value g) (0, 96) \<longleftrightarrow> list_all (\<lambda>x. x = 0) (take 6 g)"
    "in_prefix 128 (group_value g) (group_value [p, 0, 0, 0, 0, 0, 0, 0], 7) \<longleftrightarrow> g0 div 2 ^ 9 = p div 2 ^ 9"
    "in_prefix 128 (group_value g) (group_value [p, 0, 0, 0, 0, 0, 0, 0], 10) \<longleftrightarrow> g0 div 2 ^ 6 = p div 2 ^ 6"
    "in_prefix 128 (group_value g) (group_value [p, 0, 0, 0, 0, 0, 0, 0], 8) \<longleftrightarrow> g0 div 2 ^ 8 = p div 2 ^ 8"
    "in_prefix 128 (group_value g) (group_value [p, 0, 0, 0, 0, 0, 0, 0], 16) \<longleftrightarrow> g0 = p"
    "q < 65536 \<Longrightarrow> in_prefix 128 (group_value g) (group_value [p, q, 0, 0, 0, 0, 0, 0], 32) \<longleftrightarrow> g0 = p \<and> g1 = q"
    "q < 65536 \<Longrightarrow> in_prefix 128 (group_value g) (group_value [p, q, 0, 0, 0, 0, 0, 0], 28) \<longleftrightarrow>
       g0 = p \<and> g1 div 2 ^ 4 = q div 2 ^ 4"
    "groups_ok [p, q] \<Longrightarrow> in_prefix 128 (group_value g) (group_value [p, q, 0, 0, 0, 0, 0, 0], 96) \<longleftrightarrow>
       g0 = p \<and> g1 = q \<and> g2 = 0 \<and> g3 = 0 \<and> g4 = 0 \<and> g5 = 0"
    "groups_ok [p, q] \<Longrightarrow> in_prefix 128 (group_value g) (group_value [p, q, 1, 0, 0, 0, 0, 0], 48) \<longleftrightarrow>
       g0 = p \<and> g1 = q \<and> g2 = 1"
    "groups_ok [p] \<Longrightarrow> in_prefix 128 (group_value g) (group_value [p, 0, 0, 0, 0, 0, 0, 0], 64) \<longleftrightarrow>
       g0 = p \<and> g1 = 0 \<and> g2 = 0 \<and> g3 = 0"
    "in_prefix 128 (group_value g) (group_value [0, 0, 0, 0, 0, 0xffff, 0, 0], 96) \<longleftrightarrow>
       list_all (\<lambda>x. x = 0) (take 5 g) \<and> g5 = 0xffff"
proof -
  have ok: "groups_ok [g1, g2, g3, g4, g5, g6, g7]" "groups_ok [g2, g3, g4, g5, g6, g7]"
    "groups_ok [g3, g4, g5, g6, g7]" "groups_ok [g4, g5, g6, g7]" "groups_ok [g6, g7]"
    "groups_ok [g0, g1, g2, g3, g4, g5]" "groups_ok [g0, g1, g2]" "groups_ok [g0, g1, g2, g3]"
    using assms(1) by (simp_all add: groups_ok_def)
  have z: "groups_ok [0, 0, 0, 0, 0, 0, 0]" "groups_ok [0, 0, 0, 0, 0, 0]" "groups_ok [0, 0, 0, 0, 0]"
    "groups_ok [0, 0, 0, 0]" "groups_ok [0, 0]"
    by (simp_all add: groups_ok_def)
  note one = in_prefix_groups [OF ok(1) z(1), of _ _ "[g0]"]
  note two = in_prefix_groups [OF ok(2) z(2), of _ _ "[g0, g1]"]
  note three = in_prefix_groups [OF ok(3) z(3), of _ _ "[g0, g1, g2]"]
  note four = in_prefix_groups [OF ok(4) z(4), of _ _ "[g0, g1, g2, g3]"]
  note six = in_prefix_groups [OF ok(5) z(5), of _ _ "[g0, g1, g2, g3, g4, g5]"]
  have zero: "group_value [0, 0, 0, 0, 0, 0, 0, 0] = 0" by (simp add: group_value_def)
  show "in_prefix 128 (group_value g) (0, 96) \<longleftrightarrow> list_all (\<lambda>x. x = 0) (take 6 g)"
    using six [of 96 0 "[0, 0, 0, 0, 0, 0]"] group_value_inj [OF ok(6), of "[0, 0, 0, 0, 0, 0]"]
    by (simp add: g_def zero groups_ok_def)
  show "in_prefix 128 (group_value g) (group_value [p, 0, 0, 0, 0, 0, 0, 0], 7) \<longleftrightarrow> g0 div 2 ^ 9 = p div 2 ^ 9"
    "in_prefix 128 (group_value g) (group_value [p, 0, 0, 0, 0, 0, 0, 0], 10) \<longleftrightarrow> g0 div 2 ^ 6 = p div 2 ^ 6"
    "in_prefix 128 (group_value g) (group_value [p, 0, 0, 0, 0, 0, 0, 0], 8) \<longleftrightarrow> g0 div 2 ^ 8 = p div 2 ^ 8"
    "in_prefix 128 (group_value g) (group_value [p, 0, 0, 0, 0, 0, 0, 0], 16) \<longleftrightarrow> g0 = p"
    using one [of 7 9 "[p]"] one [of 10 6 "[p]"] one [of 8 8 "[p]"] one [of 16 0 "[p]"]
    by (simp_all add: g_def group_value_small del: power_numeral)
  show "in_prefix 128 (group_value g) (group_value [p, q, 0, 0, 0, 0, 0, 0], 32) \<longleftrightarrow> g0 = p \<and> g1 = q"
    if "q < 65536"
    using two [of 32 0 "[p, q]"] base_inj [of g1 65536 q g0 p] that assms(1)
    by (simp add: g_def group_value_small groups_ok_def)
  show "in_prefix 128 (group_value g) (group_value [p, q, 0, 0, 0, 0, 0, 0], 28) \<longleftrightarrow>
       g0 = p \<and> g1 div 2 ^ 4 = q div 2 ^ 4" if "q < 65536"
  proof -
    have "(x * 65536 + y) div 2 ^ 4 = x * 4096 + y div 2 ^ 4" for x y :: nat by simp
    then show ?thesis
      using two [of 28 4 "[p, q]"] base_inj [of "g1 div 2 ^ 4" 4096 "q div 2 ^ 4" g0 p] that assms(1)
      by (simp add: g_def group_value_small groups_ok_def del: power_numeral) (simp add: div_less_iff_less_mult)
  qed
  show "in_prefix 128 (group_value g) (group_value [p, q, 0, 0, 0, 0, 0, 0], 96) \<longleftrightarrow>
       g0 = p \<and> g1 = q \<and> g2 = 0 \<and> g3 = 0 \<and> g4 = 0 \<and> g5 = 0" if "groups_ok [p, q]"
    using six [of 96 0 "[p, q, 0, 0, 0, 0]"] group_value_inj [OF ok(6), of "[p, q, 0, 0, 0, 0]"] that
    by (simp add: g_def groups_ok_def)
  show "in_prefix 128 (group_value g) (group_value [p, q, 1, 0, 0, 0, 0, 0], 48) \<longleftrightarrow> g0 = p \<and> g1 = q \<and> g2 = 1"
    if "groups_ok [p, q]"
    using three [of 48 0 "[p, q, 1]"] group_value_inj [OF ok(7), of "[p, q, 1]"] that
    by (simp add: g_def groups_ok_def)
  show "in_prefix 128 (group_value g) (group_value [p, 0, 0, 0, 0, 0, 0, 0], 64) \<longleftrightarrow>
       g0 = p \<and> g1 = 0 \<and> g2 = 0 \<and> g3 = 0" if "groups_ok [p]"
    using four [of 64 0 "[p, 0, 0, 0]"] group_value_inj [OF ok(8), of "[p, 0, 0, 0]"] that
    by (simp add: g_def groups_ok_def)
  show "in_prefix 128 (group_value g) (group_value [0, 0, 0, 0, 0, 0xffff, 0, 0], 96) \<longleftrightarrow>
       list_all (\<lambda>x. x = 0) (take 5 g) \<and> g5 = 0xffff"
    using six [of 96 0 "[0, 0, 0, 0, 0, 0xffff]"] group_value_inj [OF ok(6), of "[0, 0, 0, 0, 0, 0xffff]"]
    by (simp add: g_def groups_ok_def)
qed

lemma digit_value_hex: "is_hex_digit c \<Longrightarrow> digit_value c < 16"
  by (auto simp: is_hex_digit_def is_digit_def digit_value_def)

lemma of_base_hex_less: "list_all is_hex_digit p \<Longrightarrow> of_base 16 p < 16 ^ length p"
proof (induction p rule: rev_induct)
  case (snoc c p)
  then have "of_base 16 p + 1 \<le> 16 ^ length p" "digit_value c < 16" by (simp_all add: digit_value_hex)
  then have "(of_base 16 p + 1) * 16 \<le> 16 ^ length p * 16" by (intro mult_right_mono) simp_all
  then show ?case using \<open>digit_value c < 16\<close> by simp
qed (simp add: of_base_def)

lemma hextet_less: "hextet p \<Longrightarrow> of_base 16 p < 65536"
proof -
  assume h: "hextet p"
  then have "of_base 16 p < 16 ^ length p" "length p \<le> 4" by (simp_all add: hextet_def of_base_hex_less)
  moreover from this(2) have "(16 :: nat) ^ length p \<le> 16 ^ 4" by (intro power_increasing) simp_all
  ultimately show ?thesis by simp
qed

lemma parsed_groups:
  assumes "parse_ipv6_hextets a = Some g"
  shows "length g = 8 \<and> groups_ok g"
proof -
  obtain full where "checked_groups full = Some g"
    using assms by (auto simp: parse_ipv6_hextets_def Let_def split: option.splits if_splits)
  then have "length full = 8" "\<forall>p \<in> set full. hextet p" "g = map (of_base 16) full"
    by (auto simp: checked_groups_def list_ex_iff split: if_splits)
  then show ?thesis by (auto simp: groups_ok_def list_all_iff hextet_less)
qed

lemma private_mapped:
  assumes "g6 < 65536" "g7 < 65536"
  shows "is_private_ipv4_address (js_join CHR ''.'' (map (to_base 10)
      [drop_bit 8 g6, g6 AND 0xff, drop_bit 8 g7, g7 AND 0xff])) \<longleftrightarrow> special_address4 (g6 * 65536 + g7)"
proof -
  have bits: "drop_bit 8 n = n div 256" "n AND 0xff = n mod 256" for n :: nat
    using take_bit_eq_mask [of 8 n] by (simp_all add: drop_bit_eq_div take_bit_eq_mod mask_eq_exp_minus_1)
  have "CHR ''.'' \<notin> set (to_base 10 n)" for n
    using to_dec_digits [of "CHR ''.''" n] by (auto simp: is_digit_def code_def)
  then have "map parse_int10 (js_split CHR ''.'' (js_join CHR ''.'' (map (to_base 10) xs))) =
      map (\<lambda>x. Some (int x)) xs" if "xs \<noteq> []" for xs
    using that by (subst js_split_join) auto
  then have "map parse_int10 (js_split CHR ''.'' (js_join CHR ''.'' (map (to_base 10)
      [g6 div 256, g6 mod 256, g7 div 256, g7 mod 256]))) =
    map (\<lambda>x. Some (int x)) [g6 div 256, g6 mod 256, g7 div 256, g7 mod 256]" by blast
  then have "is_private_ipv4_address (js_join CHR ''.'' (map (to_base 10)
      [g6 div 256, g6 mod 256, g7 div 256, g7 mod 256])) \<longleftrightarrow>
    special_address4 (octet_value (g6 div 256) (g6 mod 256) (g7 div 256) (g7 mod 256))"
    using assms by (intro private_ipv4_iff) (simp_all add: div_less_iff_less_mult)
  moreover have "octet_value (g6 div 256) (g6 mod 256) (g7 div 256) (g7 mod 256) = g6 * 65536 + g7"
  proof -
    have e: "g6 div 256 * 256 + g6 mod 256 = g6" "g7 div 256 * 256 + g7 mod 256 = g7" by simp_all
    have "(x * 256 + c) * 256 + d = x * 65536 + (c * 256 + d)" for x c d :: nat by simp
    then show ?thesis unfolding octet_value_def e(1) using e(2) by metis
  qed
  ultimately show ?thesis unfolding bits by simp
qed

lemma value_low_bits:
  assumes "groups_ok [g0, g1, g2, g3, g4, g5, g6, g7]"
  shows "group_value [g0, g1, g2, g3, g4, g5, g6, g7] mod 2 ^ 32 = g6 * 65536 + g7"
proof -
  have "g6 * 65536 + g7 < 2 ^ 32" using assms group_value_less [of "[g6, g7]"] by (simp add: groups_ok_def group_value_small)
  moreover have "group_value ([g0, g1, g2, g3, g4, g5] @ [g6, g7]) =
      group_value [g0, g1, g2, g3, g4, g5] * 2 ^ 32 + (g6 * 65536 + g7)"
    unfolding group_value_append by (simp add: group_value_small)
  ultimately show ?thesis by simp
qed

lemma private_groups_iff:
  assumes "length g = 8" "groups_ok g"
  shows "private_groups g \<longleftrightarrow> special_address6 (group_value g)"
proof -
  obtain g0 g1 g2 g3 g4 g5 g6 g7 where g: "g = [g0, g1, g2, g3, g4, g5, g6, g7]"
    by (rule eight_groups [OF assms(1)])
  have lt: "g0 < 65536" "g1 < 65536" "g6 < 65536" "g7 < 65536" using assms(2) by (simp_all add: g groups_ok_def)
  note blocks = special_blocks [OF assms(2) [unfolded g]]
  have spec: "special_address6 (group_value g) \<longleftrightarrow>
      list_all (\<lambda>x. x = 0) (take 6 g) \<or> g0 div 2 ^ 9 = 0xfc00 div 2 ^ 9 \<or> g0 div 2 ^ 6 = 0xfe80 div 2 ^ 6 \<or>
      g0 div 2 ^ 8 = 0xff00 div 2 ^ 8 \<or> (g0 = 0x2001 \<and> g1 = 0xdb8) \<or>
      (g0 = 0x2001 \<and> g1 div 2 ^ 4 = 0x10 div 2 ^ 4) \<or> (g0 = 0x2001 \<and> g1 div 2 ^ 4 = 0x20 div 2 ^ 4) \<or>
      g0 = 0x2002 \<or> (g0 = 0x64 \<and> g1 = 0xff9b \<and> g2 = 0 \<and> g3 = 0 \<and> g4 = 0 \<and> g5 = 0) \<or>
      (g0 = 0x64 \<and> g1 = 0xff9b \<and> g2 = 1) \<or> (g0 = 0x100 \<and> g1 = 0 \<and> g2 = 0 \<and> g3 = 0) \<or>
      ((list_all (\<lambda>x. x = 0) (take 5 g) \<and> g5 = 0xffff) \<and> special_address4 (g6 * 65536 + g7))"
    using blocks value_low_bits [OF assms(2) [unfolded g]]
    by (simp add: special_address6_def special_ipv6_def g groups_ok_def del: power_numeral)
  show ?thesis
  proof (cases "list_all (\<lambda>x. x = 0) (take 6 g)")
    case True
    then show ?thesis unfolding spec by (simp add: private_groups_def Let_def)
  next
    case no6: False
    show ?thesis
    proof (cases "list_all (\<lambda>x. x = 0) (take 5 g) \<and> g5 = 0xffff")
      case True
      then show ?thesis
        unfolding spec using private_mapped [OF lt(3,4)] by (simp add: private_groups_def Let_def g)
    next
      case False
      have "\<not> list_all (\<lambda>x. x = 0) g" "\<not> list_all (\<lambda>x. x = 0) (take 7 g)" using no6 by (auto simp: g)
      moreover have "g ! 0 = g0" "g ! 1 = g1" "g ! 2 = g2" "g ! 3 = g3" "g ! 4 = g4" "g ! 5 = g5" by (simp_all add: g)
      ultimately have "private_groups g = listed_groups g0 g1 g2 g3 g4 g5"
        using no6 False by (simp only: private_groups_def Let_def simp_thms if_False)
      then show ?thesis
        unfolding spec listed_groups_def mask_tests [OF lt(1)] mask_tests [OF lt(2)]
        by (simp only: no6 False simp_thms)
    qed
  qed
qed

text \<open>C31: For every IPv6 address that parses, the checks of the groups (bit masks, and the IPv4 check
  for IPv4-mapped addresses) decide exactly membership of the 128-bit value in the special-purpose
  blocks. An address that does not parse counts as private.\<close>

theorem ipv6_private_exact:
  "is_private_ipv6_address a \<longleftrightarrow>
     (case parse_ipv6_hextets a of None \<Rightarrow> True | Some g \<Rightarrow> special_address6 (group_value g))"
  using parsed_groups private_groups_iff
  by (auto simp: is_private_ipv6_address_def split: option.split)

subsection \<open>Reading an IPv6 address back\<close>

definition groups_text :: "nat list \<Rightarrow> string" where
  "groups_text g = js_join CHR '':'' (map (to_base 16) g)"

text \<open>No two adjacent colons, and none at the end.\<close>

fun plain :: "string \<Rightarrow> bool" where
  "plain [] = True"
| "plain [c] = (c \<noteq> CHR '':'')"
| "plain (c # d # s) = (\<not> (c = CHR '':'' \<and> d = CHR '':'') \<and> plain (d # s))"

lemma split_double_plain: "plain s \<Longrightarrow> split_double s = [s]"
  by (induction s rule: split_double.induct) auto

lemma split_double_append:
  "plain s \<Longrightarrow> split_double (s @ CHR '':'' # CHR '':'' # t) = s # split_double t"
proof (induction s rule: split_double.induct)
  case (2 c)
  then show ?case by simp
next
  case (3 c d s)
  then have "split_double (d # s @ CHR '':'' # CHR '':'' # t) = (d # s) # split_double t"
    by (cases "c = CHR '':'' \<and> d = CHR '':''") auto
  then show ?case using 3 by auto
qed simp

lemma plain_word: "CHR '':'' \<notin> set w \<Longrightarrow> plain w"
  by (induction w rule: plain.induct) auto

lemma plain_append:
  "CHR '':'' \<notin> set w \<Longrightarrow> w \<noteq> [] \<Longrightarrow> plain u \<Longrightarrow> u \<noteq> [] \<Longrightarrow> hd u \<noteq> CHR '':'' \<Longrightarrow> plain (w @ CHR '':'' # u)"
proof (induction w rule: plain.induct)
  case (2 c)
  then show ?case by (cases u) auto
qed auto

lemma hex_word: "CHR '':'' \<notin> set (to_base 16 n)" "CHR ''.'' \<notin> set (to_base 16 n)"
  using to_hex_digits [of "CHR '':''" n] to_hex_digits [of "CHR ''.''" n]
  by (auto simp: is_hex_digit_def is_digit_def code_def)

lemma groups_text_Cons:
  "groups_text [x] = to_base 16 x" "h \<noteq> [] \<Longrightarrow> groups_text (x # h) = to_base 16 x @ CHR '':'' # groups_text h"
  by (simp_all add: groups_text_def js_join_Cons)

lemma groups_text_plain: "plain (groups_text g) \<and> (g \<noteq> [] \<longrightarrow> groups_text g \<noteq> [] \<and> hd (groups_text g) \<noteq> CHR '':'')"
proof (induction g)
  case (Cons x g)
  have w: "to_base 16 x \<noteq> []" "hd (to_base 16 x) \<noteq> CHR '':''"
    using hex_word(1) [of x] by (simp, metis hd_in_set to_base_nonempty)
  show ?case
  proof (cases "g = []")
    case True
    then show ?thesis using w by (simp add: groups_text_Cons plain_word hex_word)
  next
    case False
    then show ?thesis using w Cons plain_append [OF hex_word(1) w(1)] by (simp add: groups_text_Cons)
  qed
qed (simp add: groups_text_def)

lemma colon_parts_text: "colon_parts (groups_text g) = map (to_base 16) g"
proof (cases "g = []")
  case False
  then have "groups_text g \<noteq> []" using groups_text_plain by blast
  moreover have "js_split CHR '':'' (js_join CHR '':'' (map (to_base 16) g)) = map (to_base 16) g"
    using False hex_word by (intro js_split_join) auto
  ultimately show ?thesis by (simp add: colon_parts_def groups_text_def)
qed (simp add: groups_text_def colon_parts_def)

lemma lower_hex_digit: "n < 16 \<Longrightarrow> lower_char (digit_char n) = digit_char n"
  by (auto simp: lower_char_def digit_char_def is_upper_az_def)

lemma address_text_chars:
  assumes "c \<in> set (groups_text g)"
  shows "c = CHR '':'' \<or> (\<exists>n < 16. c = digit_char n)"
proof -
  have "\<exists>n < 16. x = digit_char n" if "x \<in> set (to_base 16 m)" for x m
    using to_base_digits [of 16 "\<lambda>c. \<exists>n < 16. c = digit_char n" x m] that by auto
  then show ?thesis
    using assms set_js_join [of "CHR '':''" "map (to_base 16) g"] unfolding groups_text_def by fastforce
qed

lemma normalize_address_text:
  assumes "\<And>c. c \<in> set s \<Longrightarrow> c = CHR '':'' \<or> (\<exists>n < 16. c = digit_char n)"
  shows "normalize_hostname s = s"
proof (rule normalize_hostname_id)
  show "list_all address_char s"
    using assms digit_char_hex by (fastforce simp: list_all_iff address_char_def)
  have "lower_char CHR '':'' = CHR '':''" by (simp add: lower_char_def is_upper_az_def code_def)
  then have "lower_char c = c" if "c \<in> set s" for c
    using assms [OF that] lower_hex_digit by auto
  then show "js_lower s = s" by (simp add: js_lower_def map_idI)
  have "digit_char n \<noteq> CHR ''.''" if "n < 16" for n
    using digit_char_hex [OF that] by (auto simp: is_hex_digit_def is_digit_def code_def)
  then show "s = [] \<or> last s \<noteq> CHR ''.''" using assms [of "last s"] by (cases "s = []") auto
qed

lemma hextet_text: "x < 65536 \<Longrightarrow> hextet (to_base 16 x)"
  using length_to_base [of 16 x 4] to_hex_digits [of _ x] to_base_nonempty [of 16 x]
  by (auto simp: hextet_def list_all_iff Suc_le_eq simp del: to_base_nonempty)

lemma no_dotted: "expand_dotted (map (to_base 16) g) = Some (map (to_base 16) g)"
proof -
  have "js_includes ''.'' s \<Longrightarrow> CHR ''.'' \<in> set s" for s
    by (induction s) (auto simp: starts_with_def)
  then have "\<not> list_ex (js_includes ''.'') (map (to_base 16) g)"
    using hex_word(2) by (auto simp: list_ex_iff)
  then show ?thesis by (simp add: expand_dotted_def)
qed

lemma checked_text: "groups_ok g \<Longrightarrow> length g = 8 \<Longrightarrow> checked_groups (map (to_base 16) g) = Some g"
  by (auto simp: checked_groups_def groups_ok_def list_ex_iff list_all_iff hextet_text of_to_base map_idI)



subsection \<open>Address literals are stable\<close>

fun join_double :: "string list \<Rightarrow> string" where
  "join_double [] = []"
| "join_double [a] = a"
| "join_double (a # b # r) = a @ ''::'' @ join_double (b # r)"

lemma join_split_double: "split_double s \<noteq> [] \<and> join_double (split_double s) = s"
proof (induction s rule: split_double.induct)
  case (3 c d s)
  show ?case
  proof (cases "c = CHR '':'' \<and> d = CHR '':''")
    case True
    then obtain w ws where "split_double s = w # ws" using 3 by (cases "split_double s") auto
    then show ?thesis using True 3 by simp
  next
    case False
    then obtain w ws where w: "split_double (d # s) = w # ws" using 3 by (cases "split_double (d # s)") auto
    then show ?thesis using False 3 by (cases ws) auto
  qed
qed simp_all

lemma group_count_chars:
  assumes "group_count (colon_parts a) = Some n"
  shows "list_all address_char a \<and> (a = [] \<or> last a \<noteq> CHR ''.'')"
proof (cases "a = []")
  case False
  let ?ps = "js_split CHR '':'' a"
  have parts: "hextet p \<or> ipv4_literal p" if "p \<in> set ?ps" for p
  proof -
    have "?ps = butlast ?ps @ [last ?ps]" by simp
    then have "p \<in> set (butlast ?ps) \<or> p = last ?ps"
      using that by (metis Un_iff empty_iff empty_set list.set(2) insertE set_append)
    then show ?thesis
      using assms False that by (auto simp: group_count_def colon_parts_def list_all_iff split: if_splits)
  qed
  have ok: "list_all address_char p \<and> p \<noteq> [] \<and> last p \<noteq> CHR ''.''" if "hextet p \<or> ipv4_literal p" for p
    using that
  proof
    assume h: "hextet p"
    then have "p \<noteq> []" by (auto simp: hextet_def)
    moreover have "\<not> is_hex_digit CHR ''.''" by (simp add: is_hex_digit_def is_digit_def code_def)
    moreover have "is_hex_digit (last p)" using h \<open>p \<noteq> []\<close> by (simp add: hextet_def list_all_iff)
    ultimately have "p \<noteq> []" "last p \<noteq> CHR ''.''" by metis+
    then show ?thesis using h by (simp add: hextet_def list_all_iff address_char_def)
  next
    assume "ipv4_literal p"
    from ipv4_chars [OF this] show ?thesis by (auto simp: list_all_iff address_char_def is_hex_digit_def)
  qed
  have a: "a = js_join CHR '':'' ?ps" by simp
  have "address_char c" if "c \<in> set a" for c
    using that set_js_join [of "CHR '':''" ?ps] ok [OF parts] unfolding a [symmetric]
    by (auto simp: list_all_iff address_char_def)
  moreover have "last a \<noteq> CHR ''.''"
    using ok [OF parts [of "last ?ps"]] last_js_join [of ?ps "CHR '':''"] by simp
  ultimately show ?thesis by (simp add: list_all_iff)
qed simp

lemma hextets_count: "list_all hextet ps \<Longrightarrow> group_count ps = Some (length ps)"
  by (simp add: group_count_def)

lemma ipv6_chars:
  assumes "ipv6_literal s" "CHR ''%'' \<notin> set s"
  shows "list_all address_char s \<and> (s = [] \<or> last s \<noteq> CHR ''.'')"
proof -
  have "takeWhile (\<lambda>c. c \<noteq> CHR ''%'') s = s" using assms(2) by (auto simp: takeWhile_eq_all_conv)
  then have lit: "case split_double s of [a] \<Rightarrow> group_count (colon_parts a) = Some 8
      | [a, b] \<Rightarrow> list_all hextet (colon_parts a) \<and>
          (case group_count (colon_parts b) of None \<Rightarrow> False | Some n \<Rightarrow> length (colon_parts a) + n \<le> 7)
      | _ \<Rightarrow> False"
    using assms(1) by (simp only: ipv6_literal_def)
  obtain a r where ar: "split_double s = a # r" using join_split_double [of s] by (cases "split_double s") auto
  show ?thesis
  proof (cases r)
    case Nil
    then have "s = a" "group_count (colon_parts a) = Some 8" using join_split_double [of s] ar lit by simp_all
    then show ?thesis using group_count_chars by blast
  next
    case (Cons b r')
    have "r' = []" using lit unfolding ar Cons by (cases r') simp_all
    then have s: "s = a @ ''::'' @ b" using join_split_double [of s] ar Cons by simp
    obtain n where "list_all hextet (colon_parts a)" "group_count (colon_parts b) = Some n"
      using lit unfolding ar Cons \<open>r' = []\<close> by (cases "group_count (colon_parts b)") simp_all
    then have "list_all address_char a" "list_all address_char b" "b = [] \<or> last b \<noteq> CHR ''.''"
      using group_count_chars [OF hextets_count] group_count_chars by blast+
    then show ?thesis by (auto simp: s address_char_def)
  qed
qed

lemma normalize_literal:
  assumes "net_is_ip s \<noteq> 0" "CHR ''%'' \<notin> set s" "js_lower s = s"
  shows "normalize_hostname s = s"
proof (cases "ipv4_literal s")
  case False
  then have "ipv6_literal s" using assms(1) by (simp add: net_is_ip_def split: if_splits)
  then show ?thesis using ipv6_chars [OF _ assms(2)] assms(3) by (intro normalize_hostname_id) auto
qed (rule ipv4_normalized)

lemma lower_normalized: "js_lower (normalize_hostname h) = normalize_hostname h"
proof -
  have low: "js_lower t = t" if "set t \<subseteq> set (js_lower h)" for t
    using that by (auto simp: js_lower_def intro!: map_idI)
  have "set (strip_brackets t) \<subseteq> set t" for t
    by (cases t) (auto simp: strip_brackets_def Let_def dest: in_set_butlastD)
  then show ?thesis
    by (intro low) (auto simp: normalize_hostname_def Let_def dest: in_set_butlastD)
qed

lemma normalized_chars: "c \<in> set (normalize_hostname h) \<Longrightarrow> c \<in> set (js_lower h)"
proof -
  have "set (strip_brackets t) \<subseteq> set t" for t
    by (cases t) (auto simp: strip_brackets_def Let_def dest: in_set_butlastD)
  then show "c \<in> set (normalize_hostname h) \<Longrightarrow> c \<in> set (js_lower h)"
    by (auto simp: normalize_hostname_def Let_def split: if_splits dest!: in_set_butlastD)
qed

lemma lower_percent: "CHR ''%'' \<in> set (js_lower h) \<Longrightarrow> CHR ''%'' \<in> set h"
proof -
  have "lower_char c = CHR ''%'' \<Longrightarrow> c = CHR ''%''" for c
  proof (rule ccontr)
    assume c: "lower_char c = CHR ''%''" "c \<noteq> CHR ''%''"
    then have e: "char_of (code c + 32) = CHR ''%''" and r: "65 \<le> code c" "code c \<le> 222"
      by (auto simp: lower_char_def is_upper_az_def split: if_splits)
    have "code (char_of (code c + 32)) = code c + 32" using r by (intro code_char_of) simp
    moreover have "code CHR ''%'' = 37" by (simp add: code_def)
    ultimately show False using e r by simp
  qed
  then show "CHR ''%'' \<in> set (js_lower h) \<Longrightarrow> CHR ''%'' \<in> set h"
    unfolding js_lower_def set_map by (metis imageE)
qed

text \<open>The host name of a literal stays itself when it is normalized again.\<close>

lemma normalize_literal_twice:
  assumes "net_is_ip (normalize_hostname h) \<noteq> 0" "CHR ''%'' \<notin> set h"
  shows "normalize_hostname (normalize_hostname h) = normalize_hostname h"
  using normalize_literal [OF assms(1) _ lower_normalized] normalized_chars lower_percent assms(2) by blast

end
