(* ===== verification/Host_Limiter.thy ===== *)
theory Host_Limiter
  imports Ip_Address
begin

text \<open>
  \<open>createHostRequestLimiter\<close> of \<open>src/lib/url-safety.ts\<close>: at most \<open>m\<close> requests to one host at a
  time, the rest wait in the order of their arrival. The map \<open>hosts\<close> is \<open>lm_hosts\<close>; \<open>lm_held\<close> holds
  the slots that were granted and not yet released (the \<open>released\<close> flag of each closure). A request
  is named by a number that is used once.
\<close>

record host_state =
  hs_active :: nat
  hs_waiters :: "nat list"

record limiter =
  lm_hosts :: "string \<rightharpoonup> host_state"
  lm_held :: "(nat \<times> string) list"

definition max_concurrent_requests_per_host :: nat where
  "max_concurrent_requests_per_host = 4"

definition empty_limiter :: limiter where
  "empty_limiter = \<lparr>lm_hosts = Map.empty, lm_held = []\<rparr>"

definition host_of :: "string \<Rightarrow> limiter \<Rightarrow> host_state" where
  "host_of h s = (case lm_hosts s h of None \<Rightarrow> \<lparr>hs_active = 0, hs_waiters = []\<rparr> | Some x \<Rightarrow> x)"

definition set_host :: "string \<Rightarrow> host_state \<Rightarrow> limiter \<Rightarrow> limiter" where
  "set_host h x s = s\<lparr>lm_hosts := (lm_hosts s)(h \<mapsto> x)\<rparr>"

definition drop_host :: "string \<Rightarrow> limiter \<Rightarrow> limiter" where
  "drop_host h s = s\<lparr>lm_hosts := (lm_hosts s)(h := None)\<rparr>"

text \<open>\<open>acquire\<close>: rejected when the signal is already aborted, granted at once, or queued.\<close>

definition acquire :: "nat \<Rightarrow> nat \<Rightarrow> string \<Rightarrow> bool \<Rightarrow> limiter \<Rightarrow> limiter" where
  "acquire m i hostname aborted s =
     (let h = normalize_hostname hostname; x = host_of h s; s1 = set_host h x s
      in if aborted then s1
         else if hs_active x < m
         then (set_host h (x\<lparr>hs_active := hs_active x + 1\<rparr>) s1)\<lparr>lm_held := (i, h) # lm_held s1\<rparr>
         else set_host h (x\<lparr>hs_waiters := hs_waiters x @ [i]\<rparr>) s1)"

text \<open>The abort listener of a waiting request.\<close>

definition abort_wait :: "nat \<Rightarrow> string \<Rightarrow> limiter \<Rightarrow> limiter" where
  "abort_wait i h s =
     (let x = host_of h s; x' = x\<lparr>hs_waiters := remove1 i (hs_waiters x)\<rparr>
      in if hs_active x' = 0 \<and> hs_waiters x' = [] then drop_host h s else set_host h x' s)"

text \<open>The function a granted request calls; a second call does nothing.\<close>

definition release :: "nat \<Rightarrow> string \<Rightarrow> limiter \<Rightarrow> limiter" where
  "release i h s =
     (if (i, h) \<notin> set (lm_held s) then s
      else
        let s1 = s\<lparr>lm_held := remove1 (i, h) (lm_held s)\<rparr>;
            x = host_of h s1; active = hs_active x - 1
        in case hs_waiters x of
             next # rest \<Rightarrow>
               (set_host h \<lparr>hs_active = active + 1, hs_waiters = rest\<rparr> s1)\<lparr>lm_held := (next, h) # lm_held s1\<rparr>
           | [] \<Rightarrow> (if active = 0 then drop_host h s1
                    else set_host h \<lparr>hs_active = active, hs_waiters = []\<rparr> s1))"

definition used :: "limiter \<Rightarrow> nat set" where
  "used s = fst ` set (lm_held s) \<union> {i. \<exists>h. i \<in> set (hs_waiters (host_of h s))}"

inductive limiter_step :: "nat \<Rightarrow> limiter \<Rightarrow> limiter \<Rightarrow> bool" for m where
  step_acquire: "i \<notin> used s \<Longrightarrow> limiter_step m s (acquire m i hostname aborted s)"
| step_abort: "i \<in> set (hs_waiters (host_of h s)) \<Longrightarrow> limiter_step m s (abort_wait i h s)"
| step_release: "limiter_step m s (release i h s)"

inductive limiter_reachable :: "nat \<Rightarrow> limiter \<Rightarrow> bool" for m where
  start: "limiter_reachable m empty_limiter"
| step: "limiter_reachable m s \<Longrightarrow> limiter_step m s s' \<Longrightarrow> limiter_reachable m s'"

inductive_cases limiter_stepE: "limiter_step m s s'"

definition slots_of :: "string \<Rightarrow> (nat \<times> string) list \<Rightarrow> nat" where
  "slots_of h p = length (filter (\<lambda>x. snd x = h) p)"

definition held_at :: "string \<Rightarrow> limiter \<Rightarrow> nat" where
  "held_at h s = slots_of h (lm_held s)"

definition host_ok :: "nat \<Rightarrow> limiter \<Rightarrow> string \<Rightarrow> bool" where
  "host_ok m s h \<longleftrightarrow>
     hs_active (host_of h s) = held_at h s \<and> hs_active (host_of h s) \<le> m \<and>
     (hs_waiters (host_of h s) \<noteq> [] \<longrightarrow> hs_active (host_of h s) = m)"

lemma host_of_set [simp]: "host_of k (set_host h x s) = (if k = h then x else host_of k s)"
  by (simp add: host_of_def set_host_def)

lemma host_of_drop [simp]:
  "host_of k (drop_host h s) = (if k = h then \<lparr>hs_active = 0, hs_waiters = []\<rparr> else host_of k s)"
  by (simp add: host_of_def drop_host_def)

lemma host_of_held [simp]: "host_of k (s\<lparr>lm_held := p\<rparr>) = host_of k s"
  by (simp add: host_of_def)

lemma held_simps [simp]:
  "lm_held (set_host h x s) = lm_held s" "lm_held (drop_host h s) = lm_held s"
  by (simp_all add: set_host_def drop_host_def)

lemma slots_of_Cons [simp]: "slots_of k ((i, h) # p) = (if k = h then 1 else 0) + slots_of k p"
  by (simp add: slots_of_def)

lemma slots_of_remove1:
  "(i, h) \<in> set p \<Longrightarrow> slots_of k (remove1 (i, h) p) = slots_of k p - (if k = h then 1 else 0)"
  by (auto simp: slots_of_def filter_remove1 length_remove1)

lemma held_at_pos: "(i, h) \<in> set (lm_held s) \<Longrightarrow> 0 < held_at h s"
  by (force simp: held_at_def slots_of_def filter_empty_conv)

lemma host_ok_acquire:
  assumes "\<forall>h. host_ok m s h"
  shows "host_ok m (acquire m i hostname aborted s) k"
  using assms [rule_format, of k] assms [rule_format, of "normalize_hostname hostname"]
  by (auto simp: host_ok_def acquire_def Let_def held_at_def)

lemma host_ok_abort:
  assumes "\<forall>h. host_ok m s h"
  shows "host_ok m (abort_wait i h s) k"
proof -
  have "hs_waiters (host_of h s) = [] \<Longrightarrow> remove1 i (hs_waiters (host_of h s)) = []" by simp
  then show ?thesis
    using assms [rule_format, of k] assms [rule_format, of h]
    by (auto simp: host_ok_def abort_wait_def Let_def held_at_def)
qed

lemma host_ok_release:
  assumes "\<forall>h. host_ok m s h"
  shows "host_ok m (release i h s) k"
proof (cases "(i, h) \<in> set (lm_held s)")
  case True
  show ?thesis
    using assms [rule_format, of k] assms [rule_format, of h] True held_at_pos [OF True]
    by (cases "hs_waiters (host_of h s)")
      (auto simp: host_ok_def release_def Let_def held_at_def slots_of_remove1)
qed (use assms in \<open>simp add: release_def\<close>)

lemma limiter_invariant: "limiter_reachable m s \<Longrightarrow> host_ok m s h"
proof (induction arbitrary: h rule: limiter_reachable.induct)
  case start
  show ?case by (simp add: host_ok_def empty_limiter_def host_of_def held_at_def slots_of_def)
next
  case (step s s')
  from step.hyps(2) show ?case
    by (cases rule: limiter_stepE) (use step.IH host_ok_acquire host_ok_abort host_ok_release in auto)
qed

text \<open>C14: In every reachable state of the limiter the count of a host is the number of slots that are
  held for it, never more than the limit, and requests wait only while all slots are taken: a
  released slot is never lost.\<close>

theorem host_limiter_invariant:
  assumes "limiter_reachable m s"
  shows "hs_active (host_of h s) = held_at h s \<and> held_at h s \<le> m \<and>
    (hs_waiters (host_of h s) = [] \<or> held_at h s = m)"
  using limiter_invariant [OF assms, of h] by (auto simp: host_ok_def)

definition example_limiter :: limiter where
  "example_limiter = acquire 1 2 ''a.b.'' False (acquire 1 1 ''A.b'' False empty_limiter)"

lemma example_host: "normalize_hostname ''A.b'' = ''a.b''" "normalize_hostname ''a.b.'' = ''a.b''"
  by code_simp+

lemma example_limiter_hosts:
  "lm_held example_limiter = [(1, ''a.b'')] \<and> host_of ''a.b'' example_limiter = \<lparr>hs_active = 1, hs_waiters = [2]\<rparr>"
  by (simp add: example_limiter_def acquire_def Let_def example_host empty_limiter_def host_of_def set_host_def)

lemma example_limiter_reachable: "limiter_reachable 1 example_limiter"
  unfolding example_limiter_def
proof (rule limiter_reachable.step [OF limiter_reachable.step [OF limiter_reachable.start]])
  show "limiter_step 1 empty_limiter (acquire 1 1 ''A.b'' False empty_limiter)"
    by (rule step_acquire) (simp add: used_def empty_limiter_def host_of_def)
  have "lm_hosts (acquire 1 1 ''A.b'' False empty_limiter) = [''a.b'' \<mapsto> \<lparr>hs_active = 1, hs_waiters = []\<rparr>]"
    "lm_held (acquire 1 1 ''A.b'' False empty_limiter) = [(1, ''a.b'')]"
    by (simp_all add: acquire_def Let_def example_host empty_limiter_def host_of_def set_host_def)
  then have "hs_waiters (host_of h (acquire 1 1 ''A.b'' False empty_limiter)) = []" for h
    by (simp add: host_of_def)
  then show "limiter_step 1 (acquire 1 1 ''A.b'' False empty_limiter)
      (acquire 1 2 ''a.b.'' False (acquire 1 1 ''A.b'' False empty_limiter))"
    using \<open>lm_held (acquire 1 1 ''A.b'' False empty_limiter) = [(1, ''a.b'')]\<close>
    by (intro step_acquire) (simp only: used_def, simp)
qed

theorem host_limiter_invariant_witness:
  "held_at ''a.b'' example_limiter \<le> 1 \<and> hs_waiters (host_of ''a.b'' example_limiter) \<noteq> []"
proof
  show "held_at ''a.b'' example_limiter \<le> 1"
    using host_limiter_invariant [OF example_limiter_reachable, of "''a.b''"] by blast
  show "hs_waiters (host_of ''a.b'' example_limiter) \<noteq> []" using example_limiter_hosts by simp
qed

text \<open>Slots are handed on in the order of arrival: when a request releases its slot, the one that
  has waited longest holds a slot of the host in the next state, all others keep their place, and a
  second release of the same slot changes nothing.\<close>

theorem host_limiter_fifo:
  assumes "limiter_reachable m s" "(i, h) \<in> set (lm_held s)" "hs_waiters (host_of h s) = w # ws"
    and "distinct (lm_held s)" "w \<noteq> i"
  shows "(w, h) \<in> set (lm_held (release i h s)) \<and> hs_waiters (host_of h (release i h s)) = ws \<and>
    held_at h (release i h s) = held_at h s \<and> release i h (release i h s) = release i h s"
proof -
  have pos: "0 < held_at h s" by (rule held_at_pos [OF assms(2)])
  have rel: "lm_held (release i h s) = (w, h) # remove1 (i, h) (lm_held s)"
    using assms(2,3) by (simp add: release_def Let_def)
  then have "(i, h) \<notin> set (lm_held (release i h s))" using assms(4,5) by simp
  then have twice: "release i h (release i h s) = release i h s" by (simp add: release_def [of i h "release i h s"])
  moreover have "held_at h (release i h s) = held_at h s"
    using pos assms(2,3) by (simp add: release_def Let_def held_at_def slots_of_remove1)
  moreover have "hs_waiters (host_of h (release i h s)) = ws"
    using assms(2,3) by (simp add: release_def Let_def)
  ultimately show ?thesis using rel by simp
qed

theorem host_limiter_fifo_witness:
  "(2, ''a.b'') \<in> set (lm_held (release 1 ''a.b'' example_limiter))"
  using host_limiter_fifo [OF example_limiter_reachable, of 1 "''a.b''" 2 "[]"] example_limiter_hosts by simp

end
