(* ===== verification/Safe_Fetch.thy ===== *)
theory Safe_Fetch
  imports Ip_Address Complex_Main
begin

text \<open>
  The fetch of \<open>src/lib/url-safety.ts\<close> for addresses users give: \<open>normalizeHttpUrl\<close>,
  \<open>assertUrlResolvesPublicly\<close> and the redirect loop of \<open>safeFetchBytes\<close>. The WHATWG URL parser, the
  DNS, the clock, the transport (Undici) and the environment are parameters. A call gives its result
  and the list of what it did: slots it took and freed, and requests it sent.
\<close>

type_synonym byte = "8 word"

datatype fetch_error =
    Unsafe_Url_Error string
  | Feed_Fetch_Error string
  | Timeout_Error
  | Response_Too_Large
  | Other_Error string

record web_url =
  wu_protocol :: string
  wu_username :: string
  wu_password :: string
  wu_port :: string
  wu_hostname :: string
  wu_path_search :: string
  wu_href_no_hash :: string
  wu_hash :: string

record url_parser =
  up_parse :: "string \<Rightarrow> web_url option"
  up_resolve :: "string \<Rightarrow> web_url \<Rightarrow> web_url option"

definition default_timeout_ms :: int where "default_timeout_ms = 10000"
definition default_total_timeout_ms :: int where "default_total_timeout_ms = 15000"
definition default_max_bytes :: nat where "default_max_bytes = 2 * 1024 * 1024"
definition max_redirects :: nat where "max_redirects = 5"

definition wu_href :: "web_url \<Rightarrow> string" where
  "wu_href u = wu_href_no_hash u @ wu_hash u"

subsection \<open>Which URLs are accepted\<close>

definition local_hostname_error :: fetch_error where
  "local_hostname_error = Unsafe_Url_Error ''Local and internal hostnames are not allowed.''"

definition assert_public_hostname :: "string \<Rightarrow> fetch_error + unit" where
  "assert_public_hostname hostname =
     (let n = normalize_hostname hostname; v = net_is_ip n
      in if v \<noteq> 0 \<and> is_private_ip_address n then Inl local_hostname_error
         else if v \<noteq> 0 then Inr ()
         else if n = ''localhost'' \<or> ends_with ''.localhost'' n \<or> ends_with ''.local'' n \<or>
           \<not> js_includes ''.'' n
         then Inl local_hostname_error
         else Inr ())"

text \<open>\<open>/^[a-z][a-z0-9+.-]*:\/\//i\<close>\<close>

definition has_scheme :: "string \<Rightarrow> bool" where
  "has_scheme s =
     (case s of
        [] \<Rightarrow> False
      | c # r \<Rightarrow> (is_lower_az c \<or> is_upper_az c) \<and>
          starts_with ''://''
            (dropWhile (\<lambda>d. is_alnum d \<or> d = CHR ''+'' \<or> d = CHR ''.'' \<or> d = CHR ''-'') r))"

definition normalize_http_url :: "url_parser \<Rightarrow> string \<Rightarrow> fetch_error + web_url" where
  "normalize_http_url p input =
     (let trimmed = js_trim input
      in if trimmed = [] then Inl (Unsafe_Url_Error ''Enter a feed or website URL.'')
         else case up_parse p (if has_scheme trimmed then trimmed else ''https://'' @ trimmed) of
           None \<Rightarrow> Inl (Unsafe_Url_Error ''Enter a valid URL.'')
         | Some u \<Rightarrow>
             if wu_protocol u \<noteq> ''http:'' \<and> wu_protocol u \<noteq> ''https:''
             then Inl (Unsafe_Url_Error ''Only HTTP and HTTPS URLs are supported.'')
             else if wu_username u \<noteq> [] \<or> wu_password u \<noteq> []
             then Inl (Unsafe_Url_Error ''URLs with embedded credentials are not allowed.'')
             else if wu_port u \<noteq> [] \<and>
               \<not> ((wu_protocol u = ''http:'' \<and> wu_port u = ''80'') \<or>
                  (wu_protocol u = ''https:'' \<and> wu_port u = ''443''))
             then Inl (Unsafe_Url_Error ''Only standard HTTP and HTTPS ports are allowed.'')
             else bindR (assert_public_hostname (wu_hostname u)) (\<lambda>_. Inr (u\<lparr>wu_hash := []\<rparr>)))"

record public_address =
  pa_address :: string
  pa_family :: nat

text \<open>\<open>dns.lookup\<close> answers a list of addresses, or rejects (\<open>None\<close>).\<close>

fun public_addresses :: "string list \<Rightarrow> fetch_error + public_address list" where
  "public_addresses [] = Inr []"
| "public_addresses (a # as) =
     (if net_is_ip a = 0 \<or> is_private_ip_address a then Inl local_hostname_error
      else bindR (public_addresses as) (\<lambda>ps. Inr (\<lparr>pa_address = a, pa_family = net_is_ip a\<rparr> # ps)))"

definition assert_url_resolves_publicly ::
  "(string \<Rightarrow> string list option) \<Rightarrow> web_url \<Rightarrow> fetch_error + public_address" where
  "assert_url_resolves_publicly lookup u =
     (let hostname = normalize_hostname (wu_hostname u)
      in bindR (assert_public_hostname hostname) (\<lambda>_.
           if net_is_ip hostname \<noteq> 0
           then Inr \<lparr>pa_address = hostname, pa_family = net_is_ip hostname\<rparr>
           else case lookup hostname of
             None \<Rightarrow> Inl (Unsafe_Url_Error ''The URL hostname could not be resolved.'')
           | Some [] \<Rightarrow> Inl (Unsafe_Url_Error ''The URL hostname could not be resolved.'')
           | Some as \<Rightarrow> bindR (public_addresses as) (\<lambda>ps. Inr (hd ps))))"

subsection \<open>Responses\<close>

record fetch_response =
  fr_status :: nat
  fr_header :: "string \<Rightarrow> string option"
  fr_body :: "(fetch_error + byte list) list option"

record fetch_redirect =
  rd_from :: string
  rd_status :: nat
  rd_to :: string

record fetch_result =
  fb_bytes :: "byte list"
  fb_content_type :: string
  fb_etag :: "string option"
  fb_last_modified :: "string option"
  fb_not_modified :: bool
  fb_redirects :: "fetch_redirect list"
  fb_status :: nat
  fb_url :: web_url

definition safe_header_value :: "string option \<Rightarrow> string option" where
  "safe_header_value v =
     (case v of
        None \<Rightarrow> None
      | Some s \<Rightarrow> if s = [] \<or> 512 < length s \<or> CHR 0x0D \<in> set s \<or> CHR 0x0A \<in> set s then None else Some s)"

definition too_large_error :: fetch_error where
  "too_large_error = Feed_Fetch_Error ''The response is too large to inspect safely.''"

fun read_chunks :: "nat \<Rightarrow> byte list \<Rightarrow> (fetch_error + byte list) list \<Rightarrow> fetch_error + byte list" where
  "read_chunks max_bytes got [] = Inr got"
| "read_chunks max_bytes got (Inl e # cs) = Inl e"
| "read_chunks max_bytes got (Inr c # cs) =
     (if max_bytes < length got + length c then Inl too_large_error
      else read_chunks max_bytes (got @ c) cs)"

text \<open>
  \<open>number_of\<close> is \<open>Number(text)\<close> (\<open>None\<close> for \<open>NaN\<close>); a response without a body reads as empty.
\<close>

definition read_response_bytes ::
  "(string \<Rightarrow> rat option) \<Rightarrow> nat \<Rightarrow> fetch_response \<Rightarrow> fetch_error + byte list" where
  "read_response_bytes number_of max_bytes r =
     (let too_long = (case fr_header r ''content-length'' of
            None \<Rightarrow> False
          | Some s \<Rightarrow> s \<noteq> [] \<and> (case number_of s of None \<Rightarrow> False | Some q \<Rightarrow> of_nat max_bytes < q))
      in if too_long then Inl too_large_error
         else case fr_body r of None \<Rightarrow> Inr [] | Some cs \<Rightarrow> read_chunks max_bytes [] cs)"

definition response_result ::
  "byte list \<Rightarrow> bool \<Rightarrow> fetch_redirect list \<Rightarrow> fetch_response \<Rightarrow> web_url \<Rightarrow> fetch_result" where
  "response_result bytes not_modified redirects r u =
     \<lparr>fb_bytes = bytes,
      fb_content_type = (case fr_header r ''content-type'' of None \<Rightarrow> [] | Some t \<Rightarrow> t),
      fb_etag = safe_header_value (fr_header r ''etag''),
      fb_last_modified = safe_header_value (fr_header r ''last-modified''),
      fb_not_modified = not_modified, fb_redirects = redirects, fb_status = fr_status r, fb_url = u\<rparr>"

subsection \<open>Requests\<close>

record fetch_options =
  fo_max_bytes :: nat
  fo_timeout_ms :: int
  fo_total_timeout_ms :: int
  fo_allow_not_modified :: bool
  fo_if_none_match :: "string option"
  fo_if_modified_since :: "string option"
  fo_accept :: "string option"
  fo_user_agent :: "string option"

definition request_headers :: "fetch_options \<Rightarrow> (string \<times> string) list" where
  "request_headers opts =
     [(''accept'', case fo_accept opts of Some a \<Rightarrow> a
         | None \<Rightarrow> ''application/rss+xml, application/atom+xml, application/xml, text/xml, text/html;q=0.9, */*;q=0.5''),
      (''user-agent'', case fo_user_agent opts of Some a \<Rightarrow> a
         | None \<Rightarrow> ''ArcticRSS/0.1 (+https://arcticrss.com)'')] @
     (case safe_header_value (fo_if_none_match opts) of None \<Rightarrow> [] | Some v \<Rightarrow> [(''if-none-match'', v)]) @
     (case safe_header_value (fo_if_modified_since opts) of None \<Rightarrow> [] | Some v \<Rightarrow> [(''if-modified-since'', v)])"

text \<open>Where a request goes: the pinned address, or the fixture server of the end-to-end tests.\<close>

datatype request_target = Pinned web_url public_address | Fixture web_url

definition e2e_fixture_target ::
  "url_parser \<Rightarrow> (string \<Rightarrow> string option) \<Rightarrow> web_url \<Rightarrow> fetch_error + web_url option" where
  "e2e_fixture_target p env u =
     (if env ''ARCTIC_RSS_E2E_FIXTURES'' \<noteq> Some ''1'' then Inr None
      else case env ''ARCTIC_RSS_E2E_FEED_HOST'' of
        None \<Rightarrow> Inr None
      | Some host \<Rightarrow>
          (let fixture_host = js_lower (js_trim host)
           in if fixture_host = [] \<or> normalize_hostname (wu_hostname u) \<noteq> fixture_host then Inr None
              else case env ''ARCTIC_RSS_E2E_FEED_ORIGIN'' of
                None \<Rightarrow> Inl (Feed_Fetch_Error ''The E2E feed fixture origin is not configured.'')
              | Some raw \<Rightarrow>
                  if js_trim raw = []
                  then Inl (Feed_Fetch_Error ''The E2E feed fixture origin is not configured.'')
                  else case up_parse p (js_trim raw) of
                    None \<Rightarrow> Inl (Feed_Fetch_Error ''The E2E feed fixture origin is invalid.'')
                  | Some origin \<Rightarrow>
                      if wu_protocol origin \<noteq> ''http:'' \<or> wu_hostname origin \<noteq> ''127.0.0.1''
                      then Inl (Feed_Fetch_Error ''The E2E feed fixture origin must be loopback HTTP.'')
                      else case up_resolve p (wu_path_search u) origin of
                        None \<Rightarrow> Inl (Other_Error ''Invalid URL'')
                      | Some t \<Rightarrow> Inr (Some t)))"

datatype fetch_event =
    Took_Slot string
  | Sent request_target "(string \<times> string) list"
  | Freed_Slot string

text \<open>
  What a call depends on: attempt \<open>k\<close> of the loop resolves by \<open>fc_lookup k\<close>, unless its signal fires
  first (\<open>fc_resolve_timeout k\<close>); waiting for the slot of the host or for a global slot may fail
  (\<open>fc_slot_error k\<close>, \<open>fc_global_error k\<close>); \<open>fc_send k\<close> is the transport; \<open>fc_aborted k\<close> says whether the signal has fired when an error is caught. The clock is
  read once for the deadline (reading 0) and once in each attempt (reading \<open>k + 1\<close>).
\<close>

record fetch_call =
  fc_parser :: url_parser
  fc_environment :: "string \<Rightarrow> string option"
  fc_number_of :: "string \<Rightarrow> rat option"
  fc_options :: fetch_options
  fc_now :: "nat \<Rightarrow> time"
  fc_lookup :: "nat \<Rightarrow> string \<Rightarrow> string list option"
  fc_resolve_timeout :: "nat \<Rightarrow> bool"
  fc_slot_error :: "nat \<Rightarrow> fetch_error option"
  fc_global_error :: "nat \<Rightarrow> fetch_error option"
  fc_send :: "nat \<Rightarrow> request_target \<Rightarrow> fetch_error + fetch_response"
  fc_aborted :: "nat \<Rightarrow> bool"

datatype attempt_outcome = Answered fetch_result | Redirected web_url fetch_redirect | Failed fetch_error

text \<open>The answer of a response: not modified, a redirect, an error status, or the bytes.\<close>

definition handle_response ::
  "fetch_call \<Rightarrow> web_url \<Rightarrow> fetch_redirect list \<Rightarrow> fetch_response \<Rightarrow> attempt_outcome" where
  "handle_response c u redirects r =
     (if fr_status r = 304 \<and> fo_allow_not_modified (fc_options c)
      then Answered (response_result [] True redirects r u)
      else if 300 \<le> fr_status r \<and> fr_status r < 400
      then (case fr_header r ''location'' of
              None \<Rightarrow> Failed (Feed_Fetch_Error ''The URL redirected without a Location header.'')
            | Some location \<Rightarrow>
                if location = []
                then Failed (Feed_Fetch_Error ''The URL redirected without a Location header.'')
                else case up_resolve (fc_parser c) location u of
                  None \<Rightarrow> Failed (Other_Error ''Invalid URL'')
                | Some t \<Rightarrow>
                    (case normalize_http_url (fc_parser c) (wu_href t) of
                       Inl e \<Rightarrow> Failed e
                     | Inr next_url \<Rightarrow> Redirected next_url
                         \<lparr>rd_from = wu_href u, rd_status = fr_status r, rd_to = wu_href next_url\<rparr>))
      else if \<not> (200 \<le> fr_status r \<and> fr_status r < 300)
      then Failed (Feed_Fetch_Error (''The URL returned HTTP '' @ to_base 10 (fr_status r) @ ''.''))
      else case read_response_bytes (fc_number_of c) (fo_max_bytes (fc_options c)) r of
        Inl e \<Rightarrow> Failed e
      | Inr bytes \<Rightarrow> Answered (response_result bytes False redirects r u))"

text \<open>The body of the \<open>try\<close> block and the \<open>finally\<close> that frees the slot.\<close>

definition fetch_attempt ::
  "fetch_call \<Rightarrow> nat \<Rightarrow> web_url \<Rightarrow> fetch_redirect list \<Rightarrow> attempt_outcome \<times> fetch_event list" where
  "fetch_attempt c k u redirects =
     (if fc_resolve_timeout c k then (Failed Timeout_Error, [])
      else case assert_url_resolves_publicly (fc_lookup c k) u of
        Inl e \<Rightarrow> (Failed e, [])
      | Inr address \<Rightarrow>
          (case fc_slot_error c k of
             Some e \<Rightarrow> (Failed e, [])
           | None \<Rightarrow>
               (let host = normalize_hostname (wu_hostname u)
                in case fc_global_error c k of
                     Some e \<Rightarrow> (Failed e, [Took_Slot host, Freed_Slot host])
                   | None \<Rightarrow>
                       (case e2e_fixture_target (fc_parser c) (fc_environment c) u of
                          Inl e \<Rightarrow> (Failed e, [Took_Slot host, Freed_Slot host])
                        | Inr fixture \<Rightarrow>
                            let target = (case fixture of None \<Rightarrow> Pinned u address | Some t \<Rightarrow> Fixture t);
                                sent = Sent target (request_headers (fc_options c))
                            in ((case fc_send c k target of
                                   Inl e \<Rightarrow> Failed e
                                 | Inr r \<Rightarrow> handle_response c u redirects r),
                                [Took_Slot host, sent, Freed_Slot host])))))"

definition catch_error :: "fetch_call \<Rightarrow> nat \<Rightarrow> fetch_error \<Rightarrow> fetch_error" where
  "catch_error c k e =
     (if e = Response_Too_Large then too_large_error
      else if fc_aborted c k \<or> e = Timeout_Error then Feed_Fetch_Error ''The URL request timed out.''
      else e)"

definition remaining_ms :: "fetch_call \<Rightarrow> nat \<Rightarrow> int" where
  "remaining_ms c k = min (fo_timeout_ms (fc_options c))
     (fc_now c 0 + fo_total_timeout_ms (fc_options c) - fc_now c (k + 1))"

fun fetch_loop ::
  "fetch_call \<Rightarrow> nat \<Rightarrow> nat \<Rightarrow> web_url \<Rightarrow> fetch_redirect list \<Rightarrow> (fetch_error + fetch_result) \<times> fetch_event list" where
  "fetch_loop c 0 k u redirects = (Inl (Feed_Fetch_Error ''The URL redirected too many times.''), [])"
| "fetch_loop c (Suc n) k u redirects =
     (if remaining_ms c k \<le> 0 then (Inl (Feed_Fetch_Error ''The URL request timed out.''), [])
      else case fetch_attempt c k u redirects of
        (Answered r, evs) \<Rightarrow> (Inr r, evs)
      | (Failed e, evs) \<Rightarrow> (Inl (catch_error c k e), evs)
      | (Redirected u' rd, evs) \<Rightarrow>
          (let (res, evs') = fetch_loop c n (k + 1) u' (redirects @ [rd]) in (res, evs @ evs')))"

definition safe_fetch_bytes :: "fetch_call \<Rightarrow> web_url \<Rightarrow> (fetch_error + fetch_result) \<times> fetch_event list" where
  "safe_fetch_bytes c u = fetch_loop c (max_redirects + 1) 0 u []"

subsection \<open>Properties\<close>

text \<open>What the checks of a URL guarantee.\<close>

definition url_ok :: "web_url \<Rightarrow> bool" where
  "url_ok u \<longleftrightarrow>
     (wu_protocol u = ''http:'' \<or> wu_protocol u = ''https:'') \<and>
     wu_username u = [] \<and> wu_password u = [] \<and>
     (wu_port u = [] \<or> wu_port u = (if wu_protocol u = ''http:'' then ''80'' else ''443'')) \<and>
     wu_hash u = [] \<and> assert_public_hostname (wu_hostname u) = Inr ()"

lemma normalized_url_ok: "normalize_http_url p input = Inr u \<Longrightarrow> url_ok u"
  by (auto simp: normalize_http_url_def Let_def url_ok_def bindR_eq_Inr split: if_splits option.splits)

definition public_target :: "public_address \<Rightarrow> bool" where
  "public_target a \<longleftrightarrow> \<not> is_private_ip_address (pa_address a) \<and> pa_family a = net_is_ip (pa_address a) \<and>
     (pa_family a = 4 \<or> pa_family a = 6)"

lemma net_is_ip_family: "net_is_ip a \<noteq> 0 \<Longrightarrow> net_is_ip a = 4 \<or> net_is_ip a = 6"
  by (simp add: net_is_ip_def split: if_splits)

lemma public_addresses_all:
  "public_addresses as = Inr ps \<Longrightarrow> list_all public_target ps \<and> map pa_address ps = as"
  by (induction as arbitrary: ps)
    (auto simp: bindR_eq_Inr public_target_def net_is_ip_family split: if_splits)

text \<open>The address a request is pinned to: public, and an answer of the one lookup that was checked.\<close>

definition address_for :: "(string \<Rightarrow> string list option) \<Rightarrow> web_url \<Rightarrow> public_address \<Rightarrow> bool" where
  "address_for lookup u a \<longleftrightarrow> public_target a \<and>
     (pa_address a = normalize_hostname (wu_hostname u) \<or>
      (\<exists>as. lookup (normalize_hostname (wu_hostname u)) = Some as \<and> pa_address a \<in> set as \<and>
         list_all (\<lambda>x. \<not> is_private_ip_address x) as))"

lemma resolved_address:
  assumes "assert_url_resolves_publicly lookup u = Inr a" "CHR ''%'' \<notin> set (wu_hostname u)"
  shows "address_for lookup u a"
proof -
  let ?h = "normalize_hostname (wu_hostname u)"
  have public: "assert_public_hostname ?h = Inr ()"
    using assms(1) by (auto simp: assert_url_resolves_publicly_def Let_def bindR_eq_Inr)
  show ?thesis
  proof (cases "net_is_ip ?h = 0")
    case False
    then have a: "a = \<lparr>pa_address = ?h, pa_family = net_is_ip ?h\<rparr>"
      using assms(1) public by (simp add: assert_url_resolves_publicly_def Let_def)
    have "\<not> is_private_ip_address ?h"
      using public False normalize_literal_twice [OF False assms(2)]
      by (auto simp: assert_public_hostname_def Let_def split: if_splits)
    then show ?thesis
      using a False by (simp add: address_for_def public_target_def net_is_ip_family)
  next
    case True
    then obtain b bs ps where l: "lookup ?h = Some (b # bs)" "public_addresses (b # bs) = Inr ps" "a = hd ps"
      using assms(1) public
      by (auto simp: assert_url_resolves_publicly_def Let_def bindR_eq_Inr split: option.splits list.splits)
    then have ps: "list_all public_target ps" "map pa_address ps = b # bs" using public_addresses_all by blast+
    then obtain q qs where q: "ps = q # qs" by (cases ps) auto
    have "list_all (\<lambda>x. \<not> is_private_ip_address x) (map pa_address ps)"
      using ps(1) by (simp add: list_all_iff public_target_def)
    then show ?thesis
      using l ps q unfolding address_for_def by auto
  qed
qed

text \<open>
  The documented guarantee of the URL parser (WHATWG URL): the host name of a parsed URL holds no
  percent sign, so no zone identifier of an IPv6 address either.
\<close>

definition parser_ok :: "url_parser \<Rightarrow> bool" where
  "parser_ok p \<longleftrightarrow> (\<forall>s u. up_parse p s = Some u \<longrightarrow> CHR ''%'' \<notin> set (wu_hostname u))"

lemma normalized_no_percent:
  assumes "parser_ok p" "normalize_http_url p input = Inr u"
  shows "CHR ''%'' \<notin> set (wu_hostname u)"
proof -
  obtain s v where "up_parse p s = Some v" "u = v\<lparr>wu_hash := []\<rparr>"
    using assms(2) by (auto simp: normalize_http_url_def Let_def bindR_eq_Inr split: if_splits option.splits)
  then show ?thesis using assms(1) by (auto simp: parser_ok_def)
qed

definition request_ok :: "fetch_call \<Rightarrow> web_url \<Rightarrow> fetch_event \<Rightarrow> bool" where
  "request_ok c u e \<longleftrightarrow>
     (case e of
        Sent t hs \<Rightarrow> (\<exists>v a k. t = Pinned v a \<and> address_for (fc_lookup c k) v a \<and> (v = u \<or> url_ok v))
      | _ \<Rightarrow> True)"

fun is_sent :: "fetch_event \<Rightarrow> bool" where
  "is_sent (Sent t hs) = True"
| "is_sent _ = False"

lemma no_fixture:
  "env ''ARCTIC_RSS_E2E_FIXTURES'' \<noteq> Some ''1'' \<Longrightarrow> e2e_fixture_target p env u = Inr None"
  by (simp add: e2e_fixture_target_def)

lemma attempt_requests:
  assumes "fc_environment c ''ARCTIC_RSS_E2E_FIXTURES'' \<noteq> Some ''1''" "CHR ''%'' \<notin> set (wu_hostname v)"
    and "v = u \<or> url_ok v" "fetch_attempt c k v redirects = (out, evs)"
  shows "list_all (request_ok c u) evs \<and> length (filter is_sent evs) \<le> 1"
proof (cases "assert_url_resolves_publicly (fc_lookup c k) v")
  case (Inl e)
  then show ?thesis using assms(4) by (auto simp: fetch_attempt_def split: if_splits)
next
  case (Inr a)
  have "address_for (fc_lookup c k) v a" by (rule resolved_address [OF Inr assms(2)])
  then have "request_ok c u (Sent (Pinned v a) hs)" for hs
    using assms(3) by (auto simp: request_ok_def)
  moreover have "request_ok c u (Took_Slot h)" "request_ok c u (Freed_Slot h)" for h
    by (simp_all add: request_ok_def)
  ultimately show ?thesis
    using assms(4) Inr no_fixture [of "fc_environment c", OF assms(1)]
    by (auto simp: fetch_attempt_def Let_def split: if_splits option.splits)
qed

lemma attempt_redirect:
  assumes "fetch_attempt c k v redirects = (Redirected w rd, evs)"
  shows "\<exists>s. normalize_http_url (fc_parser c) s = Inr w"
proof -
  have "handle_response c v redirects r = Redirected w rd \<Longrightarrow> ?thesis" for r
    by (auto simp: handle_response_def split: if_splits option.splits sum.splits)
  then show ?thesis
    using assms by (auto simp: fetch_attempt_def Let_def split: if_splits option.splits sum.splits)
qed

lemma loop_requests:
  assumes env: "fc_environment c ''ARCTIC_RSS_E2E_FIXTURES'' \<noteq> Some ''1''" and p: "parser_ok (fc_parser c)"
    and "CHR ''%'' \<notin> set (wu_hostname v)" "v = u \<or> url_ok v" "fetch_loop c n k v redirects = (res, evs)"
  shows "list_all (request_ok c u) evs \<and> length (filter is_sent evs) \<le> n"
  using assms(3-5)
proof (induction n arbitrary: k v redirects res evs)
  case (Suc n)
  show ?case
  proof (cases "remaining_ms c k \<le> 0")
    case True
    then show ?thesis using Suc.prems(3) by simp
  next
    case False
    obtain out evs1 where at: "fetch_attempt c k v redirects = (out, evs1)" by fastforce
    note one = attempt_requests [OF env Suc.prems(1,2) at]
    show ?thesis
    proof (cases out)
      case (Redirected w rd)
      obtain res2 evs2 where loop: "fetch_loop c n (k + 1) w (redirects @ [rd]) = (res2, evs2)" by fastforce
      obtain s where s: "normalize_http_url (fc_parser c) s = Inr w"
        using attempt_redirect [OF at [unfolded Redirected]] by blast
      have "list_all (request_ok c u) evs2 \<and> length (filter is_sent evs2) \<le> n"
        using Suc.IH [OF normalized_no_percent [OF p s] _ loop] normalized_url_ok [OF s] by blast
      then show ?thesis using Suc.prems(3) False at Redirected loop one by auto
    qed (use Suc.prems(3) False at one in auto)
  qed
qed simp


subsection \<open>Results and slots\<close>

lemma read_chunks_bound:
  "read_chunks m got cs = Inr b \<Longrightarrow> length got \<le> m \<Longrightarrow> length b \<le> m"
  by (induction m got cs rule: read_chunks.induct) (auto split: if_splits)

lemma read_bytes_bound: "read_response_bytes num m r = Inr b \<Longrightarrow> length b \<le> m"
  by (auto simp: read_response_bytes_def Let_def split: if_splits option.splits dest: read_chunks_bound)

definition result_ok :: "fetch_call \<Rightarrow> fetch_result \<Rightarrow> bool" where
  "result_ok c r \<longleftrightarrow> length (fb_bytes r) \<le> fo_max_bytes (fc_options c) \<and>
     (if fb_not_modified r then fb_status r = 304 \<and> fo_allow_not_modified (fc_options c) \<and> fb_bytes r = []
      else 200 \<le> fb_status r \<and> fb_status r < 300)"

lemma attempt_result:
  assumes "fetch_attempt c k u redirects = (Answered r, evs)"
  shows "result_ok c r \<and> fb_url r = u \<and> fb_redirects r = redirects"
proof -
  have "handle_response c u redirects x = Answered r \<Longrightarrow> ?thesis" for x
    by (auto simp: handle_response_def result_ok_def response_result_def dest: read_bytes_bound
        split: if_splits option.splits sum.splits)
  then show ?thesis
    using assms by (auto simp: fetch_attempt_def Let_def split: if_splits option.splits sum.splits)
qed

text \<open>The chain of redirects leads from one URL to the other.\<close>

fun redirect_chain :: "string \<Rightarrow> fetch_redirect list \<Rightarrow> string \<Rightarrow> bool" where
  "redirect_chain a [] b = (a = b)"
| "redirect_chain a (r # rs) b = (rd_from r = a \<and> redirect_chain (rd_to r) rs b)"

lemma redirect_chain_snoc [simp]:
  "redirect_chain a (rs @ [r]) b \<longleftrightarrow> redirect_chain a rs (rd_from r) \<and> rd_to r = b"
  by (induction rs arbitrary: a) auto

lemma attempt_chain:
  assumes "fetch_attempt c k v redirects = (Redirected w rd, evs)"
  shows "rd_from rd = wu_href v \<and> rd_to rd = wu_href w"
proof -
  have "handle_response c v redirects r = Redirected w rd \<Longrightarrow> ?thesis" for r
    by (auto simp: handle_response_def split: if_splits option.splits sum.splits)
  then show ?thesis
    using assms by (auto simp: fetch_attempt_def Let_def split: if_splits option.splits sum.splits)
qed

lemma loop_result:
  assumes "fetch_loop c n k v redirects = (Inr r, evs)" "redirect_chain a redirects (wu_href v)"
  shows "result_ok c r \<and> length (fb_redirects r) < length redirects + n \<and>
    redirect_chain a (fb_redirects r) (wu_href (fb_url r))"
  using assms
proof (induction n arbitrary: k v redirects evs)
  case (Suc n)
  obtain out evs1 where at: "fetch_attempt c k v redirects = (out, evs1)" by fastforce
  show ?case
  proof (cases out)
    case (Answered x)
    then have "x = r" using Suc.prems(1) at by (auto split: if_splits)
    then show ?thesis using attempt_result [OF at [unfolded Answered]] Suc.prems(2) by simp
  next
    case (Redirected w rd)
    obtain res2 evs2 where loop: "fetch_loop c n (k + 1) w (redirects @ [rd]) = (res2, evs2)" by fastforce
    then have "res2 = Inr r" using Suc.prems(1) at Redirected by (auto split: if_splits)
    moreover have "redirect_chain a (redirects @ [rd]) (wu_href w)"
      using attempt_chain [OF at [unfolded Redirected]] Suc.prems(2) by simp
    ultimately show ?thesis using Suc.IH [of "k + 1" w "redirects @ [rd]" evs2] loop by simp
  qed (use Suc.prems(1) at in \<open>auto split: if_splits\<close>)
qed simp

text \<open>C33: A successful fetch returns at most the allowed number of bytes, from a 2xx answer (or an
  allowed 304 without bytes), after at most five redirects whose chain leads from the URL asked for
  to the URL of the result.\<close>

theorem safe_fetch_result:
  assumes "fst (safe_fetch_bytes c u) = Inr r"
  shows "result_ok c r \<and> length (fb_redirects r) \<le> 5 \<and>
    redirect_chain (wu_href u) (fb_redirects r) (wu_href (fb_url r))"
proof -
  obtain evs where "fetch_loop c (max_redirects + 1) 0 u [] = (Inr r, evs)"
    using assms unfolding safe_fetch_bytes_def by (metis surjective_pairing)
  from loop_result [OF this, of "wu_href u"] show ?thesis by (simp add: max_redirects_def)
qed

text \<open>Requests are sent only under a slot, and slots are freed before the next is taken.\<close>

fun slot_run :: "string option \<Rightarrow> fetch_event list \<Rightarrow> bool" where
  "slot_run held [] = (held = None)"
| "slot_run held (Took_Slot h # es) = (held = None \<and> slot_run (Some h) es)"
| "slot_run held (Sent t hs # es) = (held \<noteq> None \<and> slot_run held es)"
| "slot_run held (Freed_Slot h # es) = (held = Some h \<and> slot_run None es)"

lemma slot_run_append: "slot_run h es \<Longrightarrow> slot_run None fs \<Longrightarrow> slot_run h (es @ fs)"
  by (induction h es rule: slot_run.induct) auto

lemma attempt_slots: "slot_run None (snd (fetch_attempt c k u redirects))"
  by (auto simp: fetch_attempt_def Let_def split: sum.split option.split)

text \<open>Whatever happens (DNS failure, abort, error status, too large a body, too many redirects), a
  fetch sends each request while it holds a slot of the host limiter and has given back every slot
  it took when it returns.\<close>

theorem safe_fetch_slots: "slot_run None (snd (safe_fetch_bytes c u))"
proof -
  have "slot_run None (snd (fetch_loop c n k v redirects))" for n k v redirects
  proof (induction n arbitrary: k v redirects)
    case (Suc n)
    obtain out evs1 where at: "fetch_attempt c k v redirects = (out, evs1)" by fastforce
    then have "slot_run None evs1" using attempt_slots [of c k v redirects] by simp
    then show ?case
      using at Suc.IH slot_run_append by (cases out) (auto simp: case_prod_beta)
  qed simp
  then show ?thesis unfolding safe_fetch_bytes_def by blast
qed

subsection \<open>A fetch that follows a redirect\<close>

definition example_url :: "string \<Rightarrow> web_url" where
  "example_url host = \<lparr>wu_protocol = ''https:'', wu_username = [], wu_password = [], wu_port = [],
     wu_hostname = host, wu_path_search = ''/'', wu_href_no_hash = ''https://'' @ host @ ''/'', wu_hash = []\<rparr>"

definition example_fetch :: fetch_call where
  "example_fetch = \<lparr>fc_parser = \<lparr>up_parse = (\<lambda>s. if s = ''https://b.ex/'' then Some (example_url ''b.ex'') else None),
       up_resolve = (\<lambda>l u. if l = ''//b.ex'' then Some (example_url ''b.ex'') else None)\<rparr>,
     fc_environment = (\<lambda>n. None), fc_number_of = (\<lambda>s. None),
     fc_options = \<lparr>fo_max_bytes = 3, fo_timeout_ms = 5, fo_total_timeout_ms = 9, fo_allow_not_modified = False,
       fo_if_none_match = None, fo_if_modified_since = None, fo_accept = None, fo_user_agent = None\<rparr>,
     fc_now = int, fc_lookup = (\<lambda>k h. Some [''8.8.4.4'']), fc_resolve_timeout = (\<lambda>k. False),
     fc_slot_error = (\<lambda>k. None), fc_global_error = (\<lambda>k. None),
     fc_send = (\<lambda>k t. Inr (if k = 0
       then \<lparr>fr_status = 302, fr_header = (\<lambda>n. if n = ''location'' then Some ''//b.ex'' else None), fr_body = None\<rparr>
       else \<lparr>fr_status = 200, fr_header = (\<lambda>n. None), fr_body = Some [Inr [7], Inr [8, 9]]\<rparr>)),
     fc_aborted = (\<lambda>k. False)\<rparr>"

definition example_result :: fetch_result where
  "example_result = \<lparr>fb_bytes = [7, 8, 9], fb_content_type = [], fb_etag = None, fb_last_modified = None,
     fb_not_modified = False,
     fb_redirects = [\<lparr>rd_from = ''https://a.ex/'', rd_status = 302, rd_to = ''https://b.ex/''\<rparr>],
     fb_status = 200, fb_url = example_url ''b.ex''\<rparr>"

lemma example_fetch_runs: "fst (safe_fetch_bytes example_fetch (example_url ''a.ex'')) = Inr example_result"
  by code_simp

lemma example_parser_ok: "parser_ok (fc_parser example_fetch)"
  by (auto simp: parser_ok_def example_fetch_def example_url_def)


lemma safe_fetch_result_witness:
  "result_ok example_fetch example_result \<and> length (fb_redirects example_result) \<le> 5 \<and>
   redirect_chain (wu_href (example_url ''a.ex'')) (fb_redirects example_result) (wu_href (fb_url example_result))"
  by (rule safe_fetch_result [OF example_fetch_runs])

end
