(* ===== verification/Base64_Url.thy ===== *)
theory Base64_Url
  imports Js_String
begin

text \<open>
  \<open>Buffer.from(text).toString("base64url")\<close> and back. A byte is a natural number below 256, a text is
  written in UTF-8 (code units below 256 take one or two bytes). Decoding is defined on the texts
  that consist of characters of the alphabet and answers \<open>None\<close> on any other, whose lenient decoding
  by Node the models that use it take as a parameter.
\<close>

subsection \<open>UTF-8\<close>

definition utf8_char :: "char \<Rightarrow> nat list" where
  "utf8_char c = (if code c < 128 then [code c] else [192 + code c div 64, 128 + code c mod 64])"

definition utf8_encode :: "string \<Rightarrow> nat list" where
  "utf8_encode s = concat (map utf8_char s)"

fun utf8_decode :: "nat list \<Rightarrow> string option" where
  "utf8_decode [] = Some []"
| "utf8_decode [a] = (if a < 128 then Some [char_of a] else None)"
| "utf8_decode (a # b # r) =
     (if a < 128 then map_option ((#) (char_of a)) (utf8_decode (b # r))
      else if (a = 194 \<or> a = 195) \<and> 128 \<le> b \<and> b < 192
      then map_option ((#) (char_of (64 * (a - 192) + (b - 128)))) (utf8_decode r)
      else None)"

lemma utf8_decode_ascii [simp]: "a < 128 \<Longrightarrow> utf8_decode (a # r) = map_option ((#) (char_of a)) (utf8_decode r)"
  by (cases r) auto

lemma utf8_char_high:
  assumes "128 \<le> n" "n < 256"
  shows "192 + n div 64 = (194 :: nat) \<or> 192 + n div 64 = 195" "64 * (n div 64) + n mod 64 = n"
  using assms by auto

lemma utf8_round_trip: "utf8_decode (utf8_encode s) = Some s"
proof (induction s)
  case (Cons c s)
  show ?case
  proof (cases "code c < 128")
    case True
    then show ?thesis using Cons by (simp add: utf8_encode_def utf8_char_def)
  next
    case False
    then have h: "192 + code c div 64 = 194 \<or> 192 + code c div 64 = 195"
      "64 * (code c div 64) + code c mod 64 = code c"
      using utf8_char_high [of "code c"] by simp_all
    have "code c mod 64 < 64" by simp
    then show ?thesis using Cons h False
      by (simp add: utf8_encode_def utf8_char_def)
  qed
qed (simp add: utf8_encode_def)

lemma utf8_bytes: "b \<in> set (utf8_encode s) \<Longrightarrow> b < 256"
proof -
  have "b < 256" if "b \<in> set (utf8_char c)" for c
  proof -
    have "code c div 64 < 4" "code c mod 64 < 64" by (simp_all add: div_less_iff_less_mult)
    then show ?thesis using that by (auto simp: utf8_char_def split: if_splits)
  qed
  then show "b \<in> set (utf8_encode s) \<Longrightarrow> b < 256" by (auto simp: utf8_encode_def)
qed

subsection \<open>The alphabet\<close>

definition sextet_char :: "nat \<Rightarrow> char" where
  "sextet_char n = (if n < 26 then char_of (65 + n) else if n < 52 then char_of (71 + n)
     else if n < 62 then char_of (n - 4) else if n = 62 then CHR ''-'' else CHR ''_'')"

definition char_sextet :: "char \<Rightarrow> nat option" where
  "char_sextet c = (if is_upper_az c then Some (code c - 65) else if is_lower_az c then Some (code c - 71)
     else if is_digit c then Some (code c + 4) else if c = CHR ''-'' then Some 62
     else if c = CHR ''_'' then Some 63 else None)"

lemma sextet_round_trip [simp]: "n < 64 \<Longrightarrow> char_sextet (sextet_char n) = Some n"
proof -
  assume "n < 64"
  then consider "n < 26" | "26 \<le> n" "n < 52" | "52 \<le> n" "n < 62" | "n = 62" | "n = 63" by linarith
  then show ?thesis
  proof cases
    case 3
    then obtain k where k: "n = k + 4" "48 \<le> k" "k \<le> 57"
      by (intro that [of "n - 4"]) auto
    have "code (char_of k) = k" using k by (intro code_char_of) simp
    then show ?thesis using k
      by (simp add: char_sextet_def sextet_char_def is_upper_az_def is_lower_az_def is_digit_def)
  qed (simp_all add: char_sextet_def sextet_char_def is_upper_az_def is_lower_az_def is_digit_def code_def)
qed

subsection \<open>Groups of three bytes\<close>

fun sextets :: "nat list \<Rightarrow> nat list" where
  "sextets [] = []"
| "sextets [a] = [a div 4, a mod 4 * 16]"
| "sextets [a, b] = [a div 4, a mod 4 * 16 + b div 16, b mod 16 * 4]"
| "sextets (a # b # c # r) =
     [a div 4, a mod 4 * 16 + b div 16, b mod 16 * 4 + c div 64, c mod 64] @ sextets r"

fun bytes_of_sextets :: "nat list \<Rightarrow> nat list" where
  "bytes_of_sextets (p # q # r # s # t) =
     [p * 4 + q div 16, q mod 16 * 16 + r div 4, r mod 4 * 64 + s] @ bytes_of_sextets t"
| "bytes_of_sextets [p, q, r] = [p * 4 + q div 16, q mod 16 * 16 + r div 4]"
| "bytes_of_sextets [p, q] = [p * 4 + q div 16]"
| "bytes_of_sextets _ = []"

definition base64url_encode :: "nat list \<Rightarrow> string" where
  "base64url_encode bs = map sextet_char (sextets bs)"

definition base64url_decode :: "string \<Rightarrow> nat list option" where
  "base64url_decode s =
     (if list_all (\<lambda>c. char_sextet c \<noteq> None) s then Some (bytes_of_sextets (map (the \<circ> char_sextet) s))
      else None)"

lemma split_byte:
  fixes a :: nat
  shows "a div 4 * 4 + (a mod 4 * 16 + b) div 16 = a + b div 16"
    and "c < 16 \<Longrightarrow> (a mod 4 * 16 + c) mod 16 = c"
    and "d < 4 \<Longrightarrow> (b mod 16 * 4 + d) div 4 = b mod 16" "d < 4 \<Longrightarrow> (b mod 16 * 4 + d) mod 4 = d"
proof -
  have "(a mod 4 * 16 + b) div 16 = a mod 4 + b div 16" by simp
  then show "a div 4 * 4 + (a mod 4 * 16 + b) div 16 = a + b div 16" by simp
  show "c < 16 \<Longrightarrow> (a mod 4 * 16 + c) mod 16 = c" by simp
  show "d < 4 \<Longrightarrow> (b mod 16 * 4 + d) div 4 = b mod 16" by simp
  show "d < 4 \<Longrightarrow> (b mod 16 * 4 + d) mod 4 = d" by simp
qed

lemma sextets_bytes: "\<forall>b \<in> set bs. b < 256 \<Longrightarrow> bytes_of_sextets (sextets bs) = bs"
proof (induction bs rule: sextets.induct)
  case (2 a)
  then show ?case using split_byte(1) [of a 0] by simp
next
  case (3 a b)
  then have "b div 16 < 16" by (simp add: div_less_iff_less_mult)
  then show ?case using split_byte(1) [of a "b div 16"] split_byte(2) [of "b div 16" a] split_byte(3) [of 0 b]
    by simp
next
  case (4 a b c r)
  then have "b div 16 < 16" "c div 64 < 4" by (simp_all add: div_less_iff_less_mult)
  then show ?case using 4 split_byte(1) [of a "b div 16"] split_byte(2) [of "b div 16" a]
      split_byte(3,4) [of "c div 64" b] by simp
qed simp

lemma sextets_small: "\<forall>b \<in> set bs. b < 256 \<Longrightarrow> x \<in> set (sextets bs) \<Longrightarrow> x < 64"
proof (induction bs rule: sextets.induct)
  case (2 a)
  have "a mod 4 < 4" "a div 4 < 64" using 2 by (simp_all add: div_less_iff_less_mult)
  then show ?case using 2 by auto
next
  case (3 a b)
  have "a mod 4 < 4" "b mod 16 < 16" "a div 4 < 64" "b div 16 < 16"
    using 3 by (simp_all add: div_less_iff_less_mult)
  then show ?case using 3(2) by auto
next
  case (4 a b c r)
  have "a mod 4 < 4" "b mod 16 < 16" "a div 4 < 64" "b div 16 < 16" "c div 64 < 4" "c mod 64 < 64"
    using 4(2) by (simp_all add: div_less_iff_less_mult)
  then show ?case using 4 by auto
qed simp

lemma base64url_round_trip:
  assumes "\<forall>b \<in> set bs. b < 256"
  shows "base64url_decode (base64url_encode bs) = Some bs"
proof -
  have small: "\<forall>x \<in> set (sextets bs). x < 64" using sextets_small [OF assms] by blast
  then have "map (the \<circ> char_sextet \<circ> sextet_char) (sextets bs) = sextets bs"
    by (intro map_idI) simp
  then show ?thesis
    using small sextets_bytes [OF assms]
    by (auto simp: base64url_decode_def base64url_encode_def list_all_iff)
qed

lemma length_base64url: "3 * length (base64url_encode bs) \<le> 4 * length bs + 2"
  unfolding base64url_encode_def length_map by (induction bs rule: sextets.induct) auto

text \<open>The text of a string and back.\<close>

definition text_of_base64url :: "string \<Rightarrow> string option" where
  "text_of_base64url s = Option.bind (base64url_decode s) utf8_decode"

definition base64url_of_text :: "string \<Rightarrow> string" where
  "base64url_of_text t = base64url_encode (utf8_encode t)"

lemma base64url_text [simp]: "text_of_base64url (base64url_of_text t) = Some t"
  using utf8_bytes [of _ t]
  by (simp add: text_of_base64url_def base64url_of_text_def base64url_round_trip utf8_round_trip)

lemma base64url_chars: "c \<in> set (base64url_of_text t) \<Longrightarrow> char_sextet c \<noteq> None"
  using sextets_small [of "utf8_encode t"] utf8_bytes [of _ t]
  by (auto simp: base64url_of_text_def base64url_encode_def)

lemma base64url_no_dot: "CHR ''.'' \<notin> set (base64url_of_text t)"
proof -
  have "char_sextet CHR ''.'' = None"
    by (simp add: char_sextet_def is_upper_az_def is_lower_az_def is_digit_def code_def)
  then show ?thesis using base64url_chars by metis
qed

lemma sextet_not_dot: "sextet_char n \<noteq> CHR ''.''"
proof
  assume "sextet_char n = CHR ''.''"
  then have "code (sextet_char n) = 46" by (simp add: code_def)
  moreover have "n < 26 \<or> (26 \<le> n \<and> n < 52) \<or> (52 \<le> n \<and> n < 62) \<or> n = 62 \<or> 62 < n" by linarith
  ultimately show False
    by (elim disjE) (auto simp: sextet_char_def code_def split: if_splits)
qed

lemma base64url_encode_no_dot: "CHR ''.'' \<notin> set (base64url_encode bs)"
  using sextet_not_dot by (fastforce simp: base64url_encode_def dest: sym)

end
