(* ===== verification/Json.thy ===== *)
theory Json
  imports Js_Number
begin

text \<open>
  \<open>JSON.stringify\<close> and \<open>JSON.parse\<close>. A number keeps its text (\<open>JNum\<close>); the models that compare
  one with a number read the text with \<open>js_number\<close>, exact for integers. An object is the list of
  its members in order, and a repeated key counts with its last value, as after \<open>JSON.parse\<close>.
  An escape of a code unit above 255 is outside the texts of the model.
\<close>

datatype json =
    JNull
  | JBool bool
  | JNum string
  | JStr string
  | JArr "json list"
  | JObj "(string \<times> json) list"

subsection \<open>Printing\<close>

definition escape_char :: "char \<Rightarrow> string" where
  "escape_char c =
     (if code c = 34 then [CHR 0x5C, CHR 0x22] else if code c = 92 then [CHR 0x5C, CHR 0x5C]
      else if code c = 8 then [CHR 0x5C, CHR ''b''] else if code c = 12 then [CHR 0x5C, CHR ''f'']
      else if code c = 10 then [CHR 0x5C, CHR ''n''] else if code c = 13 then [CHR 0x5C, CHR ''r'']
      else if code c = 9 then [CHR 0x5C, CHR ''t'']
      else if code c < 32 then [CHR 0x5C, CHR ''u'', CHR ''0'', CHR ''0'',
        digit_char (code c div 16), digit_char (code c mod 16)]
      else [c])"

definition quote_text :: "string \<Rightarrow> string" where
  "quote_text s = CHR 0x22 # concat (map escape_char s) @ [CHR 0x22]"

fun json_text :: "json \<Rightarrow> string"
  and items_text :: "json list \<Rightarrow> string"
  and members_text :: "(string \<times> json) list \<Rightarrow> string" where
  "json_text JNull = ''null''"
| "json_text (JBool b) = (if b then ''true'' else ''false'')"
| "json_text (JNum n) = n"
| "json_text (JStr s) = quote_text s"
| "json_text (JArr xs) = CHR ''['' # items_text xs @ '']''"
| "json_text (JObj ms) = CHR ''{'' # members_text ms @ ''}''"
| "items_text [] = []"
| "items_text [x] = json_text x"
| "items_text (x # xs) = json_text x @ CHR '','' # items_text xs"
| "members_text [] = []"
| "members_text [(k, x)] = quote_text k @ CHR '':'' # json_text x"
| "members_text ((k, x) # ms) = quote_text k @ CHR '':'' # json_text x @ CHR '','' # members_text ms"

subsection \<open>Parsing\<close>

definition json_space :: "char \<Rightarrow> bool" where
  "json_space c \<longleftrightarrow> code c = 32 \<or> code c = 9 \<or> code c = 10 \<or> code c = 13"

definition skip_space :: "string \<Rightarrow> string" where
  "skip_space s = dropWhile json_space s"

definition unescape_char :: "char \<Rightarrow> char option" where
  "unescape_char e =
     (if e = CHR 0x22 \<or> e = CHR 0x5C \<or> e = CHR ''/'' then Some e
      else if e = CHR ''b'' then Some (CHR 0x08) else if e = CHR ''f'' then Some (CHR 0x0C)
      else if e = CHR ''n'' then Some (CHR 0x0A) else if e = CHR ''r'' then Some (CHR 0x0D)
      else if e = CHR ''t'' then Some (CHR 0x09) else None)"

text \<open>The rest of a string literal after its opening quote.\<close>

fun parse_string :: "string \<Rightarrow> (string \<times> string) option" where
  "parse_string [] = None"
| "parse_string (c # s) =
     (if c = CHR 0x22 then Some ([], s)
      else if code c < 32 then None
      else if c \<noteq> CHR 0x5C then map_option (\<lambda>(t, r). (c # t, r)) (parse_string s)
      else (case s of
          CHR ''u'' # p # q # x # y # r \<Rightarrow>
            if p = CHR ''0'' \<and> q = CHR ''0'' \<and> is_hex_digit x \<and> is_hex_digit y
            then map_option (\<lambda>(t, r'). (char_of (digit_value x * 16 + digit_value y) # t, r')) (parse_string r)
            else None
        | e # r \<Rightarrow>
            (case unescape_char e of
               None \<Rightarrow> None
             | Some d \<Rightarrow> map_option (\<lambda>(t, r'). (d # t, r')) (parse_string r))
        | [] \<Rightarrow> None))"

text \<open>\<open>-?(0|[1-9][0-9]*)(\.[0-9]+)?([eE][+-]?[0-9]+)?\<close> at the front of a text.\<close>

definition digits_front :: "string \<Rightarrow> string \<times> string" where
  "digits_front s = (takeWhile is_digit s, dropWhile is_digit s)"

definition parse_int_part :: "string \<Rightarrow> (string \<times> string) option" where
  "parse_int_part s =
     (case s of
        [] \<Rightarrow> None
      | c # r \<Rightarrow> if c = CHR ''0'' then Some ([c], r)
          else if is_digit c then Some (digits_front s) else None)"

definition parse_frac_part :: "string \<Rightarrow> (string \<times> string) option" where
  "parse_frac_part s =
     (case s of
        [] \<Rightarrow> Some ([], [])
      | c # r \<Rightarrow> if c \<noteq> CHR ''.'' then Some ([], s)
          else (let (d, r') = digits_front r in if d = [] then None else Some (c # d, r')))"

definition parse_exp_part :: "string \<Rightarrow> (string \<times> string) option" where
  "parse_exp_part s =
     (case s of
        [] \<Rightarrow> Some ([], [])
      | c # r \<Rightarrow> if c \<noteq> CHR ''e'' \<and> c \<noteq> CHR ''E'' then Some ([], s)
          else
            (let (sign, r1) = (case r of [] \<Rightarrow> ([], []) | x # y \<Rightarrow>
                   if x = CHR ''+'' \<or> x = CHR ''-'' then ([x], y) else ([], r));
                 (d, r2) = digits_front r1
             in if d = [] then None else Some (c # sign @ d, r2)))"

definition parse_number :: "string \<Rightarrow> (string \<times> string) option" where
  "parse_number s =
     (let (sign, s1) = (case s of [] \<Rightarrow> ([], []) | c # r \<Rightarrow> if c = CHR ''-'' then ([c], r) else ([], s))
      in case parse_int_part s1 of None \<Rightarrow> None
       | Some (i, s2) \<Rightarrow> (case parse_frac_part s2 of None \<Rightarrow> None
       | Some (f, s3) \<Rightarrow> (case parse_exp_part s3 of None \<Rightarrow> None
       | Some (e, s4) \<Rightarrow> Some (sign @ i @ f @ e, s4))))"

definition word_front :: "string \<Rightarrow> json \<Rightarrow> string \<Rightarrow> (json \<times> string) option" where
  "word_front w v s = (if starts_with w s then Some (v, drop (length w) s) else None)"

text \<open>A value at the front of a text; the fuel bounds the depth and the lengths, the text's length is enough.\<close>

fun parse_value :: "nat \<Rightarrow> string \<Rightarrow> (json \<times> string) option"
  and parse_items :: "nat \<Rightarrow> string \<Rightarrow> (json list \<times> string) option"
  and parse_members :: "nat \<Rightarrow> string \<Rightarrow> ((string \<times> json) list \<times> string) option" where
  "parse_value 0 s = None"
| "parse_value (Suc n) s =
     (case skip_space s of
        [] \<Rightarrow> None
      | c # r \<Rightarrow>
          if c = CHR 0x22 then map_option (\<lambda>(t, r'). (JStr t, r')) (parse_string r)
          else if c = CHR ''['' then
            (case skip_space r of
               [] \<Rightarrow> None
             | d # r' \<Rightarrow> if d = CHR '']'' then Some (JArr [], r')
                 else map_option (\<lambda>(xs, q). (JArr xs, q)) (parse_items n r))
          else if c = CHR ''{'' then
            (case skip_space r of
               [] \<Rightarrow> None
             | d # r' \<Rightarrow> if d = CHR ''}'' then Some (JObj [], r')
                 else map_option (\<lambda>(ms, q). (JObj ms, q)) (parse_members n r))
          else if c = CHR ''n'' then word_front ''null'' JNull (c # r)
          else if c = CHR ''t'' then word_front ''true'' (JBool True) (c # r)
          else if c = CHR ''f'' then word_front ''false'' (JBool False) (c # r)
          else map_option (\<lambda>(t, r'). (JNum t, r')) (parse_number (c # r)))"
| "parse_items 0 s = None"
| "parse_items (Suc n) s =
     (case parse_value n s of
        None \<Rightarrow> None
      | Some (x, r) \<Rightarrow>
          (case skip_space r of
             [] \<Rightarrow> None
           | d # r' \<Rightarrow> if d = CHR '']'' then Some ([x], r')
               else if d = CHR '','' then map_option (\<lambda>(xs, q). (x # xs, q)) (parse_items n r')
               else None))"
| "parse_members 0 s = None"
| "parse_members (Suc n) s =
     (case skip_space s of
        [] \<Rightarrow> None
      | c # r \<Rightarrow>
          if c \<noteq> CHR 0x22 then None
          else (case parse_string r of
              None \<Rightarrow> None
            | Some (k, r1) \<Rightarrow>
                (case skip_space r1 of
                   [] \<Rightarrow> None
                 | d # r2 \<Rightarrow>
                     if d \<noteq> CHR '':'' then None
                     else (case parse_value n r2 of
                         None \<Rightarrow> None
                       | Some (x, r3) \<Rightarrow>
                           (case skip_space r3 of
                              [] \<Rightarrow> None
                            | e # r4 \<Rightarrow> if e = CHR ''}'' then Some ([(k, x)], r4)
                                else if e = CHR '','' then map_option (\<lambda>(ms, q). ((k, x) # ms, q)) (parse_members n r4)
                                else None)))))"

definition json_parse :: "string \<Rightarrow> json option" where
  "json_parse s =
     (case parse_value (Suc (length s)) s of
        None \<Rightarrow> None
      | Some (v, r) \<Rightarrow> if skip_space r = [] then Some v else None)"

subsection \<open>Reading a value\<close>

definition json_field :: "string \<Rightarrow> json \<Rightarrow> json option" where
  "json_field k v = (case v of JObj ms \<Rightarrow> map_of (rev ms) k | _ \<Rightarrow> None)"

definition json_string :: "json option \<Rightarrow> string option" where
  "json_string v = (case v of Some (JStr s) \<Rightarrow> Some s | _ \<Rightarrow> None)"

text \<open>The value of a number text: the integer a text without fraction and exponent stands for; any
  other text has the value \<open>other\<close> gives it.\<close>

definition js_integer :: "string \<Rightarrow> int option" where
  "js_integer t =
     (let neg = (t \<noteq> [] \<and> hd t = CHR ''-''); d = (if neg then tl t else t)
      in if d \<noteq> [] \<and> list_all is_digit d
         then Some (if neg then - int (of_base 10 d) else int (of_base 10 d)) else None)"

definition int_text :: "int \<Rightarrow> string" where
  "int_text n = (if n < 0 then CHR ''-'' # to_base 10 (nat (- n)) else to_base 10 (nat n))"

lemma js_integer_text [simp]: "js_integer (int_text n) = Some n"
proof (cases "n < 0")
  case True
  have "list_all is_digit (to_base 10 (nat (- n)))" using to_dec_digits by (auto simp: list_all_iff)
  then show ?thesis using True by (simp add: js_integer_def int_text_def of_to_base)
next
  case False
  have d: "list_all is_digit (to_base 10 (nat n))" using to_dec_digits by (auto simp: list_all_iff)
  then have "hd (to_base 10 (nat n)) \<noteq> CHR ''-''"
    by (cases "to_base 10 (nat n)") (auto simp: is_digit_def code_def)
  then show ?thesis using False d by (simp add: js_integer_def int_text_def of_to_base)
qed

subsection \<open>Parsing inverts printing\<close>

lemma parse_plain:
  "32 \<le> code c \<Longrightarrow> code c \<noteq> 34 \<Longrightarrow> code c \<noteq> 92 \<Longrightarrow>
   parse_string (c # u) = map_option (\<lambda>(t, r). (c # t, r)) (parse_string u)"
  by (auto simp: code_def)

lemma char_by_code: "code c = n \<Longrightarrow> c = char_of n"
  using char_of_code [of c] by simp

lemma parse_escaped:
  "parse_string (escape_char c @ u) = map_option (\<lambda>(t, r). (c # t, r)) (parse_string u)"
proof -
  consider (quote) "code c = 34" | (slash) "code c = 92" | (named) "code c \<in> {8, 9, 10, 12, 13}"
    | (control) "code c < 32" "code c \<notin> {8, 9, 10, 12, 13}"
    | (plain) "32 \<le> code c" "code c \<noteq> 34" "code c \<noteq> 92" by fastforce
  then show ?thesis
  proof cases
    case quote
    then have "code c = code (CHR 0x22)" by (simp add: code_def)
    then have "c = CHR 0x22" by (simp add: code_inject)
    then show ?thesis by (simp add: escape_char_def unescape_char_def code_def)
  next
    case slash
    then have "code c = code (CHR 0x5C)" by (simp add: code_def)
    then have "c = CHR 0x5C" by (simp add: code_inject)
    then show ?thesis by (simp add: escape_char_def unescape_char_def code_def)
  next
    case named
    then have "code c \<in> code ` {CHR 0x08, CHR 0x09, CHR 0x0A, CHR 0x0C, CHR 0x0D}"
      by (auto simp: code_def)
    then have "c = CHR 0x08 \<or> c = CHR 0x09 \<or> c = CHR 0x0A \<or> c = CHR 0x0C \<or> c = CHR 0x0D"
      by (auto simp: code_inject)
    then show ?thesis
      by (elim disjE) (simp_all add: escape_char_def unescape_char_def code_def)
  next
    case control
    have small: "code c div 16 < 16" "code c mod 16 < 16" using control(1) by simp_all
    have hex: "digit_value (digit_char (code c div 16)) * 16 + digit_value (digit_char (code c mod 16)) = code c"
      using small by (simp add: digit_value_char div_mult_mod_eq)
    have e: "escape_char c = [CHR 0x5C, CHR ''u'', CHR ''0'', CHR ''0'',
        digit_char (code c div 16), digit_char (code c mod 16)]"
      using control by (simp add: escape_char_def)
    show ?thesis unfolding e using small hex by (simp add: digit_char_hex) (simp add: code_def)
  next
    case plain
    then have "escape_char c = [c]" unfolding escape_char_def by (simp add: not_less)
    then show ?thesis using parse_plain [OF plain] by simp
  qed
qed

lemma parse_quoted [simp]: "parse_string (concat (map escape_char s) @ CHR 0x22 # r) = Some (s, r)"
proof (induction s)
  case (Cons c s)
  then show ?case by (simp add: parse_escaped)
qed simp

definition value_end :: "string \<Rightarrow> bool" where
  "value_end r \<longleftrightarrow> (case r of [] \<Rightarrow> True
     | c # _ \<Rightarrow> \<not> is_digit c \<and> c \<noteq> CHR ''.'' \<and> c \<noteq> CHR ''e'' \<and> c \<noteq> CHR ''E'')"

lemma to_base_front:
  "value_end r \<Longrightarrow> takeWhile is_digit (to_base 10 n @ r) = to_base 10 n \<and> dropWhile is_digit (to_base 10 n @ r) = r"
  using to_dec_digits [of _ n]
  by (cases r) (auto simp: value_end_def takeWhile_append dropWhile_append)

lemma to_base_zero_front:
  assumes "to_base 10 n = CHR ''0'' # t" shows "t = []"
proof -
  have "digit_char m = CHR ''0'' \<Longrightarrow> m < 10 \<Longrightarrow> m = 0" for m
    using digit_value_char [of m] by (simp add: digit_value_def code_def)
  moreover have "to_base 10 m = CHR ''0'' # u \<Longrightarrow> m = 0" for m u
  proof (induction m arbitrary: u rule: less_induct)
    case (less m)
    show ?case
    proof (cases "m < 10")
      case True
      then show ?thesis using less.prems calculation by (simp add: to_base.simps [of 10 m])
    next
      case False
      then obtain c v where cv: "to_base 10 (m div 10) = c # v" by (cases "to_base 10 (m div 10)") auto
      then have "c = CHR ''0''" using less.prems False by (simp add: to_base.simps [of 10 m])
      then have "m div 10 = 0" using less.IH [of "m div 10" v] cv False by simp
      then show ?thesis using False by simp
    qed
  qed
  ultimately have "n = 0" using assms by blast
  then show ?thesis using assms by (simp add: to_base.simps [of 10 0])
qed

lemma parse_int_text: "value_end r \<Longrightarrow> parse_number (int_text n @ r) = Some (int_text n, r)"
proof -
  assume r: "value_end r"
  have int_part: "parse_int_part (to_base 10 m @ r) = Some (to_base 10 m, r)" for m
  proof -
    obtain c t where ct: "to_base 10 m = c # t" by (cases "to_base 10 m") auto
    then have "is_digit c" using to_dec_digits [of c m] by simp
    then show ?thesis
      using ct to_base_zero_front [of m t] to_base_front [OF r, of m]
      by (auto simp: parse_int_part_def digits_front_def)
  qed
  have tail: "parse_frac_part r = Some ([], r)" "parse_exp_part r = Some ([], r)"
    using r by (auto simp: parse_frac_part_def parse_exp_part_def value_end_def split: list.splits)
  show ?thesis
  proof (cases "n < 0")
    case True
    then show ?thesis by (simp add: parse_number_def int_text_def int_part tail)
  next
    case False
    obtain c t where ct: "to_base 10 (nat n) = c # t" by (cases "to_base 10 (nat n)") auto
    then have "c \<noteq> CHR ''-''" using to_dec_digits [of c "nat n"] by (auto simp: is_digit_def code_def)
    have t: "int_text n = to_base 10 (nat n)" using False by (simp add: int_text_def)
    have sign: "(case to_base 10 (nat n) @ r of [] \<Rightarrow> ([], [])
        | d # u \<Rightarrow> if d = CHR ''-'' then ([d], u) else ([], to_base 10 (nat n) @ r)) = ([], to_base 10 (nat n) @ r)"
      using \<open>c \<noteq> CHR ''-''\<close> unfolding ct by simp
    show ?thesis
      unfolding parse_number_def t sign by (simp add: int_part tail)
  qed
qed

text \<open>The values whose numbers are integers in the form they are printed.\<close>

fun json_ok :: "json \<Rightarrow> bool" where
  "json_ok (JNum t) = (\<exists>n. t = int_text n)"
| "json_ok (JArr xs) = list_all json_ok xs"
| "json_ok (JObj ms) = list_all (\<lambda>(k, x). json_ok x) ms"
| "json_ok _ = True"

lemma int_text_start: "\<exists>c r. int_text n = c # r \<and> (c = CHR ''-'' \<or> is_digit c)"
proof (cases "n < 0")
  case False
  obtain c t where ct: "to_base 10 (nat n) = c # t" by (cases "to_base 10 (nat n)") auto
  then show ?thesis using False to_dec_digits [of c "nat n"] by (simp add: int_text_def)
qed (simp add: int_text_def)

lemma json_text_start:
  assumes "json_ok v"
  shows "\<exists>c r. json_text v = c # r \<and> \<not> json_space c \<and> c \<noteq> CHR '']'' \<and> c \<noteq> CHR ''}''"
proof (cases v)
  case (JNum t)
  then obtain n where "t = int_text n" using assms by auto
  then show ?thesis using JNum int_text_start [of n]
    by (auto simp: json_space_def is_digit_def code_def)
qed (auto simp: json_space_def code_def quote_text_def)

lemma skip_nonspace [simp]: "\<not> json_space c \<Longrightarrow> skip_space (c # s) = c # s"
  by (simp add: skip_space_def)

lemma punctuation_not_space [simp]:
  "\<not> json_space CHR '']''" "\<not> json_space CHR ''}''" "\<not> json_space CHR '',''" "\<not> json_space CHR '':''"
  "\<not> json_space CHR ''[''" "\<not> json_space CHR ''{''" "\<not> json_space CHR 0x22" "\<not> json_space CHR ''n''"
  "\<not> json_space CHR ''t''" "\<not> json_space CHR ''f''"
  by (simp_all add: json_space_def code_def)

lemma value_end_punctuation [simp]:
  "value_end (CHR '']'' # r)" "value_end (CHR ''}'' # r)" "value_end (CHR '','' # r)"
  by (simp_all add: value_end_def is_digit_def code_def)

lemma json_text_nonempty: "json_ok v \<Longrightarrow> 0 < length (json_text v)"
  using json_text_start [of v] by auto

lemma number_word_front:
  assumes "value_end r"
  shows "parse_value (Suc n) (int_text k @ r) = Some (JNum (int_text k), r)"
proof -
  obtain c t where ct: "int_text k = c # t" "c = CHR ''-'' \<or> is_digit c" using int_text_start by blast
  then have "\<not> json_space c" "c \<noteq> CHR 0x22" "c \<noteq> CHR ''[''" "c \<noteq> CHR ''{''" "c \<noteq> CHR ''n''"
    "c \<noteq> CHR ''t''" "c \<noteq> CHR ''f''"
    by (auto simp: json_space_def is_digit_def code_def)
  then show ?thesis using parse_int_text [OF assms, of k] by (simp add: ct(1))
qed

lemma quote_front: "quote_text s @ r = CHR 0x22 # concat (map escape_char s) @ CHR 0x22 # r"
  by (simp add: quote_text_def)

lemma parse_text:
  "json_ok v \<Longrightarrow> length (json_text v) \<le> n \<Longrightarrow> value_end r \<Longrightarrow> parse_value n (json_text v @ r) = Some (v, r)"
  "list_all json_ok xs \<Longrightarrow> xs \<noteq> [] \<Longrightarrow> length (items_text xs) < n \<Longrightarrow>
    parse_items n (items_text xs @ CHR '']'' # r) = Some (xs, r)"
  "list_all (\<lambda>(k, x). json_ok x) ms \<Longrightarrow> ms \<noteq> [] \<Longrightarrow> length (members_text ms) < n \<Longrightarrow>
    parse_members n (members_text ms @ CHR ''}'' # r) = Some (ms, r)"
proof (induction v and xs and ms arbitrary: n r and n r and n r rule: json_text_items_text_members_text.induct)
  case 1
  then show ?case by (cases n) (auto simp: word_front_def starts_with_def)
next
  case (2 b)
  then show ?case by (cases n; cases b) (auto simp: word_front_def starts_with_def)
next
  case (3 t)
  then obtain k m where "t = int_text k" "n = Suc m"
    using json_text_nonempty [of "JNum t"] by (cases n) auto
  then show ?case using number_word_front 3 by simp
next
  case (4 t)
  then show ?case by (cases n) (auto simp: quote_text_def)
next
  case (5 xs)
  then obtain m where n: "n = Suc m" by (cases n) auto
  show ?case
  proof (cases "xs = []")
    case False
    then obtain x ys where xs: "xs = x # ys" by (cases xs) auto
    then obtain c t where ct: "items_text xs = c # t" "\<not> json_space c" "c \<noteq> CHR '']''"
      using json_text_start [of x] 5(2) by (cases ys) auto
    then show ?thesis using 5 n False by simp
  qed (use n in simp)
next
  case (6 ms)
  then obtain m where n: "n = Suc m" by (cases n) auto
  show ?case
  proof (cases "ms = []")
    case False
    then obtain k x ys where ms: "ms = (k, x) # ys" by (cases ms) auto
    then have "members_text ms = CHR 0x22 # tl (members_text ms)" by (cases ys) (auto simp: quote_text_def)
    then show ?thesis using 6 n False by (cases "members_text ms") auto
  qed (use n in simp)
next
  case (8 x)
  then obtain m where n: "n = Suc m" by (cases n) auto
  then show ?case using 8 by simp
next
  case (9 x y ys)
  then obtain m where n: "n = Suc m" by (cases n) auto
  have "0 < length (json_text x)" using 9(3) json_text_nonempty by simp
  then show ?case using 9 n by simp
next
  case (11 k x)
  then obtain m where n: "n = Suc m" by (cases n) auto
  then show ?case using 11 by (simp add: quote_front)
next
  case (12 k x y ys)
  then obtain m where n: "n = Suc m" by (cases n) auto
  have "0 < length (json_text x)" using 12(3) json_text_nonempty by simp
  then show ?case using 12 n by (simp add: quote_front)
qed auto

lemma json_round_trip: "json_ok v \<Longrightarrow> json_parse (json_text v) = Some v"
  using parse_text(1) [of v "Suc (length (json_text v))" "[]"]
  by (simp add: json_parse_def value_end_def skip_space_def)

end
