(* ===== verification/Iso_Date.thy ===== *)
theory Iso_Date
  imports Calendar Js_Number
begin

text \<open>
  \<open>Date.prototype.toISOString\<close> and the constructor \<open>new Date(text)\<close>. Texts of the form
  \<open>YYYY-MM-DDTHH:mm:ss.sssZ\<close> that \<open>toISOString\<close> prints are read back as ECMAScript prescribes;
  any other text is read by a parameter (\<open>None\<close> for an invalid date).
\<close>

fun pad :: "nat \<Rightarrow> nat \<Rightarrow> string" where
  "pad 0 n = []"
| "pad (Suc k) n = pad k (n div 10) @ [digit_char (n mod 10)]"

definition to_iso_string :: "time \<Rightarrow> string" where
  "to_iso_string t =
     (let p = utc_parts t; y = p_year p;
          year = (if 0 \<le> y \<and> y \<le> 9999 then pad 4 (nat y)
            else (if y < 0 then CHR ''-'' else CHR ''+'') # pad 6 (nat \<bar>y\<bar>))
      in year @ ''-'' @ pad 2 (nat (p_month p)) @ ''-'' @ pad 2 (nat (p_day p)) @ ''T'' @
         pad 2 (nat (p_hour p)) @ '':'' @ pad 2 (nat (p_minute p)) @ '':'' @ pad 2 (nat (p_second p)) @
         ''.'' @ pad 3 (nat (t mod 1000)) @ ''Z'')"

definition number_at :: "nat \<Rightarrow> nat \<Rightarrow> string \<Rightarrow> int" where
  "number_at i k s = int (of_base 10 (take k (drop i s)))"

definition iso_fields :: "string \<Rightarrow> time" where
  "iso_fields s =
     make_day (number_at 0 4 s) (number_at 5 2 s) (number_at 8 2 s) * ms_per_day +
       (number_at 11 2 s * 3600000 + number_at 14 2 s * 60000 + number_at 17 2 s * 1000) + number_at 20 3 s"

definition date_of_text :: "(string \<Rightarrow> time option) \<Rightarrow> string \<Rightarrow> time option" where
  "date_of_text other s =
     (if length s = 24 \<and> to_iso_string (iso_fields s) = s then Some (iso_fields s) else other s)"

definition four_digit_year :: "time \<Rightarrow> bool" where
  "four_digit_year t \<longleftrightarrow> 0 \<le> p_year (utc_parts t) \<and> p_year (utc_parts t) \<le> 9999"

lemma length_pad [simp]: "length (pad k n) = k"
  by (induction k arbitrary: n) auto

lemma of_pad: "n < 10 ^ k \<Longrightarrow> of_base 10 (pad k n) = n"
proof (induction k arbitrary: n)
  case (Suc k)
  then have "n div 10 < 10 ^ k" by (simp add: div_less_iff_less_mult mult.commute)
  then show ?case using Suc.IH by (simp add: digit_value_char)
qed (simp add: of_base_def)

lemma pad_chars: "c \<in> set (pad k n) \<Longrightarrow> is_digit c"
  by (induction k arbitrary: n) (auto simp: digit_char_digit)

lemma iso_lengths: "four_digit_year t \<Longrightarrow> length (to_iso_string t) = 24"
  by (simp add: to_iso_string_def Let_def four_digit_year_def)

lemma iso_chars:
  assumes "c \<in> set (to_iso_string t)"
  shows "is_digit c \<or> c \<in> {CHR ''-'', CHR ''+'', CHR ''T'', CHR '':'', CHR ''.'', CHR ''Z''}"
  using assms by (auto simp: to_iso_string_def Let_def dest: pad_chars split: if_splits)

lemma number_at_pad:
  assumes "length a = i" "n < 10 ^ k"
  shows "number_at i k (a @ pad k n @ r) = int n"
  using assms by (simp add: number_at_def of_pad)

lemma utc_part_bounds:
  shows "1 \<le> p_month (utc_parts t)" "p_month (utc_parts t) \<le> 12"
    "1 \<le> p_day (utc_parts t)" "p_day (utc_parts t) \<le> 31"
proof -
  define d where "d = t div ms_per_day"
  define y where "y = year_of_day d"
  have b: "0 \<le> d - day_from_year y" "d - day_from_year y < month_start (leap_year y) 13"
    using year_of_day_bounds [of d] by (simp_all add: month_start_13 y_def)
  note m = month_of_day [OF b]
  have parts: "p_month (utc_parts t) = month_of_day (leap_year y) (d - day_from_year y)"
    "p_day (utc_parts t) = d - day_from_year y - month_start (leap_year y) (month_of_day (leap_year y) (d - day_from_year y)) + 1"
    by (simp_all add: utc_parts_def Let_def d_def y_def)
  show "1 \<le> p_month (utc_parts t)" "p_month (utc_parts t) \<le> 12" using m parts by simp_all
  show "1 \<le> p_day (utc_parts t)" using m parts by simp
  have step: "month_start lp (k + 1) \<le> month_start lp k + 31" if "1 \<le> k" "k \<le> 12" for lp k
  proof -
    have "k = 1 \<or> k = 2 \<or> k = 3 \<or> k = 4 \<or> k = 5 \<or> k = 6 \<or> k = 7 \<or> k = 8 \<or> k = 9 \<or> k = 10 \<or> k = 11 \<or> k = 12"
      using that by presburger
    then show ?thesis by (elim disjE) (simp_all add: month_start_def)
  qed
  show "p_day (utc_parts t) \<le> 31" using step [OF m(1,2), of "leap_year y"] m(4) parts by linarith
qed

lemma iso_fields_text:
  assumes "four_digit_year t"
  shows "iso_fields (to_iso_string t) = t"
proof -
  let ?p = "utc_parts t"
  let ?y = "nat (p_year ?p)" and ?mo = "nat (p_month ?p)" and ?d = "nat (p_day ?p)"
  let ?h = "nat (p_hour ?p)" and ?mi = "nat (p_minute ?p)" and ?s = "nat (p_second ?p)"
  let ?ms = "nat (t mod 1000)"
  have iso: "to_iso_string t = pad 4 ?y @ ''-'' @ pad 2 ?mo @ ''-'' @ pad 2 ?d @ ''T'' @
      pad 2 ?h @ '':'' @ pad 2 ?mi @ '':'' @ pad 2 ?s @ ''.'' @ pad 3 ?ms @ ''Z''"
    using assms by (simp add: to_iso_string_def Let_def four_digit_year_def)
  have v: "0 \<le> p_hour ?p" "p_hour ?p \<le> 23" "0 \<le> p_minute ?p" "p_minute ?p \<le> 59" "0 \<le> p_second ?p" "p_second ?p \<le> 59"
    using valid_utc_parts [of t] by (simp_all add: valid_time_parts_def)
  note b = utc_part_bounds [of t]
  have small: "?y < 10 ^ 4" "?mo < 10 ^ 2" "?d < 10 ^ 2" "?h < 10 ^ 2" "?mi < 10 ^ 2" "?s < 10 ^ 2" "?ms < 10 ^ 3"
    using assms v b by (simp_all add: four_digit_year_def nat_less_iff)
  have n0: "number_at 0 4 (to_iso_string t) = int ?y"
    unfolding iso using number_at_pad [of "[]" 0 ?y 4] small(1) by simp
  have n5: "number_at 5 2 (to_iso_string t) = int ?mo"
    unfolding iso using number_at_pad [of "pad 4 ?y @ ''-''" 5 ?mo 2] small(2) by simp
  have n8: "number_at 8 2 (to_iso_string t) = int ?d"
    unfolding iso using number_at_pad [of "pad 4 ?y @ ''-'' @ pad 2 ?mo @ ''-''" 8 ?d 2] small(3) by simp
  have n11: "number_at 11 2 (to_iso_string t) = int ?h"
    unfolding iso
    using number_at_pad [of "pad 4 ?y @ ''-'' @ pad 2 ?mo @ ''-'' @ pad 2 ?d @ ''T''" 11 ?h 2] small(4) by simp
  have n14: "number_at 14 2 (to_iso_string t) = int ?mi"
    unfolding iso
    using number_at_pad [of "pad 4 ?y @ ''-'' @ pad 2 ?mo @ ''-'' @ pad 2 ?d @ ''T'' @ pad 2 ?h @ '':''" 14 ?mi 2]
      small(5) by simp
  have n17: "number_at 17 2 (to_iso_string t) = int ?s"
    unfolding iso
    using number_at_pad [of "pad 4 ?y @ ''-'' @ pad 2 ?mo @ ''-'' @ pad 2 ?d @ ''T'' @ pad 2 ?h @ '':'' @
        pad 2 ?mi @ '':''" 17 ?s 2] small(6) by simp
  have n20: "number_at 20 3 (to_iso_string t) = int ?ms"
    unfolding iso
    using number_at_pad [of "pad 4 ?y @ ''-'' @ pad 2 ?mo @ ''-'' @ pad 2 ?d @ ''T'' @ pad 2 ?h @ '':'' @
        pad 2 ?mi @ '':'' @ pad 2 ?s @ ''.''" 20 ?ms 3] small(7) by simp
  have ints: "int ?y = p_year ?p" "int ?mo = p_month ?p" "int ?d = p_day ?p" "int ?h = p_hour ?p"
    "int ?mi = p_minute ?p" "int ?s = p_second ?p" "int ?ms = t mod 1000"
    using assms v b by (simp_all add: four_digit_year_def)
  have day: "make_day (p_year ?p) (p_month ?p) (p_day ?p) = t div ms_per_day"
    by (simp only: utc_parts_def Let_def date_parts.simps make_day_parts)
  have ms: "0 \<le> t mod ms_per_day" "t mod ms_per_day < 86400000" by (simp_all add: ms_per_day_def)
  have tm: "t mod ms_per_day mod 1000 = t mod 1000" by (simp add: ms_per_day_def mod_mod_cancel)
  have clock: "p_hour ?p * 3600000 + p_minute ?p * 60000 + p_second ?p * 1000 = t mod ms_per_day - t mod 1000"
    using ms_parts [OF ms] unfolding tm by (simp only: utc_parts_def Let_def date_parts.simps)
  have "iso_fields (to_iso_string t) = t div ms_per_day * ms_per_day + (t mod ms_per_day - t mod 1000) + t mod 1000"
    unfolding iso_fields_def n0 n5 n8 n11 n14 n17 n20 ints day clock ..
  then show ?thesis by simp
qed

lemma date_round_trip [simp]: "four_digit_year t \<Longrightarrow> date_of_text other (to_iso_string t) = Some t"
  by (simp add: date_of_text_def iso_fields_text iso_lengths)

end
