(* ===== verification/Time_Cursor.thy ===== *)
theory Time_Cursor
  imports Base64_Url Json Iso_Date Complex_Main
    "HOL-Library.Option_ord" "HOL-Library.Product_Lexorder" "HOL-Library.List_Lexorder"
    "HOL-Library.Multiset"
begin

text \<open>
  Keyset pagination of \<open>src/lib/time-cursor.ts\<close>: opaque cursors over records ordered by
  \<open>publishedAt DESC NULLS LAST, createdAt DESC, id DESC\<close>, the filter for the rows after a cursor,
  and the pages a client reads by following cursors while the table changes. Identifiers are
  ordered by code units, as PostgreSQL orders the lower-case alphanumeric ids the database makes.
  \<open>text_rest\<close> stands for Node on texts outside the model: base64url or JSON with other characters,
  dates in other formats, numbers with fraction or exponent.
\<close>

record time_cursor =
  tc_published :: "time option"
  tc_created :: time
  tc_id :: string

record text_rest =
  rest_json :: "string \<Rightarrow> json option"
  rest_date :: "string \<Rightarrow> time option"
  rest_number :: "string \<Rightarrow> int option"

definition encode_time_cursor :: "time_cursor \<Rightarrow> string" where
  "encode_time_cursor r = base64url_of_text (json_text (JObj
     [(''c'', JStr (to_iso_string (tc_created r))),
      (''i'', JStr (tc_id r)),
      (''p'', case tc_published r of None \<Rightarrow> JNull | Some t \<Rightarrow> JStr (to_iso_string t)),
      (''v'', JNum ''1'')]))"

definition cursor_id_ok :: "string \<Rightarrow> bool" where
  "cursor_id_ok i \<longleftrightarrow> 1 \<le> length i \<and> length i \<le> 128 \<and>
     list_all (\<lambda>c. is_alnum c \<or> c = CHR ''_'' \<or> c = CHR ''-'') i"

definition json_number_is :: "text_rest \<Rightarrow> int \<Rightarrow> json option \<Rightarrow> bool" where
  "json_number_is rest n v =
     (case v of
        Some (JNum t) \<Rightarrow> (case js_integer t of Some m \<Rightarrow> m = n | None \<Rightarrow> rest_number rest t = Some n)
      | _ \<Rightarrow> False)"

definition parse_cursor_json :: "text_rest \<Rightarrow> string \<Rightarrow> json option" where
  "parse_cursor_json rest value =
     (case text_of_base64url value of None \<Rightarrow> rest_json rest value | Some t \<Rightarrow> json_parse t)"

definition decode_time_cursor :: "text_rest \<Rightarrow> string option \<Rightarrow> time_cursor option" where
  "decode_time_cursor rest value =
     (case value of
        None \<Rightarrow> None
      | Some s \<Rightarrow>
          if s = [] \<or> 512 < length s then None
          else case parse_cursor_json rest s of
            None \<Rightarrow> None
          | Some parsed \<Rightarrow>
              if \<not> json_number_is rest 1 (json_field ''v'' parsed) then None
              else case json_string (json_field ''c'' parsed) of
                None \<Rightarrow> None
              | Some c \<Rightarrow>
                  (case json_string (json_field ''i'' parsed) of
                     None \<Rightarrow> None
                   | Some i \<Rightarrow>
                       if \<not> cursor_id_ok i then None
                       else case date_of_text (rest_date rest) c of
                         None \<Rightarrow> None
                       | Some created \<Rightarrow>
                           (case json_field ''p'' parsed of
                              Some JNull \<Rightarrow> Some \<lparr>tc_published = None, tc_created = created, tc_id = i\<rparr>
                            | Some (JStr p) \<Rightarrow>
                                map_option (\<lambda>t. \<lparr>tc_published = Some t, tc_created = created, tc_id = i\<rparr>)
                                  (date_of_text (rest_date rest) p)
                            | _ \<Rightarrow> None)))"

text \<open>The filter; a comparison with a NULL column is false.\<close>

definition after_time_cursor_where :: "time_cursor \<Rightarrow> time_cursor \<Rightarrow> bool" where
  "after_time_cursor_where c r =
     (let same_published = (tc_published r = tc_published c \<and>
            (tc_created r < tc_created c \<or> (tc_created r = tc_created c \<and> tc_id r < tc_id c)))
      in case tc_published c of
           None \<Rightarrow> same_published
         | Some t \<Rightarrow>
             (case tc_published r of None \<Rightarrow> False | Some u \<Rightarrow> u < t) \<or> tc_published r = None \<or> same_published)"

definition page_size :: "rat \<Rightarrow> int \<Rightarrow> nat" where
  "page_size value maximum = nat (max 1 (min maximum \<lfloor>value\<rfloor>))"

text \<open>What the database orders by, and a query \<open>ORDER BY ... TAKE n\<close>.\<close>

definition time_key :: "time_cursor \<Rightarrow> time option \<times> time \<times> string" where
  "time_key r = (tc_published r, tc_created r, tc_id r)"

definition find_newest :: "('a \<Rightarrow> time_cursor) \<Rightarrow> ('a \<Rightarrow> bool) \<Rightarrow> nat \<Rightarrow> 'a list \<Rightarrow> 'a list" where
  "find_newest pos p n rows = take n (rev (sort_key (\<lambda>r. time_key (pos r)) (filter p rows)))"

record 'a time_page =
  pg_items :: "'a list"
  pg_next :: "string option"

text \<open>A page: one row more than shown is fetched to know whether there is a next page.\<close>

definition time_page :: "text_rest \<Rightarrow> ('a \<Rightarrow> time_cursor) \<Rightarrow> nat \<Rightarrow> string option \<Rightarrow> 'a list \<Rightarrow> 'a time_page" where
  "time_page rest pos n after rows =
     (let found = find_newest pos
            (case decode_time_cursor rest after of
               None \<Rightarrow> (\<lambda>r. True)
             | Some c \<Rightarrow> (\<lambda>r. after_time_cursor_where c (pos r))) (n + 1) rows;
          visible = take n found
      in \<lparr>pg_items = visible,
          pg_next = (if n < length found \<and> visible \<noteq> [] then Some (encode_time_cursor (pos (last visible)))
            else None)\<rparr>)"

subsection \<open>A cursor comes back as it was\<close>

definition cursor_ok :: "time_cursor \<Rightarrow> bool" where
  "cursor_ok r \<longleftrightarrow> cursor_id_ok (tc_id r) \<and> four_digit_year (tc_created r) \<and>
     (case tc_published r of None \<Rightarrow> True | Some t \<Rightarrow> four_digit_year t)"

lemma plain_escape:
  "\<forall>c \<in> set s. 32 \<le> code c \<and> code c \<noteq> 34 \<and> code c \<noteq> 92 \<Longrightarrow> concat (map escape_char s) = s"
  by (induction s) (auto simp: escape_char_def)

lemma iso_plain: "c \<in> set (to_iso_string t) \<Longrightarrow> 32 \<le> code c \<and> code c \<noteq> 34 \<and> code c \<noteq> 92"
  using iso_chars [of c t] by (auto simp: is_digit_def code_def)

lemma cursor_id_plain: "cursor_id_ok i \<Longrightarrow> c \<in> set i \<Longrightarrow> 32 \<le> code c \<and> code c \<noteq> 34 \<and> code c \<noteq> 92"
  by (auto simp: cursor_id_ok_def list_all_iff is_alnum_def is_digit_def is_upper_az_def is_lower_az_def code_def)

lemma quoted_length:
  "\<forall>c \<in> set s. 32 \<le> code c \<and> code c \<noteq> 34 \<and> code c \<noteq> 92 \<Longrightarrow> length (quote_text s) = length s + 2"
  by (simp add: quote_text_def plain_escape)

lemma ascii_utf8_length: "\<forall>c \<in> set s. code c < 128 \<Longrightarrow> length (utf8_encode s) = length s"
  by (induction s) (auto simp: utf8_encode_def utf8_char_def)

definition cursor_text :: "time_cursor \<Rightarrow> string" where
  "cursor_text r =
     CHR ''{'' # quote_text ''c'' @ CHR '':'' # quote_text (to_iso_string (tc_created r)) @
     CHR '','' # quote_text ''i'' @ CHR '':'' # quote_text (tc_id r) @
     CHR '','' # quote_text ''p'' @ CHR '':'' #
       (case tc_published r of None \<Rightarrow> ''null'' | Some t \<Rightarrow> quote_text (to_iso_string t)) @
     CHR '','' # quote_text ''v'' @ CHR '':'' # ''1}''"

lemma encode_cursor_text: "encode_time_cursor r = base64url_of_text (cursor_text r)"
  by (simp add: encode_time_cursor_def cursor_text_def split: option.split)

lemma quoted_plain:
  "\<forall>c \<in> set s. 32 \<le> code c \<and> code c \<noteq> 34 \<and> code c \<noteq> 92 \<Longrightarrow> quote_text s = CHR 0x22 # s @ [CHR 0x22]"
  by (simp add: quote_text_def plain_escape)

lemma cursor_text_plain:
  assumes "cursor_ok r"
  shows "cursor_text r = ''{'' @ CHR 0x22 # ''c'' @ CHR 0x22 # CHR '':'' # CHR 0x22 # to_iso_string (tc_created r) @
     CHR 0x22 # CHR '','' # CHR 0x22 # ''i'' @ CHR 0x22 # CHR '':'' # CHR 0x22 # tc_id r @
     CHR 0x22 # CHR '','' # CHR 0x22 # ''p'' @ CHR 0x22 # CHR '':'' #
       (case tc_published r of None \<Rightarrow> ''null'' | Some t \<Rightarrow> CHR 0x22 # to_iso_string t @ [CHR 0x22]) @
     CHR '','' # CHR 0x22 # ''v'' @ CHR 0x22 # CHR '':'' # ''1}''"
proof -
  have "quote_text [x] = CHR 0x22 # [x] @ [CHR 0x22]" if "x \<in> {CHR ''c'', CHR ''i'', CHR ''p'', CHR ''v''}" for x
    using that by (intro quoted_plain) (auto simp: code_def)
  moreover have "quote_text (tc_id r) = CHR 0x22 # tc_id r @ [CHR 0x22]"
    using assms cursor_id_plain by (intro quoted_plain) (auto simp: cursor_ok_def)
  moreover have "quote_text (to_iso_string t) = CHR 0x22 # to_iso_string t @ [CHR 0x22]" for t
    using iso_plain by (intro quoted_plain) auto
  ultimately show ?thesis by (simp add: cursor_text_def split: option.split)
qed

lemma cursor_text_ascii:
  assumes "cursor_ok r" "c \<in> set (cursor_text r)"
  shows "code c < 128"
proof -
  have "code d < 128" if "d \<in> set (tc_id r)" for d
    using assms(1) that
    by (auto simp: cursor_ok_def cursor_id_ok_def list_all_iff is_alnum_def is_digit_def is_upper_az_def
        is_lower_az_def code_def)
  moreover have "code d < 128" if "d \<in> set (to_iso_string t)" for d t
    using iso_chars [OF that] by (auto simp: is_digit_def code_def)
  moreover have "code d < 128"
    if "d \<in> {CHR ''{'', CHR ''}'', CHR 0x22, CHR ''c'', CHR '':'', CHR '','', CHR ''i'', CHR ''p'', CHR ''v'',
      CHR ''1'', CHR ''n'', CHR ''u'', CHR ''l''}" for d
    using that by (auto simp: code_def)
  ultimately show ?thesis
    using assms(2) unfolding cursor_text_plain [OF assms(1)] by (auto split: option.splits)
qed

lemma encoded_length:
  assumes "cursor_ok r"
  shows "length (encode_time_cursor r) \<le> 512"
proof -
  have "length (to_iso_string (tc_created r)) = 24" "\<And>t. tc_published r = Some t \<Longrightarrow> length (to_iso_string t) = 24"
    "length (tc_id r) \<le> 128"
    using assms by (simp_all add: cursor_ok_def iso_lengths cursor_id_ok_def)
  then have "length (cursor_text r) \<le> 204"
    unfolding cursor_text_plain [OF assms] by (simp split: option.split)
  then have "length (utf8_encode (cursor_text r)) \<le> 204"
    using ascii_utf8_length [of "cursor_text r"] cursor_text_ascii [OF assms] by simp
  then show ?thesis
    using length_base64url [of "utf8_encode (cursor_text r)"]
    by (simp add: encode_cursor_text base64url_of_text_def)
qed

lemma encoded_nonempty: "encode_time_cursor r \<noteq> []"
proof
  assume "encode_time_cursor r = []"
  then have "text_of_base64url [] = Some (cursor_text r)" using base64url_text [of "cursor_text r"]
    by (simp add: encode_cursor_text)
  then show False
    by (simp add: text_of_base64url_def base64url_decode_def cursor_text_def)
qed

lemma cursor_decodes:
  assumes "cursor_ok r"
  shows "decode_time_cursor rest (Some (encode_time_cursor r)) = Some r"
proof -
  let ?v = "JObj [(''c'', JStr (to_iso_string (tc_created r))), (''i'', JStr (tc_id r)),
      (''p'', case tc_published r of None \<Rightarrow> JNull | Some t \<Rightarrow> JStr (to_iso_string t)), (''v'', JNum ''1'')]"
  have one: "int_text 1 = ''1''" by code_simp
  then have "json_ok ?v" by (auto intro: exI [of _ 1] split: option.split)
  then have "parse_cursor_json rest (encode_time_cursor r) = Some ?v"
    unfolding parse_cursor_json_def encode_time_cursor_def base64url_text option.case by (rule json_round_trip)
  moreover have "js_integer ''1'' = Some 1" using js_integer_text [of 1] one by simp
  ultimately show ?thesis
    using assms encoded_length [OF assms] encoded_nonempty [of r]
    by (cases r) (auto simp: decode_time_cursor_def json_number_is_def json_field_def json_string_def
        cursor_ok_def split: option.split)
qed


text \<open>Decoding the cursor of a record gives the record's position, with any identifier the
  database makes and any instant of the years 0 to 9999.\<close>

theorem time_cursor_round_trip:
  assumes "cursor_ok r"
  shows "decode_time_cursor rest (Some (encode_time_cursor r)) = Some r"
  by (rule cursor_decodes [OF assms])

subsection \<open>Reading all pages\<close>

lemma after_cursor_iff: "after_time_cursor_where c r \<longleftrightarrow> time_key r < time_key c"
proof (cases "tc_published c")
  case None
  then show ?thesis by (cases "tc_published r")
      (auto simp: after_time_cursor_where_def time_key_def less_prod_def)
next
  case (Some t)
  then show ?thesis by (cases "tc_published r")
      (auto simp: after_time_cursor_where_def time_key_def less_prod_def)
qed

text \<open>
  A client that follows the cursors until there is none; the table it reads may be another at every
  page. \<open>None\<close> when the tables run out before the last page.
\<close>

fun read_pages :: "text_rest \<Rightarrow> ('a \<Rightarrow> time_cursor) \<Rightarrow> nat \<Rightarrow> string option \<Rightarrow> 'a list list \<Rightarrow> 'a list option" where
  "read_pages rest pos n after [] = None"
| "read_pages rest pos n after (t # ts) =
     (let p = time_page rest pos n after t
      in case pg_next p of
           None \<Rightarrow> Some (pg_items p)
         | Some c \<Rightarrow> map_option ((@) (pg_items p)) (read_pages rest pos n (Some c) ts))"

definition table_ok :: "('a \<Rightarrow> time_cursor) \<Rightarrow> 'a list \<Rightarrow> bool" where
  "table_ok pos rows \<longleftrightarrow> (\<forall>r \<in> set rows. cursor_ok (pos r)) \<and> distinct (map (\<lambda>r. tc_id (pos r)) rows)"

definition newest_first :: "('a \<Rightarrow> time_cursor) \<Rightarrow> 'a list \<Rightarrow> bool" where
  "newest_first pos rows \<longleftrightarrow> sorted_wrt (\<lambda>a b. time_key (pos b) < time_key (pos a)) rows"

lemma distinct_time_keys: "table_ok pos rows \<Longrightarrow> distinct (map (\<lambda>r. time_key (pos r)) rows)"
  unfolding table_ok_def distinct_map by (auto simp: inj_on_def time_key_def)

lemma newest_sorted:
  assumes "table_ok pos rows"
  shows "newest_first pos (rev (sort_key (\<lambda>r. time_key (pos r)) (filter p rows)))"
proof -
  let ?k = "\<lambda>r. time_key (pos r)"
  let ?s = "sort_key ?k (filter p rows)"
  have "distinct (map ?k (filter p rows))" using distinct_time_keys [OF assms] by (simp add: distinct_map_filter)
  moreover have "mset (map ?k ?s) = mset (map ?k (filter p rows))" unfolding mset_map mset_sort ..
  ultimately have "distinct (map ?k ?s)" by (metis mset_eq_imp_distinct_iff)
  then have "sorted_wrt (<) (map ?k ?s)" by (simp add: strict_sorted_iff)
  then show ?thesis by (simp add: newest_first_def sorted_wrt_rev sorted_wrt_map)
qed

lemma newest_page:
  assumes "newest_first pos xs" "x \<in> set xs" "take n xs \<noteq> []" "time_key (pos (last (take n xs))) \<le> time_key (pos x)"
  shows "x \<in> set (take n xs)"
proof (rule ccontr)
  assume "x \<notin> set (take n xs)"
  then have x: "x \<in> set (drop n xs)" using assms(2) by (metis Un_iff append_take_drop_id set_append)
  have "last (take n xs) \<in> set (take n xs)" using assms(3) by simp
  then have "time_key (pos x) < time_key (pos (last (take n xs)))"
    using assms(1) x by (metis append_take_drop_id newest_first_def sorted_wrt_append)
  then show False using assms(4) by simp
qed

lemma newest_last:
  "newest_first pos xs \<Longrightarrow> y \<in> set xs \<Longrightarrow> time_key (pos (last xs)) \<le> time_key (pos y)"
proof (induction xs)
  case (Cons x xs)
  show ?case
  proof (cases "xs = []")
    case False
    then have "time_key (pos (last xs)) < time_key (pos x)" using Cons.prems(1) by (simp add: newest_first_def)
    then have "time_key (pos (last xs)) \<le> time_key (pos x)" by (rule order.strict_implies_order)
    then show ?thesis using Cons False by (auto simp: newest_first_def)
  qed (use Cons.prems in simp)
qed simp

definition before_cursor :: "('a \<Rightarrow> time_cursor) \<Rightarrow> time_cursor option \<Rightarrow> 'a \<Rightarrow> bool" where
  "before_cursor pos c r = (case c of None \<Rightarrow> True | Some k \<Rightarrow> time_key (pos r) < time_key k)"

lemma page_facts:
  assumes "table_ok pos t" "0 < n" and c: "decode_time_cursor rest after = c"
    and page: "time_page rest pos n after t = p"
  shows "newest_first pos (pg_items p)" "\<forall>x \<in> set (pg_items p). x \<in> set t \<and> before_cursor pos c x"
    "pg_next p = None \<Longrightarrow> x \<in> set t \<Longrightarrow> before_cursor pos c x \<Longrightarrow> x \<in> set (pg_items p)"
    "pg_next p = Some s \<Longrightarrow> pg_items p \<noteq> [] \<and> s = encode_time_cursor (pos (last (pg_items p))) \<and>
       (x \<in> set t \<longrightarrow> before_cursor pos c x \<longrightarrow> time_key (pos (last (pg_items p))) \<le> time_key (pos x) \<longrightarrow>
         x \<in> set (pg_items p))"
proof -
  define all where "all = rev (sort_key (\<lambda>r. time_key (pos r)) (filter (before_cursor pos c) t))"
  have filt: "(case c of None \<Rightarrow> \<lambda>r. True | Some k \<Rightarrow> \<lambda>r. after_time_cursor_where k (pos r)) = before_cursor pos c"
    by (auto simp: before_cursor_def after_cursor_iff fun_eq_iff split: option.split)
  have p: "p = \<lparr>pg_items = take n all, pg_next = (if n < length all \<and> take n all \<noteq> []
      then Some (encode_time_cursor (pos (last (take n all)))) else None)\<rparr>"
    using page unfolding time_page_def c filt find_newest_def Let_def all_def [symmetric]
    by (auto simp: min_def split: if_splits)
  have sorted: "newest_first pos all" unfolding all_def by (rule newest_sorted [OF assms(1)])
  have "sorted_wrt R (take n xs)" if "sorted_wrt R xs" for R :: "'a \<Rightarrow> 'a \<Rightarrow> bool" and xs
    using that by (metis append_take_drop_id sorted_wrt_append)
  then show "newest_first pos (pg_items p)" using sorted p by (simp add: newest_first_def)
  have set: "set all = {x \<in> set t. before_cursor pos c x}" by (auto simp: all_def)
  then show "\<forall>x \<in> set (pg_items p). x \<in> set t \<and> before_cursor pos c x"
    using p by (auto dest: in_set_takeD)
  show "pg_next p = None \<Longrightarrow> x \<in> set t \<Longrightarrow> before_cursor pos c x \<Longrightarrow> x \<in> set (pg_items p)"
    using p set assms(2) by (auto split: if_splits)
  show "pg_next p = Some s \<Longrightarrow> pg_items p \<noteq> [] \<and> s = encode_time_cursor (pos (last (pg_items p))) \<and>
       (x \<in> set t \<longrightarrow> before_cursor pos c x \<longrightarrow> time_key (pos (last (pg_items p))) \<le> time_key (pos x) \<longrightarrow>
         x \<in> set (pg_items p))"
    using p set newest_page [OF sorted, of x n] by (auto split: if_splits)
qed

lemma read_pages_facts:
  assumes "\<forall>t \<in> set ts. table_ok pos t" "0 < n" "decode_time_cursor rest after = c"
    and "read_pages rest pos n after ts = Some shown"
  shows "newest_first pos shown \<and> (\<forall>x \<in> set shown. before_cursor pos c x \<and> (\<exists>t \<in> set ts. x \<in> set t)) \<and>
    (\<forall>x. (\<forall>t \<in> set ts. x \<in> set t) \<longrightarrow> before_cursor pos c x \<longrightarrow> x \<in> set shown)"
  using assms
proof (induction ts arbitrary: after c shown)
  case (Cons t ts)
  define p where "p = time_page rest pos n after t"
  have ok: "table_ok pos t" using Cons.prems(1) by simp
  note facts = page_facts [OF ok assms(2) Cons.prems(3) p_def [symmetric]]
  show ?case
  proof (cases "pg_next p")
    case None
    then have "shown = pg_items p"
      using Cons.prems(4) unfolding read_pages.simps p_def [symmetric] Let_def by simp
    then show ?thesis using facts(1,2) facts(3) [OF None] by auto
  next
    case (Some s)
    then obtain rest_shown where more: "read_pages rest pos n (Some s) ts = Some rest_shown"
      and shown: "shown = pg_items p @ rest_shown"
      using Cons.prems(4) unfolding read_pages.simps p_def [symmetric] Let_def Some option.case by auto
    define l where "l = last (pg_items p)"
    note f4 = facts(4) [OF Some]
    have s: "s = encode_time_cursor (pos l)" "pg_items p \<noteq> []" using f4 unfolding l_def by blast+
    have l: "l \<in> set (pg_items p)" using s by (simp add: l_def)
    then have "cursor_ok (pos l)" using facts(2) ok by (auto simp: table_ok_def)
    then have d: "decode_time_cursor rest (Some s) = Some (pos l)" using s cursor_decodes by blast
    have IH: "newest_first pos rest_shown"
      "\<forall>x \<in> set rest_shown. before_cursor pos (Some (pos l)) x \<and> (\<exists>t \<in> set ts. x \<in> set t)"
      "\<forall>x. (\<forall>t \<in> set ts. x \<in> set t) \<longrightarrow> before_cursor pos (Some (pos l)) x \<longrightarrow> x \<in> set rest_shown"
      using Cons.IH [OF _ assms(2) d more] Cons.prems(1) by auto
    have low: "time_key (pos x) < time_key (pos y)" if "x \<in> set rest_shown" "y \<in> set (pg_items p)" for x y
    proof -
      have "time_key (pos x) < time_key (pos l)" using IH(2) that(1) by (auto simp: before_cursor_def)
      then show ?thesis using newest_last [OF facts(1) that(2)] by (simp add: l_def)
    qed
    have "newest_first pos shown"
      using facts(1) IH(1) low unfolding shown newest_first_def sorted_wrt_append by blast
    moreover have "before_cursor pos c x \<and> (\<exists>t' \<in> set (t # ts). x \<in> set t')" if x: "x \<in> set shown" for x
    proof (cases "x \<in> set (pg_items p)")
      case True
      then show ?thesis using facts(2) by auto
    next
      case False
      then have r: "x \<in> set rest_shown" using x by (simp add: shown)
      have "before_cursor pos c l" using facts(2) l by blast
      then have "before_cursor pos c x"
        using low [OF r l] unfolding before_cursor_def by (cases c) (auto intro: order.strict_trans)
      then show ?thesis using IH(2) r by auto
    qed
    moreover have "x \<in> set shown" if x: "\<forall>t' \<in> set (t # ts). x \<in> set t'" "before_cursor pos c x" for x
    proof (cases "time_key (pos l) \<le> time_key (pos x)")
      case True
      then have "x \<in> set (pg_items p)" using f4 x unfolding l_def by auto
      then show ?thesis by (simp add: shown)
    next
      case False
      then have "before_cursor pos (Some (pos l)) x" by (simp add: before_cursor_def)
      then show ?thesis using IH(3) x(1) by (simp add: shown)
    qed
    ultimately show ?thesis by blast
  qed
qed simp


text \<open>Over a table that does not change, one reading more than there are rows is enough.\<close>

lemma read_pages_finish:
  assumes "table_ok pos t" "0 < n" "decode_time_cursor rest after = c"
    and "length (filter (before_cursor pos c) t) < m"
  shows "read_pages rest pos n after (replicate m t) \<noteq> None"
  using assms(3,4)
proof (induction m arbitrary: after c)
  case (Suc m)
  define p where "p = time_page rest pos n after t"
  note facts = page_facts [OF assms(1,2) Suc.prems(1) p_def [symmetric]]
  show ?case
  proof (cases "pg_next p")
    case None
    then show ?thesis by (simp add: p_def [symmetric])
  next
    case (Some s)
    define l where "l = last (pg_items p)"
    have s: "pg_items p \<noteq> []" "s = encode_time_cursor (pos l)" using facts(4) [OF Some] unfolding l_def by blast+
    then have l: "l \<in> set t" "before_cursor pos c l" using facts(2) by (simp_all add: l_def)
    then have "cursor_ok (pos l)" using assms(1) by (auto simp: table_ok_def)
    then have d: "decode_time_cursor rest (Some s) = Some (pos l)" using s cursor_decodes by blast
    have imp: "before_cursor pos c x" if "before_cursor pos (Some (pos l)) x" for x
      using that l(2) unfolding before_cursor_def by (cases c) (auto intro: order.strict_trans)
    have "filter (before_cursor pos (Some (pos l))) t =
        filter (before_cursor pos (Some (pos l))) (filter (before_cursor pos c) t)"
      using imp by (auto intro: filter_cong)
    moreover have "length (filter (before_cursor pos (Some (pos l))) (filter (before_cursor pos c) t)) <
        length (filter (before_cursor pos c) t)"
      using l by (intro length_filter_less [of l]) (auto simp: before_cursor_def)
    ultimately have "read_pages rest pos n (Some s) (replicate m t) \<noteq> None"
      using Suc.IH [OF d] Suc.prems(2) by simp
    then show ?thesis using Some by (simp add: p_def [symmetric])
  qed
qed simp

lemma newest_first_unique:
  assumes "newest_first pos xs" "newest_first pos ys" "set xs = set ys"
  shows "xs = ys"
  using assms
proof (induction xs arbitrary: ys)
  case (Cons x xs)
  then obtain y ys' where ys: "ys = y # ys'" by (cases ys) auto
  have below: "\<forall>z \<in> set xs. time_key (pos z) < time_key (pos x)" "\<forall>z \<in> set ys'. time_key (pos z) < time_key (pos y)"
    using Cons.prems(1,2) by (simp_all add: newest_first_def ys)
  have "x = y"
  proof (rule ccontr)
    assume "x \<noteq> y"
    then have "x \<in> set ys'" "y \<in> set xs" using Cons.prems(3) by (auto simp: ys)
    then show False using below order.asym by blast
  qed
  moreover have "x \<notin> set xs" "y \<notin> set ys'" using below by auto
  then have "set xs = set ys'" using Cons.prems(3) \<open>x = y\<close> by (auto simp: ys)
  then have "xs = ys'" using Cons.IH Cons.prems(1,2) by (simp add: newest_first_def ys)
  ultimately show ?case by (simp add: ys)
qed simp

end
