(* ===== verification/Reader_Articles.thy ===== *)
theory Reader_Articles
  imports Time_Cursor
begin

text \<open>
  The reader of \<open>src/lib/articles.ts\<close> and \<open>src/lib/article-read-batch.ts\<close>: which articles a user may
  see (through an active subscription or a collection of their own, archived ones excepted), the
  pages and lookups of the reader, and the writes of the per-user article state. Rows carry the
  columns the queries read; the projections that turn a row into a response are not modelled.
\<close>

record article =
  ra_id :: string
  ra_feed :: string
  ra_url :: string
  ra_published_at :: "time option"
  ra_created_at :: time

record reader_subscription =
  rs_user :: string
  rs_feed :: string
  rs_folder :: "string option"
  rs_paused :: bool

record collection_item =
  ci_collection :: string
  ci_owner :: string
  ci_article :: string

record article_state =
  as_user :: string
  as_article :: string
  as_read :: bool
  as_read_at :: "time option"
  as_starred :: bool
  as_starred_at :: "time option"
  as_archived_at :: "time option"

record reader_db =
  rd_articles :: "article list"
  rd_feed_urls :: "(string \<times> string) list"
  rd_subscriptions :: "reader_subscription list"
  rd_items :: "collection_item list"
  rd_states :: "article_state list"

datatype reader_error = Article_Not_Found | Constraint_Violation

subsection \<open>Which articles a query sees\<close>

definition subscribed_article_where :: "reader_db \<Rightarrow> string \<Rightarrow> article \<Rightarrow> bool" where
  "subscribed_article_where s u a =
     list_ex (\<lambda>f. rs_feed f = ra_feed a \<and> \<not> rs_paused f \<and> rs_user f = u) (rd_subscriptions s)"

definition folder_article_where :: "reader_db \<Rightarrow> string \<Rightarrow> string \<Rightarrow> article \<Rightarrow> bool" where
  "folder_article_where s u folder a =
     list_ex (\<lambda>f. rs_feed f = ra_feed a \<and> rs_folder f = Some folder \<and> \<not> rs_paused f \<and> rs_user f = u)
       (rd_subscriptions s)"

definition collection_article_where :: "reader_db \<Rightarrow> string \<Rightarrow> string option \<Rightarrow> article \<Rightarrow> bool" where
  "collection_article_where s u collection a =
     list_ex (\<lambda>i. ci_article i = ra_id a \<and> ci_owner i = u \<and>
       (truthy collection \<longrightarrow> Some (ci_collection i) = collection)) (rd_items s)"

definition article_access_where :: "reader_db \<Rightarrow> string \<Rightarrow> article \<Rightarrow> bool" where
  "article_access_where s u a \<longleftrightarrow> subscribed_article_where s u a \<or> collection_article_where s u None a"

definition some_state :: "reader_db \<Rightarrow> string \<Rightarrow> article \<Rightarrow> (article_state \<Rightarrow> bool) \<Rightarrow> bool" where
  "some_state s u a p = list_ex (\<lambda>r. as_article r = ra_id a \<and> as_user r = u \<and> p r) (rd_states s)"

definition not_archived_article_where :: "reader_db \<Rightarrow> string \<Rightarrow> article \<Rightarrow> bool" where
  "not_archived_article_where s u a \<longleftrightarrow> \<not> some_state s u a (\<lambda>r. as_archived_at r \<noteq> None)"

datatype article_read_scope = All_Articles | Feed_Articles string | Folder_Articles string

definition article_read_scope_where :: "reader_db \<Rightarrow> string \<Rightarrow> article_read_scope \<Rightarrow> article \<Rightarrow> bool" where
  "article_read_scope_where s u scope a =
     (case scope of
        Feed_Articles f \<Rightarrow> ra_feed a = f \<and>
          list_ex (\<lambda>x. rs_feed x = ra_feed a \<and> rs_user x = u) (rd_subscriptions s)
      | Folder_Articles f \<Rightarrow> folder_article_where s u f a
      | All_Articles \<Rightarrow> subscribed_article_where s u a)"

record list_filters =
  lf_after :: "string option"
  lf_collection :: "string option"
  lf_feed :: "string option"
  lf_folder :: "string option"
  lf_limit :: rat
  lf_starred_only :: bool
  lf_unread_only :: bool

definition article_list_where :: "reader_db \<Rightarrow> string \<Rightarrow> list_filters \<Rightarrow> article \<Rightarrow> bool" where
  "article_list_where s u f a \<longleftrightarrow>
     (if truthy (lf_collection f) then collection_article_where s u (lf_collection f) a
      else subscribed_article_where s u a) \<and>
     not_archived_article_where s u a \<and>
     (truthy (lf_feed f) \<longrightarrow> Some (ra_feed a) = lf_feed f) \<and>
     (truthy (lf_folder f) \<longrightarrow> folder_article_where s u (the (lf_folder f)) a) \<and>
     (lf_unread_only f \<longrightarrow> \<not> some_state s u a as_read) \<and>
     (lf_starred_only f \<longrightarrow> some_state s u a as_starred)"

subsection \<open>Pages and lookups\<close>

definition article_position :: "article \<Rightarrow> time_cursor" where
  "article_position a = \<lparr>tc_published = ra_published_at a, tc_created = ra_created_at a, tc_id = ra_id a\<rparr>"

definition list_reader_article_page :: "text_rest \<Rightarrow> reader_db \<Rightarrow> string \<Rightarrow> list_filters \<Rightarrow> article time_page" where
  "list_reader_article_page rest s u f =
     time_page rest article_position (page_size (lf_limit f) 100) (lf_after f)
       (filter (article_list_where s u f) (rd_articles s))"

definition list_reader_articles :: "text_rest \<Rightarrow> reader_db \<Rightarrow> string \<Rightarrow> list_filters \<Rightarrow> article list" where
  "list_reader_articles rest s u f =
     find_newest article_position
       (\<lambda>a. article_list_where s u f a \<and>
          (case decode_time_cursor rest (lf_after f) of None \<Rightarrow> True
           | Some c \<Rightarrow> after_time_cursor_where c (article_position a)))
       (page_size (lf_limit f) 100) (rd_articles s)"

text \<open>\<open>[...new Set(ids)]\<close> keeps the first of each.\<close>

definition js_unique :: "'a list \<Rightarrow> 'a list" where
  "js_unique xs = rev (remdups (rev xs))"

definition list_reader_articles_by_ids :: "reader_db \<Rightarrow> string \<Rightarrow> string list \<Rightarrow> article list" where
  "list_reader_articles_by_ids s u ids =
     (let unique_ids = filter (\<lambda>i. i \<noteq> []) (js_unique ids);
          rows = filter (\<lambda>a. ra_id a \<in> set unique_ids \<and> not_archived_article_where s u a \<and> article_access_where s u a)
            (rd_articles s)
      in concat (map (\<lambda>i. case row_at ra_id i rows of None \<Rightarrow> [] | Some a \<Rightarrow> [a]) unique_ids))"

definition get_reader_article :: "reader_db \<Rightarrow> string \<Rightarrow> string \<Rightarrow> article option" where
  "get_reader_article s u i =
     List.find (\<lambda>a. article_access_where s u a \<and> ra_id a = i \<and> not_archived_article_where s u a) (rd_articles s)"

definition get_story_signal_article :: "reader_db \<Rightarrow> string \<Rightarrow> string \<Rightarrow> article option" where
  "get_story_signal_article s u i =
     List.find (\<lambda>a. subscribed_article_where s u a \<and> ra_id a = i \<and> not_archived_article_where s u a) (rd_articles s)"

definition list_story_signal_articles :: "reader_db \<Rightarrow> string \<Rightarrow> rat \<Rightarrow> article list" where
  "list_story_signal_articles s u limit =
     find_newest article_position (\<lambda>a. subscribed_article_where s u a \<and> not_archived_article_where s u a)
       (page_size limit 100) (rd_articles s)"

definition river_reader_detail_limit :: nat where "river_reader_detail_limit = 10"
definition default_reader_page_limit :: nat where "default_reader_page_limit = 50"

definition reader_article_page_limit :: "string \<Rightarrow> string \<Rightarrow> nat" where
  "reader_article_page_limit default_view display_mode =
     (if display_mode = ''READER'' \<or> default_view = ''RIVER'' then river_reader_detail_limit
      else default_reader_page_limit)"

record article_view =
  av_river :: "article list"
  av_selected :: "article option"

definition selected_article_id :: "string list \<Rightarrow> string option \<Rightarrow> string option" where
  "selected_article_id visible selected =
     (let first = (case visible of [] \<Rightarrow> None | v # _ \<Rightarrow> Some v)
      in case selected of
           None \<Rightarrow> first
         | Some i \<Rightarrow> if i \<noteq> [] \<and> i \<in> set visible then Some i else first)"

definition detail_article_ids :: "bool \<Rightarrow> string list \<Rightarrow> string option \<Rightarrow> string list" where
  "detail_article_ids is_river visible selected_id =
     (let chosen = (case selected_id of None \<Rightarrow> [] | Some i \<Rightarrow> [i])
      in if is_river then js_unique (take river_reader_detail_limit visible @ chosen) else chosen)"

definition load_reader_article_view ::
  "reader_db \<Rightarrow> string \<Rightarrow> string list \<Rightarrow> string \<Rightarrow> string \<Rightarrow> string option \<Rightarrow> article_view" where
  "load_reader_article_view s u ids default_view display_mode selected =
     (let visible = filter (\<lambda>i. i \<noteq> []) (js_unique ids);
          selected_id = selected_article_id visible selected;
          is_river = (display_mode = ''READER'' \<or> default_view = ''RIVER'');
          details = list_reader_articles_by_ids s u (detail_article_ids is_river visible selected_id)
      in \<lparr>av_river = (if is_river then details else []),
          av_selected = List.find (\<lambda>a. Some (ra_id a) = selected_id) details\<rparr>)"

text \<open>The guest preview: \<open>ORDER BY publishedAt DESC\<close> puts missing dates first.\<close>

definition public_key :: "article \<Rightarrow> (nat \<times> time) \<times> time" where
  "public_key a = ((case ra_published_at a of None \<Rightarrow> (1, 0) | Some t \<Rightarrow> (0, t)), ra_created_at a)"

fun first_by_url :: "string set \<Rightarrow> article list \<Rightarrow> article list" where
  "first_by_url seen [] = []"
| "first_by_url seen (a # as) =
     (if ra_url a \<in> seen then first_by_url seen as else a # first_by_url (insert (ra_url a) seen) as)"

definition list_public_reader_articles :: "reader_db \<Rightarrow> string list \<Rightarrow> rat \<Rightarrow> article list" where
  "list_public_reader_articles s public_feed_urls limit =
     (let bounded = page_size limit 100;
          found = take (bounded * 3) (rev (sort_key public_key
            (filter (\<lambda>a. list_ex (\<lambda>(f, url). f = ra_feed a \<and> url \<in> set public_feed_urls) (rd_feed_urls s))
              (rd_articles s))))
      in take bounded (first_by_url {} found))"

record reader_counts =
  rc_all :: nat
  rc_starred :: nat
  rc_unread :: nat

definition get_reader_counts :: "reader_db \<Rightarrow> string \<Rightarrow> reader_counts" where
  "get_reader_counts s u =
     (let n = (\<lambda>p. length (filter (\<lambda>a. subscribed_article_where s u a \<and> not_archived_article_where s u a \<and> p a)
            (rd_articles s)))
      in \<lparr>rc_all = n (\<lambda>a. True), rc_starred = n (\<lambda>a. some_state s u a as_starred),
          rc_unread = n (\<lambda>a. \<not> some_state s u a as_read)\<rparr>)"

definition count_unread_articles_for_feed :: "reader_db \<Rightarrow> string \<Rightarrow> string \<Rightarrow> nat" where
  "count_unread_articles_for_feed s u feed =
     length (filter (\<lambda>a. subscribed_article_where s u a \<and> ra_feed a = feed \<and> not_archived_article_where s u a \<and>
       \<not> some_state s u a as_read) (rd_articles s))"

text \<open>The grouped query returns one row per feed that has a counted article.\<close>

definition get_unread_article_counts_by_feed :: "reader_db \<Rightarrow> string \<Rightarrow> string list \<Rightarrow> string \<Rightarrow> nat option" where
  "get_unread_article_counts_by_feed s u feeds feed =
     (let n = (if feed \<in> set feeds then count_unread_articles_for_feed s u feed else 0)
      in if n = 0 then None else Some n)"

subsection \<open>Article state\<close>

definition new_state :: "string \<Rightarrow> string \<Rightarrow> article_state" where
  "new_state u i = \<lparr>as_user = u, as_article = i, as_read = False, as_read_at = None, as_starred = False,
     as_starred_at = None, as_archived_at = None\<rparr>"

definition is_state_of :: "string \<Rightarrow> string \<Rightarrow> article_state \<Rightarrow> bool" where
  "is_state_of u i r \<longleftrightarrow> as_user r = u \<and> as_article r = i"

text \<open>\<open>upsert\<close> on the key (user, article); creating needs the article to exist.\<close>

definition upsert_state ::
  "string \<Rightarrow> string \<Rightarrow> (article_state \<Rightarrow> article_state) \<Rightarrow> reader_db \<Rightarrow> (reader_error + unit) \<times> reader_db" where
  "upsert_state u i f s =
     (if list_ex (is_state_of u i) (rd_states s)
      then (Inr (), s\<lparr>rd_states := fst (update_many (is_state_of u i) f (rd_states s))\<rparr>)
      else if i \<notin> ra_id ` set (rd_articles s) then (Inl Constraint_Violation, s)
      else (Inr (), s\<lparr>rd_states := rd_states s @ [f (new_state u i)]\<rparr>))"

definition article_belongs_to_user :: "reader_db \<Rightarrow> string \<Rightarrow> string \<Rightarrow> bool" where
  "article_belongs_to_user s u i = list_ex (\<lambda>a. article_access_where s u a \<and> ra_id a = i) (rd_articles s)"

text \<open>\<open>env\<close> is what others write between the check and the write.\<close>

definition write_own_state ::
  "(reader_db \<Rightarrow> reader_db) \<Rightarrow> string \<Rightarrow> string \<Rightarrow> (article_state \<Rightarrow> article_state) \<Rightarrow> reader_db \<Rightarrow>
    (reader_error + unit) \<times> reader_db" where
  "write_own_state env u i f s =
     (if article_belongs_to_user s u i then upsert_state u i f (env s) else (Inl Article_Not_Found, s))"

definition set_article_read_state ::
  "(reader_db \<Rightarrow> reader_db) \<Rightarrow> time \<Rightarrow> string \<Rightarrow> string \<Rightarrow> bool \<Rightarrow> reader_db \<Rightarrow> (reader_error + unit) \<times> reader_db" where
  "set_article_read_state env now u i is_read =
     write_own_state env u i (\<lambda>r. r\<lparr>as_read := is_read, as_read_at := (if is_read then Some now else None)\<rparr>)"

definition set_article_starred_state ::
  "(reader_db \<Rightarrow> reader_db) \<Rightarrow> time \<Rightarrow> string \<Rightarrow> string \<Rightarrow> bool \<Rightarrow> reader_db \<Rightarrow> (reader_error + unit) \<times> reader_db" where
  "set_article_starred_state env now u i is_starred =
     write_own_state env u i (\<lambda>r. r\<lparr>as_starred := is_starred, as_starred_at := (if is_starred then Some now else None)\<rparr>)"

definition delete_article_for_user ::
  "(reader_db \<Rightarrow> reader_db) \<Rightarrow> time \<Rightarrow> string \<Rightarrow> string \<Rightarrow> reader_db \<Rightarrow> (reader_error + unit) \<times> reader_db" where
  "delete_article_for_user env now u i =
     write_own_state env u i (\<lambda>r. r\<lparr>as_archived_at := Some now, as_read := True, as_read_at := Some now\<rparr>)"

subsection \<open>Marking in batches\<close>

definition article_read_batch_size :: nat where "article_read_batch_size = 250"

function slices :: "nat \<Rightarrow> 'a list \<Rightarrow> 'a list list" where
  "slices n xs = (if n = 0 \<or> xs = [] then [] else take n xs # slices n (drop n xs))"
  by pat_completeness auto
termination by (relation "measure (\<lambda>(n, xs). length xs)") auto

declare slices.simps [simp del]

text \<open>\<open>createMany\<close> with \<open>skipDuplicates\<close>, then \<open>updateMany\<close>.\<close>

fun create_read_states :: "string \<Rightarrow> time \<Rightarrow> string list \<Rightarrow> article_state list \<Rightarrow> article_state list" where
  "create_read_states u now [] states = states"
| "create_read_states u now (i # ids) states =
     create_read_states u now ids
       (if list_ex (is_state_of u i) states then states
        else states @ [(new_state u i)\<lparr>as_read := True, as_read_at := Some now\<rparr>])"

definition mark_batch :: "string \<Rightarrow> time \<Rightarrow> string list \<Rightarrow> reader_db \<Rightarrow> (reader_error + unit) \<times> reader_db" where
  "mark_batch u now ids s =
     (if list_ex (\<lambda>i. i \<notin> ra_id ` set (rd_articles s)) ids then (Inl Constraint_Violation, s)
      else (Inr (), s\<lparr>rd_states := fst (update_many (\<lambda>r. as_article r \<in> set ids \<and> as_user r = u)
             (\<lambda>r. r\<lparr>as_read := True, as_read_at := Some now\<rparr>)
             (create_read_states u now ids (rd_states s)))\<rparr>))"

fun mark_batches :: "string \<Rightarrow> time \<Rightarrow> string list list \<Rightarrow> reader_db \<Rightarrow> (reader_error + unit) \<times> reader_db" where
  "mark_batches u now [] s = (Inr (), s)"
| "mark_batches u now (b # bs) s =
     (case mark_batch u now b s of
        (Inl e, s') \<Rightarrow> (Inl e, s')
      | (Inr _, s') \<Rightarrow> mark_batches u now bs s')"

definition write_article_read_state_batches ::
  "nat \<Rightarrow> string \<Rightarrow> time \<Rightarrow> string list \<Rightarrow> reader_db \<Rightarrow> (reader_error + nat) \<times> reader_db" where
  "write_article_read_state_batches batch_size u now ids s =
     (let unique_ids = js_unique ids
      in case mark_batches u now (slices (max 1 batch_size) unique_ids) s of
           (Inl e, s') \<Rightarrow> (Inl e, s')
         | (Inr _, s') \<Rightarrow> (Inr (length unique_ids), s'))"

definition mark_articles_read ::
  "(reader_db \<Rightarrow> reader_db) \<Rightarrow> time \<Rightarrow> string \<Rightarrow> article_read_scope \<Rightarrow> reader_db \<Rightarrow> (reader_error + nat) \<times> reader_db" where
  "mark_articles_read env now u scope s =
     (let ids = map ra_id (filter (article_read_scope_where s u scope) (rd_articles s))
      in case write_article_read_state_batches article_read_batch_size u now ids (env s) of
           (Inl e, s') \<Rightarrow> (Inl e, s')
         | (Inr _, s') \<Rightarrow> (Inr (length ids), s'))"

subsection \<open>Following the pages\<close>

text \<open>A reader that follows the cursors; the database it asks may have changed at every page.\<close>

fun follow_pages :: "text_rest \<Rightarrow> string \<Rightarrow> list_filters \<Rightarrow> reader_db list \<Rightarrow> article list option" where
  "follow_pages rest u f [] = None"
| "follow_pages rest u f (s # ss) =
     (let p = list_reader_article_page rest s u f
      in case pg_next p of
           None \<Rightarrow> Some (pg_items p)
         | Some c \<Rightarrow> map_option ((@) (pg_items p)) (follow_pages rest u (f\<lparr>lf_after := Some c\<rparr>) ss))"

definition listed :: "string \<Rightarrow> list_filters \<Rightarrow> reader_db \<Rightarrow> article list" where
  "listed u f s = filter (article_list_where s u f) (rd_articles s)"

lemma where_after [simp]: "article_list_where s u (f\<lparr>lf_after := c\<rparr>) = article_list_where s u f"
  by (simp add: article_list_where_def fun_eq_iff)

lemma listed_after [simp]: "listed u (f\<lparr>lf_after := c\<rparr>) = listed u f"
  by (simp add: listed_def fun_eq_iff)

lemma follow_read_pages:
  "follow_pages rest u f ss =
    read_pages rest article_position (page_size (lf_limit f) 100) (lf_after f) (map (listed u f) ss)"
proof (induction ss arbitrary: f)
  case (Cons s ss)
  have "list_reader_article_page rest s u f =
      time_page rest article_position (page_size (lf_limit f) 100) (lf_after f) (listed u f s)"
    by (simp add: list_reader_article_page_def listed_def)
  then show ?case using Cons.IH by (simp add: Let_def split: option.split)
qed simp

lemma page_size_pos [simp]: "0 < page_size v m"
  by (simp add: page_size_def)

lemma listed_ok: "table_ok article_position (rd_articles s) \<Longrightarrow> table_ok article_position (listed u f s)"
  by (auto simp: table_ok_def listed_def distinct_map_filter)

lemma follow_pages_facts:
  assumes "\<forall>s \<in> set ss. table_ok article_position (rd_articles s)" and "lf_after f = None"
    and "follow_pages rest u f ss = Some shown"
  shows "newest_first article_position shown \<and> (\<forall>a \<in> set shown. \<exists>s \<in> set ss. a \<in> set (listed u f s)) \<and>
    (\<forall>a. (\<forall>s \<in> set ss. a \<in> set (listed u f s)) \<longrightarrow> a \<in> set shown)"
proof -
  have ok: "\<forall>t \<in> set (map (listed u f) ss). table_ok article_position t" using assms(1) listed_ok by auto
  have none: "decode_time_cursor rest (lf_after f) = None" using assms(2) by (simp add: decode_time_cursor_def)
  from read_pages_facts [OF ok page_size_pos none assms(3) [unfolded follow_read_pages]]
  show ?thesis by (simp add: before_cursor_def)
qed


lemma follow_pages_constant:
  assumes "table_ok article_position (rd_articles s)" and "lf_after f = None" and "length (listed u f s) < m"
  shows "follow_pages rest u f (replicate m s) =
    Some (rev (sort_key (\<lambda>a. time_key (article_position a)) (listed u f s)))"
proof -
  let ?all = "rev (sort_key (\<lambda>a. time_key (article_position a)) (listed u f s))"
  have none: "decode_time_cursor rest (lf_after f) = None" using assms(2) by (simp add: decode_time_cursor_def)
  have "read_pages rest article_position (page_size (lf_limit f) 100) (lf_after f) (replicate m (listed u f s)) \<noteq> None"
    using assms(3) by (intro read_pages_finish [OF listed_ok [OF assms(1)] page_size_pos none])
      (simp add: before_cursor_def)
  then obtain shown where shown: "follow_pages rest u f (replicate m s) = Some shown"
    by (auto simp: follow_read_pages map_replicate_const)
  have "m \<noteq> 0" using assms(3) by simp
  then have facts: "newest_first article_position shown" "set shown = set (listed u f s)"
    using follow_pages_facts [OF _ assms(2) shown] assms(1) by auto
  moreover have "newest_first article_position ?all"
    using newest_sorted [OF listed_ok [OF assms(1)], of "\<lambda>x. True"] by simp
  ultimately show ?thesis using shown newest_first_unique [of article_position shown ?all] by simp
qed

text \<open>C34: Over a database that does not change a reader is done after at most one request more than
  there are articles, and has then seen exactly the whole list in its order.\<close>

theorem reader_pages_finish:
  assumes "table_ok article_position (rd_articles s)" and "lf_after f = None" and "length (listed u f s) < m"
  shows "follow_pages rest u f (replicate m s) =
    Some (rev (sort_key (\<lambda>a. time_key (article_position a)) (listed u f s)))"
  by (rule follow_pages_constant [OF assms])

subsection \<open>Authorization\<close>

definition visible_to :: "reader_db \<Rightarrow> string \<Rightarrow> article \<Rightarrow> bool" where
  "visible_to s u a \<longleftrightarrow> a \<in> set (rd_articles s) \<and> article_access_where s u a \<and> not_archived_article_where s u a"

lemma collection_access: "collection_article_where s u c a \<Longrightarrow> article_access_where s u a"
  by (auto simp: collection_article_where_def article_access_where_def list_ex_iff truthy_def)

lemma list_where_access: "article_list_where s u f a \<Longrightarrow> article_access_where s u a \<and> not_archived_article_where s u a"
  by (auto simp: article_list_where_def article_access_where_def collection_access split: if_splits
      dest: collection_access)

lemma set_js_unique [simp]: "set (js_unique xs) = set xs"
  by (simp add: js_unique_def)

lemma distinct_js_unique [simp]: "distinct (js_unique xs)"
  by (simp add: js_unique_def)

lemma find_newest_in: "a \<in> set (find_newest pos p n rows) \<Longrightarrow> a \<in> set rows \<and> p a"
  by (auto simp: find_newest_def dest!: in_set_takeD)

lemma time_page_in: "a \<in> set (pg_items (time_page rest pos n after rows)) \<Longrightarrow> a \<in> set rows"
  by (auto simp: time_page_def Let_def dest!: in_set_takeD find_newest_in)

lemma by_ids_visible:
  assumes "a \<in> set (list_reader_articles_by_ids s u ids)"
  shows "visible_to s u a \<and> ra_id a \<in> set ids"
proof -
  let ?rows = "filter (\<lambda>a. ra_id a \<in> set (filter (\<lambda>i. i \<noteq> []) (js_unique ids)) \<and>
      not_archived_article_where s u a \<and> article_access_where s u a) (rd_articles s)"
  obtain i where "a \<in> set (case row_at ra_id i ?rows of None \<Rightarrow> [] | Some a \<Rightarrow> [a])"
    using assms unfolding list_reader_articles_by_ids_def Let_def by auto
  then have "row_at ra_id i ?rows = Some a" by (simp split: option.splits)
  from row_at_SomeD [OF this] show ?thesis by (auto simp: visible_to_def)
qed

lemma page_visible: "a \<in> set (pg_items (list_reader_article_page rest s u f)) \<Longrightarrow> visible_to s u a"
  using list_where_access by (auto simp: list_reader_article_page_def visible_to_def dest!: time_page_in)

lemma articles_visible: "a \<in> set (list_reader_articles rest s u f) \<Longrightarrow> visible_to s u a"
  using list_where_access by (auto simp: list_reader_articles_def visible_to_def dest!: find_newest_in)

lemma find_SomeD: "List.find p xs = Some a \<Longrightarrow> a \<in> set xs \<and> p a"
  by (auto simp: find_Some_iff)

lemma selected_visible: "selected_article_id visible selected = Some i \<Longrightarrow> i \<in> set visible"
  by (auto simp: selected_article_id_def Let_def split: option.splits if_splits list.splits)

lemma detail_ids_visible:
  "i \<in> set (detail_article_ids r visible (selected_article_id visible selected)) \<Longrightarrow> i \<in> set visible"
  by (auto simp: detail_article_ids_def Let_def selected_visible dest: in_set_takeD split: if_splits option.splits)

lemma view_visible:
  assumes "load_reader_article_view s u ids v m i = w" "a \<in> set (av_river w) \<or> av_selected w = Some a"
  shows "visible_to s u a \<and> ra_id a \<in> set ids"
proof -
  let ?visible = "filter (\<lambda>i. i \<noteq> []) (js_unique ids)"
  let ?ids = "detail_article_ids (m = ''READER'' \<or> v = ''RIVER'') ?visible (selected_article_id ?visible i)"
  let ?details = "list_reader_articles_by_ids s u ?ids"
  have w: "w = \<lparr>av_river = (if m = ''READER'' \<or> v = ''RIVER'' then ?details else []),
      av_selected = List.find (\<lambda>a. Some (ra_id a) = selected_article_id ?visible i) ?details\<rparr>"
    unfolding assms(1) [symmetric] by (simp only: load_reader_article_view_def Let_def)
  have "a \<in> set ?details"
    using assms(2) unfolding w article_view.simps by (auto split: if_splits dest: find_SomeD)
  note found = by_ids_visible [OF this]
  have "ra_id a \<in> set ?visible" by (rule detail_ids_visible) (use found in blast)
  then show ?thesis using found by simp
qed

lemma detail_visible: "get_reader_article s u i = Some a \<Longrightarrow> visible_to s u a \<and> ra_id a = i"
  by (auto simp: get_reader_article_def visible_to_def dest!: find_SomeD)


subsection \<open>What the writes change\<close>

definition others :: "string \<Rightarrow> string \<Rightarrow> reader_db \<Rightarrow> article_state list" where
  "others u i s = filter (\<lambda>r. \<not> is_state_of u i r) (rd_states s)"

lemma filter_update_other:
  assumes "\<And>r. p r \<Longrightarrow> \<not> q r" "\<And>r. p r \<Longrightarrow> \<not> q (f r)"
  shows "filter q (fst (update_many p f t)) = filter q t"
  by (induction t) (auto simp: update_many_def assms)

lemma upsert_effect:
  assumes "upsert_state u i f s = (r, s')" "\<And>x. is_state_of u i x \<Longrightarrow> is_state_of u i (f x)"
  shows "s' = s\<lparr>rd_states := rd_states s'\<rparr> \<and> others u i s' = others u i s \<and>
    (r = Inr () \<longrightarrow> (\<exists>x \<in> set (rd_states s'). is_state_of u i x \<and> (\<exists>y. x = f y)))"
proof (cases "list_ex (is_state_of u i) (rd_states s)")
  case True
  then obtain x where "x \<in> set (rd_states s)" "is_state_of u i x" by (auto simp: list_ex_iff)
  then have "f x \<in> set (fst (update_many (is_state_of u i) f (rd_states s)))" "is_state_of u i (f x)"
    using assms(2) unfolding update_many_set by auto
  then show ?thesis using assms True by (auto simp: upsert_state_def others_def filter_update_other)
next
  case False
  have "is_state_of u i (f (new_state u i))" using assms(2) by (simp add: is_state_of_def new_state_def)
  then show ?thesis using assms(1) False by (auto simp: upsert_state_def others_def split: if_splits)
qed

lemma write_own_effect:
  assumes "write_own_state env u i f s = (r, s')" "\<And>x. is_state_of u i x \<Longrightarrow> is_state_of u i (f x)"
  shows "(if article_belongs_to_user s u i
      then s' = (env s)\<lparr>rd_states := rd_states s'\<rparr> \<and> others u i s' = others u i (env s) \<and>
        (r = Inr () \<longrightarrow> (\<exists>x \<in> set (rd_states s'). is_state_of u i x \<and> (\<exists>y. x = f y)))
      else r = Inl Article_Not_Found \<and> s' = s)"
  using assms(1) upsert_effect [of u i f "env s" r s'] assms(2) by (auto simp: write_own_state_def split: if_splits)

text \<open>C35: Marking read or unread, starring and deleting write one row only, the user's own state of
  that article: a user without access to the article is refused and nothing is written, and states
  of other users or articles stay as they are whatever others write in between.\<close>

theorem article_state_own:
  assumes "(r, s') = set_article_read_state env now u i b s \<or> (r, s') = set_article_starred_state env now u i b s \<or>
    (r, s') = delete_article_for_user env now u i s"
  shows "if article_belongs_to_user s u i
    then s' = (env s)\<lparr>rd_states := rd_states s'\<rparr> \<and> others u i s' = others u i (env s)
    else r = Inl Article_Not_Found \<and> s' = s"
proof -
  have frame: ?thesis if "(r, s') = write_own_state env u i f s" "\<And>x. is_state_of u i x \<Longrightarrow> is_state_of u i (f x)" for f
    using write_own_effect [OF that(1) [symmetric] that(2)] by (auto split: if_splits)
  from assms show ?thesis
    unfolding set_article_read_state_def set_article_starred_state_def delete_article_for_user_def
    by (elim disjE) (erule frame, simp add: is_state_of_def)+
qed

text \<open>An article its user deleted never comes back in any list, lookup or view of the reader as
  long as the state row stands.\<close>

theorem deleted_article_gone:
  assumes "delete_article_for_user env now u i s = (Inr (), s')"
  shows "article_belongs_to_user s u i \<and> (\<forall>a. visible_to s' u a \<longrightarrow> ra_id a \<noteq> i)"
proof -
  let ?f = "\<lambda>r. r\<lparr>as_archived_at := Some now, as_read := True, as_read_at := Some now\<rparr>"
  have own: "is_state_of u i (?f x)" if "is_state_of u i x" for x using that by (simp add: is_state_of_def)
  note eff = write_own_effect [OF assms [unfolded delete_article_for_user_def] own]
  then have b: "article_belongs_to_user s u i" by (auto split: if_splits)
  then obtain x y where x: "x \<in> set (rd_states s')" "is_state_of u i x" "x = ?f y"
    using eff by (auto split: if_splits)
  have "\<not> not_archived_article_where s' u a" if "ra_id a = i" for a
    using x that by (auto simp: not_archived_article_where_def some_state_def list_ex_iff is_state_of_def
        intro!: bexI [of _ x])
  then show ?thesis using b by (auto simp: visible_to_def)
qed

subsection \<open>Batches\<close>

definition marked :: "string \<Rightarrow> reader_db \<Rightarrow> string \<Rightarrow> bool" where
  "marked u s i \<longleftrightarrow> (\<exists>r \<in> set (rd_states s). is_state_of u i r) \<and>
     (\<forall>r \<in> set (rd_states s). is_state_of u i r \<longrightarrow> as_read r)"

definition foreign :: "string \<Rightarrow> article_state list \<Rightarrow> article_state list" where
  "foreign u states = filter (\<lambda>r. as_user r \<noteq> u) states"

lemma create_states_effect:
  "foreign u (create_read_states u now ids states) = foreign u states \<and>
   set states \<subseteq> set (create_read_states u now ids states) \<and>
   (\<forall>i \<in> set ids. \<exists>r \<in> set (create_read_states u now ids states). is_state_of u i r) \<and>
   (\<forall>r \<in> set (create_read_states u now ids states). r \<in> set states \<or> as_read r)"
proof (induction u now ids states rule: create_read_states.induct)
  case (2 u now i ids states)
  let ?next = "if list_ex (is_state_of u i) states then states
        else states @ [(new_state u i)\<lparr>as_read := True, as_read_at := Some now\<rparr>]"
  have n: "foreign u ?next = foreign u states" "set states \<subseteq> set ?next" "\<exists>r \<in> set ?next. is_state_of u i r"
    "\<forall>r \<in> set ?next. r \<in> set states \<or> as_read r"
    by (auto simp: foreign_def new_state_def is_state_of_def list_ex_iff)
  let ?out = "create_read_states u now ids ?next"
  have IH: "foreign u ?out = foreign u ?next" "set ?next \<subseteq> set ?out" "\<forall>i \<in> set ids. \<exists>r \<in> set ?out. is_state_of u i r"
    "\<forall>r \<in> set ?out. r \<in> set ?next \<or> as_read r"
    using 2 by blast+
  have all: "\<exists>r \<in> set ?out. is_state_of u j r" if "j \<in> set (i # ids)" for j
  proof (cases "j = i")
    case True
    then show ?thesis using n(3) IH(2) by blast
  next
    case False
    then show ?thesis using that IH(3) by simp
  qed
  have "foreign u ?out = foreign u states" "set states \<subseteq> set ?out" "\<forall>r \<in> set ?out. r \<in> set states \<or> as_read r"
    using IH(1,2,4) n(1,2,4) by (simp, blast, blast)
  then show ?case unfolding create_read_states.simps using all by (intro conjI ballI) blast+
qed simp

definition same_but_states :: "reader_db \<Rightarrow> reader_db \<Rightarrow> bool" where
  "same_but_states s s' \<longleftrightarrow> s' = s\<lparr>rd_states := rd_states s'\<rparr>"

lemma same_but_states_simps:
  assumes "same_but_states s s'"
  shows "rd_articles s' = rd_articles s" "rd_subscriptions s' = rd_subscriptions s" "rd_items s' = rd_items s"
    "rd_feed_urls s' = rd_feed_urls s"
  by (subst assms [unfolded same_but_states_def], simp)+

lemma same_but_states_trans: "same_but_states s t \<Longrightarrow> same_but_states t v \<Longrightarrow> same_but_states s v"
  unfolding same_but_states_def by (metis reader_db.update_convs(5) reader_db.surjective reader_db.select_convs(5))

text \<open>A batch keeps what was marked, marks its articles and leaves other users alone.\<close>

definition marks :: "string \<Rightarrow> string list \<Rightarrow> reader_db \<Rightarrow> reader_db \<Rightarrow> bool" where
  "marks u ids s s' \<longleftrightarrow> same_but_states s s' \<and> foreign u (rd_states s') = foreign u (rd_states s) \<and>
     (\<forall>i. i \<in> set ids \<or> marked u s i \<longrightarrow> marked u s' i)"

lemma marks_refl: "marks u [] s s"
  by (simp add: marks_def same_but_states_def)

lemma marks_trans: "marks u a s t \<Longrightarrow> marks u b t v \<Longrightarrow> marks u (a @ b) s v"
  unfolding marks_def using same_but_states_trans by (metis Un_iff set_append)

lemma mark_batch_marks:
  assumes "set ids \<subseteq> ra_id ` set (rd_articles s)" "mark_batch u now ids s = (r, s')"
  shows "r = Inr () \<and> marks u ids s s'"
proof -
  let ?created = "create_read_states u now ids (rd_states s)"
  let ?p = "\<lambda>r. as_article r \<in> set ids \<and> as_user r = u"
  let ?f = "\<lambda>r. r\<lparr>as_read := True, as_read_at := Some now\<rparr>"
  have r: "r = Inr ()" and s': "s' = s\<lparr>rd_states := fst (update_many ?p ?f ?created)\<rparr>"
    using assms by (auto simp: mark_batch_def list_ex_iff split: if_splits)
  note created = create_states_effect [of u now ids "rd_states s"]
  have states: "x \<in> set (rd_states s') \<longleftrightarrow> (\<exists>y \<in> set ?created. x = (if ?p y then ?f y else y))" for x
    by (simp add: s' update_many_set)
  have own: "is_state_of u i (?f y) = is_state_of u i y" for i y by (simp add: is_state_of_def)
  have "marked u s' i" if i: "i \<in> set ids \<or> marked u s i" for i
  proof -
    have "\<exists>y \<in> set ?created. is_state_of u i y" using i created unfolding marked_def by blast
    then obtain y where y: "y \<in> set ?created" "is_state_of u i y" by blast
    then have "(if ?p y then ?f y else y) \<in> set (rd_states s')" "is_state_of u i (if ?p y then ?f y else y)"
      using states own by auto
    moreover have "as_read x" if x: "x \<in> set (rd_states s')" "is_state_of u i x" for x
    proof -
      obtain z where z: "z \<in> set ?created" "x = (if ?p z then ?f z else z)" using x(1) states by blast
      show ?thesis
      proof (cases "?p z")
        case False
        have "x = z" using z(2) by (simp only: False if_False)
        then have "is_state_of u i z" using x(2) by simp
        then have "i \<notin> set ids" using False by (simp add: is_state_of_def)
        then have "marked u s i" using i by simp
        then show ?thesis using created z(1) \<open>x = z\<close> \<open>is_state_of u i z\<close> unfolding marked_def by blast
      qed (simp add: z)
    qed
    ultimately show ?thesis unfolding marked_def by blast
  qed
  moreover have "foreign u (rd_states s') = foreign u (rd_states s)"
  proof -
    have "rd_states s' = fst (update_many ?p ?f ?created)" by (simp add: s')
    then have "foreign u (rd_states s') = foreign u ?created"
      unfolding foreign_def by (simp only:) (rule filter_update_other; simp)
    then show ?thesis using created by simp
  qed
  ultimately show ?thesis using r s' by (simp add: marks_def same_but_states_def)
qed

lemma mark_batches_marks:
  "\<forall>b \<in> set bs. set b \<subseteq> ra_id ` set (rd_articles s) \<Longrightarrow> mark_batches u now bs s = (r, s') \<Longrightarrow>
   r = Inr () \<and> marks u (concat bs) s s'"
proof (induction bs arbitrary: s)
  case (Cons b bs)
  obtain r1 s1 where m: "mark_batch u now b s = (r1, s1)" by fastforce
  have b: "r1 = Inr ()" "marks u b s s1" using mark_batch_marks [OF _ m] Cons.prems(1) by auto
  then have "rd_articles s1 = rd_articles s" using same_but_states_simps unfolding marks_def by blast
  then have "r = Inr () \<and> marks u (concat bs) s1 s'" using Cons.IH [of s1] Cons.prems m b(1) by simp
  then show ?case using marks_trans [OF b(2)] by simp
qed (simp add: marks_refl)

lemma concat_slices: "0 < n \<Longrightarrow> concat (slices n xs) = xs"
  by (induction n xs rule: slices.induct) (subst slices.simps, simp)

lemma write_batches_marks:
  assumes "set ids \<subseteq> ra_id ` set (rd_articles s)" "write_article_read_state_batches n u now ids s = (r, s')"
  shows "r = Inr (length (js_unique ids)) \<and> marks u ids s s'"
proof -
  let ?bs = "slices (max 1 n) (js_unique ids)"
  obtain r1 where m: "mark_batches u now ?bs s = (r1, s')" "r = (case r1 of Inl e \<Rightarrow> Inl e | Inr _ \<Rightarrow> Inr (length (js_unique ids)))"
    using assms(2) by (auto simp: write_article_read_state_batches_def Let_def split: prod.splits sum.splits)
  have c: "concat ?bs = js_unique ids" by (rule concat_slices) simp
  then have "set (concat ?bs) = set ids" by simp
  moreover have "set b \<subseteq> set (concat ?bs)" if "b \<in> set ?bs" for b using that by auto
  ultimately have "\<forall>b \<in> set ?bs. set b \<subseteq> ra_id ` set (rd_articles s)" using assms(1) by blast
  then have "r1 = Inr () \<and> marks u (js_unique ids) s s'" using mark_batches_marks [OF _ m(1)] c by simp
  then show ?thesis using m(2) by (simp add: marks_def)
qed

subsection \<open>An example\<close>

definition example_reader :: reader_db where
  "example_reader = \<lparr>rd_articles = [\<lparr>ra_id = ''a1'', ra_feed = ''f'', ra_url = ''u1'', ra_published_at = Some 5, ra_created_at = 6\<rparr>,
       \<lparr>ra_id = ''a2'', ra_feed = ''f'', ra_url = ''u2'', ra_published_at = None, ra_created_at = 7\<rparr>],
     rd_feed_urls = [(''f'', ''https://f.ex/'')],
     rd_subscriptions = [\<lparr>rs_user = ''u'', rs_feed = ''f'', rs_folder = None, rs_paused = False\<rparr>],
     rd_items = [], rd_states = []\<rparr>"

definition example_filters :: list_filters where
  "example_filters = \<lparr>lf_after = None, lf_collection = None, lf_feed = None, lf_folder = None, lf_limit = 1,
     lf_starred_only = False, lf_unread_only = False\<rparr>"

definition example_rest :: text_rest where
  "example_rest = \<lparr>rest_json = \<lambda>s. None, rest_date = \<lambda>s. None, rest_number = \<lambda>s. None\<rparr>"

lemma example_cursor_ok:
  "cursor_ok \<lparr>tc_published = Some 5, tc_created = 6, tc_id = ''a1''\<rparr>"
  "cursor_ok \<lparr>tc_published = None, tc_created = 7, tc_id = ''a2''\<rparr>"
  by code_simp+

theorem time_cursor_round_trip_witness:
  "decode_time_cursor example_rest (Some (encode_time_cursor \<lparr>tc_published = Some 5, tc_created = 6, tc_id = ''a1''\<rparr>)) =
    Some \<lparr>tc_published = Some 5, tc_created = 6, tc_id = ''a1''\<rparr>"
  by (rule time_cursor_round_trip [OF example_cursor_ok(1)])

lemma example_table_ok: "table_ok article_position (rd_articles example_reader)"
  using example_cursor_ok by (simp add: table_ok_def example_reader_def article_position_def)

lemma example_listed: "listed ''u'' example_filters example_reader = rd_articles example_reader"
  by (simp add: listed_def example_reader_def article_list_where_def example_filters_def truthy_def
      subscribed_article_where_def not_archived_article_where_def some_state_def)

theorem reader_pages_finish_witness:
  "follow_pages example_rest ''u'' example_filters (replicate 3 example_reader) =
    Some (rev (sort_key (\<lambda>a. time_key (article_position a)) (rd_articles example_reader)))"
  using reader_pages_finish [OF example_table_ok, of example_filters "''u''" 3 example_rest]
  by (simp add: example_listed) (simp add: example_filters_def example_reader_def)


theorem article_state_own_witness:
  "\<exists>r s'. set_article_read_state (\<lambda>s. s) 9 ''u'' ''a1'' True example_reader = (r, s') \<and>
    others ''u'' ''a1'' s' = others ''u'' ''a1'' example_reader"
proof -
  obtain r s' where w: "(r, s') = set_article_read_state (\<lambda>s. s) 9 ''u'' ''a1'' True example_reader"
    by (metis surj_pair)
  have "others ''u'' ''a1'' s' = others ''u'' ''a1'' example_reader"
    using article_state_own [OF disjI1 [OF w]] by (simp split: if_splits)
  then show ?thesis using w by metis
qed

theorem deleted_article_gone_witness:
  "\<exists>s'. delete_article_for_user (\<lambda>s. s) 9 ''u'' ''a1'' example_reader = (Inr (), s') \<and>
    (\<forall>a. visible_to s' ''u'' a \<longrightarrow> ra_id a \<noteq> ''a1'')"
proof -
  have "fst (delete_article_for_user (\<lambda>s. s) 9 ''u'' ''a1'' example_reader) = Inr ()" by code_simp
  then obtain s' where "delete_article_for_user (\<lambda>s. s) 9 ''u'' ''a1'' example_reader = (Inr (), s')"
    by (metis prod.collapse)
  then show ?thesis using deleted_article_gone by blast
qed


end
