(* ===== verification/Bulk_Read.thy ===== *)
theory Bulk_Read
  imports Reader_Articles
begin

text \<open>
  The background job of \<open>src/lib/bulk-read-jobs.ts\<close> that marks a large scope as read: start, the
  batch loop of the worker with its persisted cursor, cancel and fail. What others write between the
  queries of a worker is the parameter \<open>bc_env\<close>, indexed by the point. The loop runs on fuel; one
  round more than there are articles is enough. The progress callback is not modelled.
\<close>

datatype bulk_status = Queued | Processing | Completed | Bulk_Failed | Canceled

record bulk_read_job =
  bj_id :: string
  bj_user :: string
  bj_scope_type :: string
  bj_feed :: "string option"
  bj_folder :: "string option"
  bj_status :: bulk_status
  bj_total :: nat
  bj_processed :: nat
  bj_marked :: nat
  bj_last_article :: "string option"
  bj_error :: "string option"
  bj_started_at :: "time option"
  bj_completed_at :: "time option"
  bj_canceled_at :: "time option"
  bj_created_at :: time

record bulk_db =
  bd_reader :: reader_db
  bd_jobs :: "bulk_read_job list"
  bd_queue :: "string list"

datatype bulk_error = Reader_Failure reader_error | Job_Missing | Start_Failed

definition bulk_read_sync_article_limit :: nat where "bulk_read_sync_article_limit = 500"

definition is_terminal :: "bulk_status \<Rightarrow> bool" where
  "is_terminal st \<longleftrightarrow> st = Canceled \<or> st = Completed \<or> st = Bulk_Failed"

definition is_open :: "bulk_status \<Rightarrow> bool" where
  "is_open st \<longleftrightarrow> st = Queued \<or> st = Processing"

definition bulk_read_scope_data :: "article_read_scope \<Rightarrow> string \<times> string option \<times> string option" where
  "bulk_read_scope_data scope =
     (case scope of
        Feed_Articles f \<Rightarrow> (''feed'', Some f, None)
      | Folder_Articles f \<Rightarrow> (''folder'', None, Some f)
      | All_Articles \<Rightarrow> (''all'', None, None))"

definition bulk_read_scope_where :: "article_read_scope \<Rightarrow> bulk_read_job \<Rightarrow> bool" where
  "bulk_read_scope_where scope j \<longleftrightarrow>
     (case scope of
        Feed_Articles f \<Rightarrow> bj_feed j = Some f \<and> bj_folder j = None \<and> bj_scope_type j = ''feed''
      | Folder_Articles f \<Rightarrow> bj_feed j = None \<and> bj_folder j = Some f \<and> bj_scope_type j = ''folder''
      | All_Articles \<Rightarrow> bj_feed j = None \<and> bj_folder j = None \<and> bj_scope_type j = ''all'')"

definition read_scope_from_job :: "bulk_read_job \<Rightarrow> article_read_scope" where
  "read_scope_from_job j =
     (if bj_scope_type j = ''feed'' \<and> truthy (bj_feed j) then Feed_Articles (the (bj_feed j))
      else if bj_scope_type j = ''folder'' \<and> truthy (bj_folder j) then Folder_Articles (the (bj_folder j))
      else All_Articles)"

subsection \<open>Starting a job\<close>

datatype start_result = Start_Completed nat | Start_Queued string nat

definition new_bulk_job :: "string \<Rightarrow> string \<Rightarrow> article_read_scope \<Rightarrow> nat \<Rightarrow> time \<Rightarrow> bulk_read_job" where
  "new_bulk_job i u scope total_articles now =
     \<lparr>bj_id = i, bj_user = u, bj_scope_type = fst (bulk_read_scope_data scope),
      bj_feed = fst (snd (bulk_read_scope_data scope)), bj_folder = snd (snd (bulk_read_scope_data scope)),
      bj_status = Queued, bj_total = total_articles, bj_processed = 0, bj_marked = 0, bj_last_article = None,
      bj_error = None, bj_started_at = None, bj_completed_at = None, bj_canceled_at = None, bj_created_at = now\<rparr>"

definition update_job :: "string \<Rightarrow> (bulk_read_job \<Rightarrow> bulk_read_job) \<Rightarrow> bulk_db \<Rightarrow> bulk_db option" where
  "update_job i f s =
     (if i \<in> bj_id ` set (bd_jobs s)
      then Some (s\<lparr>bd_jobs := fst (update_many (\<lambda>j. bj_id j = i) f (bd_jobs s))\<rparr>) else None)"

text \<open>\<open>env\<close> is indexed by the points between the queries; \<open>job_id\<close> is the identifier the database makes;
  \<open>enqueue_ok\<close> tells whether the queue takes the job.\<close>

definition start_bulk_read ::
  "(nat \<Rightarrow> bulk_db \<Rightarrow> bulk_db) \<Rightarrow> time \<Rightarrow> string \<Rightarrow> bool \<Rightarrow> article_read_scope \<Rightarrow> string \<Rightarrow> bulk_db \<Rightarrow>
    (bulk_error + start_result) \<times> bulk_db" where
  "start_bulk_read env now job_id enqueue_ok scope u s =
     (let total_articles = length (filter (article_read_scope_where (bd_reader s) u scope) (rd_articles (bd_reader s)))
      in if total_articles \<le> bulk_read_sync_article_limit
         then
           (let s1 = env 0 s;
                ids = map ra_id (filter (article_read_scope_where (bd_reader s1) u scope) (rd_articles (bd_reader s1)));
                s2 = env 1 s1
            in case write_article_read_state_batches article_read_batch_size u now ids (bd_reader s2) of
                 (Inl e, r) \<Rightarrow> (Inl (Reader_Failure e), s2\<lparr>bd_reader := r\<rparr>)
               | (Inr n, r) \<Rightarrow> (Inr (Start_Completed n), s2\<lparr>bd_reader := r\<rparr>))
         else
           (let s1 = env 0 s;
                existing = least_by (\<lambda>j. - bj_created_at j)
                  (filter (\<lambda>j. bulk_read_scope_where scope j \<and> is_open (bj_status j) \<and> bj_user j = u) (bd_jobs s1))
            in case existing of
                 Some j \<Rightarrow> (Inr (Start_Queued (bj_id j) total_articles), s1)
               | None \<Rightarrow>
                   (let s2 = env 1 s1;
                        s3 = s2\<lparr>bd_jobs := bd_jobs s2 @ [new_bulk_job job_id u scope total_articles now]\<rparr>
                    in if enqueue_ok
                       then (Inr (Start_Queued job_id total_articles), s3\<lparr>bd_queue := bd_queue s3 @ [job_id]\<rparr>)
                       else case update_job job_id
                           (\<lambda>j. j\<lparr>bj_error := Some ''The background worker could not be reached. Please try again.'',
                              bj_status := Bulk_Failed\<rparr>) (env 2 s3) of
                         None \<Rightarrow> (Inl Job_Missing, env 2 s3)
                       | Some s4 \<Rightarrow> (Inl Start_Failed, s4))))"

subsection \<open>The worker\<close>

record bulk_call =
  bc_env :: "nat \<Rightarrow> bulk_db \<Rightarrow> bulk_db"
  bc_now :: "nat \<Rightarrow> time"

datatype bulk_outcome = Job_Gone | Job_Status bulk_status | Job_Completed nat nat

definition next_batch :: "bulk_read_job \<Rightarrow> article_read_scope \<Rightarrow> reader_db \<Rightarrow> string list" where
  "next_batch j scope s =
     take article_read_batch_size (sort (map ra_id (filter
       (\<lambda>a. article_read_scope_where s (bj_user j) scope a \<and>
          (truthy (bj_last_article j) \<longrightarrow> the (bj_last_article j) < ra_id a)) (rd_articles s))))"

text \<open>One round: the job is read again, then a batch, its writes and the cursor. \<open>Inl\<close> ends the loop.\<close>

definition bulk_round ::
  "bulk_call \<Rightarrow> nat \<Rightarrow> string \<Rightarrow> article_read_scope \<Rightarrow> bulk_db \<Rightarrow> ((bulk_error + bulk_outcome) + unit) \<times> bulk_db" where
  "bulk_round c k job_id scope s =
     (let s0 = bc_env c (4 * k + 1) s
      in case row_at bj_id job_id (bd_jobs s0) of
           None \<Rightarrow> (Inl (Inr Job_Gone), s0)
         | Some j \<Rightarrow>
             if bj_status j = Canceled then (Inl (Inr (Job_Status Canceled)), s0)
             else
               (let s1 = bc_env c (4 * k + 2) s0; ids = next_batch j scope (bd_reader s1);
                    s2 = bc_env c (4 * k + 3) s1
                in if ids = []
                   then case update_job job_id
                       (\<lambda>x. x\<lparr>bj_completed_at := Some (bc_now c (k + 1)), bj_status := Completed\<rparr>) s2 of
                       None \<Rightarrow> (Inl (Inl Job_Missing), s2)
                     | Some s3 \<Rightarrow> (Inl (Inr (Job_Completed (bj_marked j) (bj_processed j))), s3)
                   else
                     case write_article_read_state_batches article_read_batch_size (bj_user j) (bc_now c (k + 1)) ids
                         (bd_reader s2) of
                       (Inl e, r) \<Rightarrow> (Inl (Inl (Reader_Failure e)), s2\<lparr>bd_reader := r\<rparr>)
                     | (Inr _, r) \<Rightarrow>
                         (let s3 = bc_env c (4 * k + 4) (s2\<lparr>bd_reader := r\<rparr>);
                              processed = min (bj_total j) (bj_processed j + length ids);
                              marked = min processed (bj_marked j + length ids)
                          in case update_job job_id (\<lambda>x. x\<lparr>bj_last_article := Some (last ids), bj_marked := marked,
                                 bj_processed := processed, bj_status := Processing\<rparr>) s3 of
                               None \<Rightarrow> (Inl (Inl Job_Missing), s3)
                             | Some s4 \<Rightarrow> (Inr (), s4))))"

fun bulk_loop ::
  "bulk_call \<Rightarrow> nat \<Rightarrow> nat \<Rightarrow> string \<Rightarrow> article_read_scope \<Rightarrow> bulk_db \<Rightarrow> (bulk_error + bulk_outcome) option \<times> bulk_db" where
  "bulk_loop c 0 k job_id scope s = (None, s)"
| "bulk_loop c (Suc n) k job_id scope s =
     (case bulk_round c k job_id scope s of
        (Inl r, s') \<Rightarrow> (Some r, s')
      | (Inr _, s') \<Rightarrow> bulk_loop c n (k + 1) job_id scope s')"

definition process_bulk_read_job ::
  "bulk_call \<Rightarrow> nat \<Rightarrow> string \<Rightarrow> bulk_db \<Rightarrow> (bulk_error + bulk_outcome) option \<times> bulk_db" where
  "process_bulk_read_job c fuel job_id s =
     (case row_at bj_id job_id (bd_jobs s) of
        None \<Rightarrow> (Some (Inr Job_Gone), s)
      | Some j \<Rightarrow>
          if is_terminal (bj_status j) then (Some (Inr (Job_Status (bj_status j))), s)
          else case update_job job_id (\<lambda>x. x\<lparr>bj_started_at := Some (bc_now c 0), bj_status := Processing\<rparr>)
                 (bc_env c 0 s) of
            None \<Rightarrow> (Some (Inl Job_Missing), bc_env c 0 s)
          | Some s1 \<Rightarrow> bulk_loop c fuel 0 job_id (read_scope_from_job j) s1)"

subsection \<open>Cancel and fail\<close>

definition cancel_bulk_read_job :: "time \<Rightarrow> string \<Rightarrow> string \<Rightarrow> bulk_db \<Rightarrow> bool \<times> bulk_db" where
  "cancel_bulk_read_job now job_id u s =
     (let (jobs, n) = update_many (\<lambda>j. bj_id j = job_id \<and> is_open (bj_status j) \<and> bj_user j = u)
        (\<lambda>j. j\<lparr>bj_canceled_at := Some now, bj_status := Canceled\<rparr>) (bd_jobs s)
      in (n = 1, s\<lparr>bd_jobs := jobs\<rparr>))"

definition fail_bulk_read_job :: "string \<Rightarrow> string \<Rightarrow> bulk_db \<Rightarrow> bulk_db" where
  "fail_bulk_read_job message job_id s =
     s\<lparr>bd_jobs := fst (update_many (\<lambda>j. bj_id j = job_id \<and> is_open (bj_status j))
        (\<lambda>j. j\<lparr>bj_error := Some message, bj_status := Bulk_Failed\<rparr>) (bd_jobs s))\<rparr>"

text \<open>\<open>Math.round\<close> of a non-negative number.\<close>

definition progress_percent :: "nat \<Rightarrow> nat \<Rightarrow> nat" where
  "progress_percent processed total_articles =
     (if total_articles = 0 then 100 else min 100 ((200 * processed + total_articles) div (2 * total_articles)))"

subsection \<open>The worker marks the whole scope\<close>

definition scope_ids :: "bulk_read_job \<Rightarrow> reader_db \<Rightarrow> string set" where
  "scope_ids j r = ra_id ` {a \<in> set (rd_articles r). article_read_scope_where r (bj_user j) (read_scope_from_job j) a}"

definition left_to_do :: "bulk_read_job \<Rightarrow> bulk_read_job \<Rightarrow> reader_db \<Rightarrow> string set" where
  "left_to_do j0 j r = {i \<in> scope_ids j0 r. truthy (bj_last_article j) \<longrightarrow> the (bj_last_article j) < i}"

text \<open>What holds of a job between two rounds: everything up to its cursor is marked.\<close>

definition same_request :: "bulk_read_job \<Rightarrow> bulk_read_job \<Rightarrow> bool" where
  "same_request j0 j \<longleftrightarrow> bj_user j = bj_user j0 \<and> bj_scope_type j = bj_scope_type j0 \<and> bj_feed j = bj_feed j0 \<and>
     bj_folder j = bj_folder j0 \<and> bj_total j = bj_total j0"

definition job_progress :: "bulk_read_job \<Rightarrow> reader_db \<Rightarrow> bulk_db \<Rightarrow> bulk_read_job \<Rightarrow> bool" where
  "job_progress j0 r0 s j \<longleftrightarrow>
     same_but_states r0 (bd_reader s) \<and>
     foreign (bj_user j0) (rd_states (bd_reader s)) = foreign (bj_user j0) (rd_states r0) \<and>
     row_at bj_id (bj_id j0) (bd_jobs s) = Some j \<and> same_request j0 j \<and> \<not> is_terminal (bj_status j) \<and>
     bj_marked j \<le> bj_processed j \<and> bj_processed j \<le> bj_total j \<and>
     (\<forall>i \<in> scope_ids j0 r0. i \<in> left_to_do j0 j r0 \<or> marked (bj_user j0) (bd_reader s) i)"

definition job_done :: "bulk_read_job \<Rightarrow> reader_db \<Rightarrow> nat \<Rightarrow> nat \<Rightarrow> bulk_db \<Rightarrow> bool" where
  "job_done j0 r0 m p s \<longleftrightarrow>
     same_but_states r0 (bd_reader s) \<and>
     foreign (bj_user j0) (rd_states (bd_reader s)) = foreign (bj_user j0) (rd_states r0) \<and>
     (\<forall>i \<in> scope_ids j0 r0. marked (bj_user j0) (bd_reader s) i) \<and> m \<le> p \<and> p \<le> bj_total j0 \<and>
     map_option bj_status (row_at bj_id (bj_id j0) (bd_jobs s)) = Some Completed"

lemma same_states_where:
  "same_but_states r0 r \<Longrightarrow> article_read_scope_where r = article_read_scope_where r0"
  by (intro ext) (simp add: article_read_scope_where_def folder_article_where_def subscribed_article_where_def
      same_but_states_simps split: article_read_scope.split)

lemma same_request_scope: "same_request j0 j \<Longrightarrow> read_scope_from_job j = read_scope_from_job j0"
  by (simp add: same_request_def read_scope_from_job_def)

lemma next_batch_facts:
  assumes "same_but_states r0 r" "same_request j0 j"
  shows "set (next_batch j (read_scope_from_job j0) r) \<subseteq> left_to_do j0 j r0"
    "next_batch j (read_scope_from_job j0) r = [] \<Longrightarrow> left_to_do j0 j r0 = {}"
    "next_batch j (read_scope_from_job j0) r \<noteq> [] \<Longrightarrow> i \<in> left_to_do j0 j r0 \<Longrightarrow>
      i \<le> last (next_batch j (read_scope_from_job j0) r) \<Longrightarrow> i \<in> set (next_batch j (read_scope_from_job j0) r)"
proof -
  define xs where "xs = sort (map ra_id (filter
       (\<lambda>a. article_read_scope_where r (bj_user j) (read_scope_from_job j0) a \<and>
          (truthy (bj_last_article j) \<longrightarrow> the (bj_last_article j) < ra_id a)) (rd_articles r)))"
  have nb: "next_batch j (read_scope_from_job j0) r = take article_read_batch_size xs"
    by (simp add: next_batch_def xs_def)
  have set: "set xs = left_to_do j0 j r0"
    using assms(2) by (auto simp: xs_def left_to_do_def scope_ids_def same_states_where [OF assms(1)]
        same_but_states_simps [OF assms(1)] same_request_def)
  show "set (next_batch j (read_scope_from_job j0) r) \<subseteq> left_to_do j0 j r0"
    unfolding nb set [symmetric] by (rule set_take_subset)
  show "next_batch j (read_scope_from_job j0) r = [] \<Longrightarrow> left_to_do j0 j r0 = {}"
    unfolding nb set [symmetric] by (simp add: article_read_batch_size_def)
  assume ne: "next_batch j (read_scope_from_job j0) r \<noteq> []" and i: "i \<in> left_to_do j0 j r0"
    and le: "i \<le> last (next_batch j (read_scope_from_job j0) r)"
  let ?t = "take article_read_batch_size xs" and ?d = "drop article_read_batch_size xs"
  have l: "last ?t \<in> set ?t" using ne nb by simp
  show "i \<in> set (next_batch j (read_scope_from_job j0) r)"
  proof (rule ccontr)
    assume "i \<notin> set (next_batch j (read_scope_from_job j0) r)"
    then have "i \<in> set ?d" using i nb set by (metis Un_iff append_take_drop_id set_append)
    moreover have "sorted (?t @ ?d)" by (simp add: xs_def)
    ultimately have "last ?t \<le> i" using l unfolding sorted_append by blast
    then have "i = last ?t" using le nb by simp
    then show False using l nb \<open>i \<notin> _\<close> by simp
  qed
qed

lemma update_job_row:
  assumes "row_at bj_id i (bd_jobs s) = Some j" "\<And>x. bj_id (f x) = bj_id x"
  shows "\<exists>s'. update_job i f s = Some s' \<and> bd_reader s' = bd_reader s \<and> row_at bj_id i (bd_jobs s') = Some (f j)"
proof -
  have "i \<in> bj_id ` set (bd_jobs s)" "bj_id j = i" using row_at_SomeD [OF assms(1)] by auto
  then show ?thesis using assms by (simp add: update_job_def row_at_update_many)
qed

lemma bulk_round_progress:
  assumes env: "\<And>n t. bc_env c n t = t" and ids: "\<forall>a \<in> set (rd_articles r0). ra_id a \<noteq> []"
    and inv: "job_progress j0 r0 s j"
  shows "(\<exists>m p s'. bulk_round c k (bj_id j0) (read_scope_from_job j0) s = (Inl (Inr (Job_Completed m p)), s') \<and>
      job_done j0 r0 m p s') \<or>
    (\<exists>s' j'. bulk_round c k (bj_id j0) (read_scope_from_job j0) s = (Inr (), s') \<and> job_progress j0 r0 s' j' \<and>
      card (left_to_do j0 j' r0) < card (left_to_do j0 j r0))"
proof -
  have same: "same_but_states r0 (bd_reader s)" and req: "same_request j0 j" and row: "row_at bj_id (bj_id j0) (bd_jobs s) = Some j"
    and user: "bj_user j = bj_user j0" and notc: "bj_status j \<noteq> Canceled"
    using inv by (auto simp: job_progress_def same_request_def is_terminal_def)
  define ids where "ids = next_batch j (read_scope_from_job j0) (bd_reader s)"
  note nb = next_batch_facts [OF same req, folded ids_def]
  show ?thesis
  proof (cases "ids = []")
    case True
    obtain s' where s': "update_job (bj_id j0) (\<lambda>x. x\<lparr>bj_completed_at := Some (bc_now c (k + 1)), bj_status := Completed\<rparr>) s = Some s'"
      "bd_reader s' = bd_reader s" "row_at bj_id (bj_id j0) (bd_jobs s') = Some (j\<lparr>bj_completed_at := Some (bc_now c (k + 1)), bj_status := Completed\<rparr>)"
      using update_job_row [OF row, of "\<lambda>x. x\<lparr>bj_completed_at := Some (bc_now c (k + 1)), bj_status := Completed\<rparr>"] by auto
    have "bulk_round c k (bj_id j0) (read_scope_from_job j0) s = (Inl (Inr (Job_Completed (bj_marked j) (bj_processed j))), s')"
      using row notc True s'(1) by (simp add: bulk_round_def env Let_def ids_def [symmetric])
    moreover have "job_done j0 r0 (bj_marked j) (bj_processed j) s'"
      using inv s' nb(2) [OF True] by (auto simp: job_done_def job_progress_def same_request_def)
    ultimately show ?thesis by blast
  next
    case False
    define now where "now = bc_now c (k + 1)"
    obtain res r where w: "write_article_read_state_batches article_read_batch_size (bj_user j) now ids (bd_reader s) = (res, r)"
      by fastforce
    have "set ids \<subseteq> ra_id ` set (rd_articles (bd_reader s))"
      using nb(1) by (auto simp: left_to_do_def scope_ids_def same_but_states_simps [OF same])
    then have m: "res = Inr (length (js_unique ids))" "marks (bj_user j) ids (bd_reader s) r"
      using write_batches_marks [OF _ w] by auto
    define f :: "bulk_read_job \<Rightarrow> bulk_read_job" where "f = (\<lambda>x. x\<lparr>bj_last_article := Some (last ids),
       bj_marked := min (min (bj_total j) (bj_processed j + length ids)) (bj_marked j + length ids),
       bj_processed := min (bj_total j) (bj_processed j + length ids), bj_status := Processing\<rparr>)"
    let ?s3 = "s\<lparr>bd_reader := r\<rparr>"
    obtain s' where s': "update_job (bj_id j0) f ?s3 = Some s'" "bd_reader s' = r"
      "row_at bj_id (bj_id j0) (bd_jobs s') = Some (f j)"
      using update_job_row [of "bj_id j0" ?s3 j f] row by (auto simp: f_def)
    have round: "bulk_round c k (bj_id j0) (read_scope_from_job j0) s = (Inr (), s')"
      using row notc False s'(1) w m(1) unfolding f_def now_def
      by (simp add: bulk_round_def env Let_def ids_def [symmetric])
    have lastid: "last ids \<in> left_to_do j0 j r0" using nb(1) False by auto
    then have "last ids \<noteq> []" using \<open>\<forall>a \<in> set (rd_articles r0). ra_id a \<noteq> []\<close> by (auto simp: left_to_do_def scope_ids_def)
    then have left: "left_to_do j0 (f j) r0 = {i \<in> scope_ids j0 r0. last ids < i}"
      by (simp add: left_to_do_def f_def truthy_def)
    have mk: "marked (bj_user j0) r i" if "i \<in> scope_ids j0 r0" "i \<notin> left_to_do j0 (f j) r0" for i
    proof -
      have "i \<le> last ids" using that left by auto
      then have "i \<in> set ids \<or> marked (bj_user j0) (bd_reader s) i"
        using inv nb(3) [OF False, of i] that(1) by (auto simp: job_progress_def)
      then show ?thesis using m(2) user by (auto simp: marks_def)
    qed
    have reader: "same_but_states r0 r \<and> foreign (bj_user j0) (rd_states r) = foreign (bj_user j0) (rd_states r0)"
      using inv m(2) user same_but_states_trans [OF same] by (simp add: marks_def job_progress_def)
    have "job_progress j0 r0 s' (f j)"
      unfolding job_progress_def s'(2) using reader s'(3) mk req inv
      by (auto simp: f_def same_request_def is_terminal_def job_progress_def)
    moreover have "card (left_to_do j0 (f j) r0) < card (left_to_do j0 j r0)"
    proof (rule psubset_card_mono)
      show "finite (left_to_do j0 j r0)" by (simp add: left_to_do_def scope_ids_def)
      have "last ids < i \<Longrightarrow> truthy (bj_last_article j) \<Longrightarrow> the (bj_last_article j) < i" for i
        using lastid by (auto simp: left_to_do_def intro: order.strict_trans)
      then show "left_to_do j0 (f j) r0 \<subset> left_to_do j0 j r0"
        using lastid unfolding left by (auto simp: left_to_do_def)
    qed
    ultimately show ?thesis using round by blast
  qed
qed

lemma bulk_loop_progress:
  assumes env: "\<And>n t. bc_env c n t = t" and ids: "\<forall>a \<in> set (rd_articles r0). ra_id a \<noteq> []"
    and inv: "job_progress j0 r0 s j"
    and loop: "bulk_loop c n k (bj_id j0) (read_scope_from_job j0) s = (res, s')"
  shows "(\<exists>m p. res = Some (Inr (Job_Completed m p)) \<and> job_done j0 r0 m p s') \<or>
    (res = None \<and> n \<le> card (left_to_do j0 j r0) \<and> (\<exists>j'. job_progress j0 r0 s' j'))"
  using inv loop
proof (induction n arbitrary: k s j)
  case (Suc n)
  from bulk_round_progress [OF env ids Suc.prems(1), of k] show ?case
  proof (elim disjE exE conjE)
    fix m p t
    assume "bulk_round c k (bj_id j0) (read_scope_from_job j0) s = (Inl (Inr (Job_Completed m p)), t)" "job_done j0 r0 m p t"
    then show ?thesis using Suc.prems(2) by auto
  next
    fix t j'
    assume r: "bulk_round c k (bj_id j0) (read_scope_from_job j0) s = (Inr (), t)"
      and j': "job_progress j0 r0 t j'" "card (left_to_do j0 j' r0) < card (left_to_do j0 j r0)"
    have "bulk_loop c n (k + 1) (bj_id j0) (read_scope_from_job j0) t = (res, s')"
      using Suc.prems(2) r by simp
    from Suc.IH [OF j'(1) this] show ?thesis using j'(2) by auto
  qed
qed auto

lemma left_small: "card (left_to_do j0 j r0) \<le> length (rd_articles r0)"
proof -
  have "left_to_do j0 j r0 \<subseteq> ra_id ` set (rd_articles r0)" by (auto simp: left_to_do_def scope_ids_def)
  then have "card (left_to_do j0 j r0) \<le> card (ra_id ` set (rd_articles r0))" by (rule card_mono [OF finite_imageI, rotated]) simp
  also have "\<dots> \<le> length (rd_articles r0)" using card_image_le [of "set (rd_articles r0)" ra_id] card_length by (metis le_trans List.finite_set)
  finally show ?thesis .
qed

text \<open>Starting the worker again goes on where the job stands.\<close>

lemma process_progress:
  assumes env: "\<And>n t. bc_env c n t = t" and ids: "\<forall>a \<in> set (rd_articles r0). ra_id a \<noteq> []"
    and inv: "job_progress j0 r0 s j"
    and run: "process_bulk_read_job c n (bj_id j0) s = (res, s')"
  shows "(\<exists>m p. res = Some (Inr (Job_Completed m p)) \<and> job_done j0 r0 m p s') \<or>
    (res = None \<and> n \<le> length (rd_articles r0) \<and> (\<exists>j'. job_progress j0 r0 s' j'))"
proof -
  have row: "row_at bj_id (bj_id j0) (bd_jobs s) = Some j" and nt: "\<not> is_terminal (bj_status j)" and req: "same_request j0 j"
    using inv by (simp_all add: job_progress_def)
  define f :: "bulk_read_job \<Rightarrow> bulk_read_job" where "f = (\<lambda>x. x\<lparr>bj_started_at := Some (bc_now c 0), bj_status := Processing\<rparr>)"
  obtain s1 where s1: "update_job (bj_id j0) f s = Some s1" "bd_reader s1 = bd_reader s" "row_at bj_id (bj_id j0) (bd_jobs s1) = Some (f j)"
    using update_job_row [OF row, of f] by (auto simp: f_def)
  have prog: "job_progress j0 r0 s1 (f j)"
    using inv s1 by (auto simp: job_progress_def same_request_def is_terminal_def f_def left_to_do_def)
  have loop: "bulk_loop c n 0 (bj_id j0) (read_scope_from_job j0) s1 = (res, s')"
    using run row nt s1(1) unfolding f_def same_request_scope [OF req, symmetric]
    by (simp add: process_bulk_read_job_def env)
  show ?thesis using bulk_loop_progress [OF env ids prog loop] left_small [of j0 "f j" r0] by auto
qed

definition fresh_job :: "bulk_read_job \<Rightarrow> bulk_db \<Rightarrow> bool" where
  "fresh_job j s \<longleftrightarrow> row_at bj_id (bj_id j) (bd_jobs s) = Some j \<and> is_open (bj_status j) \<and> bj_last_article j = None \<and>
     bj_processed j = 0 \<and> bj_marked j = 0"


subsection \<open>An example, and a cancel that is lost\<close>

definition example_job :: bulk_read_job where
  "example_job = new_bulk_job ''j'' ''u'' All_Articles 2 1"

definition example_bulk :: bulk_db where
  "example_bulk = \<lparr>bd_reader = example_reader, bd_jobs = [example_job], bd_queue = []\<rparr>"

definition example_worker :: bulk_call where
  "example_worker = \<lparr>bc_env = \<lambda>n s. s, bc_now = \<lambda>n. 20\<rparr>"


text \<open>The user's cancel arrives between the writes of a batch and the update of the cursor.\<close>

definition example_canceled_worker :: bulk_call where
  "example_canceled_worker = \<lparr>bc_env = \<lambda>n s. if n = 4 then snd (cancel_bulk_read_job 15 ''j'' ''u'' s) else s, bc_now = \<lambda>n. 20\<rparr>"


end
