(* ===== verification/Mobile_Token.thy ===== *)
theory Mobile_Token
  imports Time_Cursor
begin

text \<open>
  Credentials of \<open>src/lib/mobile-auth.ts\<close>: hashed credentials, PKCE challenges, the signed access
  token, and the parsers of the requests. SHA-256 and HMAC are parameters that give bytes; the hex
  and base64url texts are computed from them. A token text is
  \<open>arctic-mobile-v1.<payload>.<signature>\<close>.
\<close>

record crypto =
  cr_sha256 :: "string \<Rightarrow> nat list"
  cr_hmac :: "nat list \<Rightarrow> string \<Rightarrow> nat list"

type_synonym environment = "string \<Rightarrow> string option"

datatype mobile_error =
    Authorization_Invalid
  | Configuration
  | Device_Limit
  | Refresh_Invalid
  | Refresh_Reuse_Detected
  | Database_Failure

definition mobile_android_client_id :: string where
  "mobile_android_client_id = ''android:com.arcticrss.reader''"

definition mobile_production_redirect_uri :: string where
  "mobile_production_redirect_uri = ''https://arcticrss.com/mobile/auth/callback''"

definition mobile_development_redirect_uri :: string where
  "mobile_development_redirect_uri = ''arcticrss://auth/callback''"

definition mobile_authorization_code_ttl_ms :: int where "mobile_authorization_code_ttl_ms = 5 * 60000"
definition mobile_authorization_request_ttl_ms :: int where "mobile_authorization_request_ttl_ms = 10 * 60000"
definition mobile_access_token_ttl_seconds :: int where "mobile_access_token_ttl_seconds = 15 * 60"
definition mobile_refresh_token_ttl_ms :: int where "mobile_refresh_token_ttl_ms = 30 * 24 * 60 * 60000"
definition max_mobile_device_sessions_per_user :: nat where "max_mobile_device_sessions_per_user = 5"
definition mobile_activity_write_interval_ms :: int where "mobile_activity_write_interval_ms = 5 * 60000"

subsection \<open>Hashes\<close>

definition hex_text :: "nat list \<Rightarrow> string" where
  "hex_text bs = concat (map (\<lambda>b. [digit_char (b div 16), digit_char (b mod 16)]) bs)"

definition hash_credential :: "crypto \<Rightarrow> string \<Rightarrow> string" where
  "hash_credential cr v = hex_text (cr_sha256 cr (''arctic-rss:mobile-auth:v1:token'' @ '':'' @ v))"

definition pkce_char :: "char \<Rightarrow> bool" where
  "pkce_char c \<longleftrightarrow> is_alnum c \<or> c = CHR ''.'' \<or> c = CHR ''_'' \<or> c = CHR ''~'' \<or> c = CHR ''-''"

definition matches_length :: "nat \<Rightarrow> nat \<Rightarrow> string \<Rightarrow> bool" where
  "matches_length lo hi s \<longleftrightarrow> lo \<le> length s \<and> length s \<le> hi \<and> list_all pkce_char s"

definition create_pkce_s256_challenge :: "crypto \<Rightarrow> string \<Rightarrow> mobile_error + string" where
  "create_pkce_s256_challenge cr verifier =
     (if \<not> matches_length 43 128 verifier then Inl Authorization_Invalid
      else Inr (base64url_encode (cr_sha256 cr verifier)))"

subsection \<open>Access tokens\<close>

record access_payload =
  pl_av :: int
  pl_did :: string
  pl_sid :: string
  pl_sub :: string

definition get_access_token_signing_key :: "crypto \<Rightarrow> environment \<Rightarrow> mobile_error + nat list" where
  "get_access_token_signing_key cr env =
     (case map_option js_trim (env ''AUTH_SECRET'') of
        None \<Rightarrow> Inl Configuration
      | Some secret \<Rightarrow>
          if secret = [] \<or> length secret < 32 then Inl Configuration
          else Inr (cr_sha256 cr (''arctic-rss:mobile-auth:v1:access'' @ '':'' @ secret)))"

definition token_signature :: "crypto \<Rightarrow> nat list \<Rightarrow> string \<Rightarrow> string" where
  "token_signature cr key payload =
     base64url_encode (cr_hmac cr key (''arctic-rss:mobile-auth:v1:access'' @ ''.'' @ payload))"

definition token_json :: "access_payload \<Rightarrow> time \<Rightarrow> json" where
  "token_json p now = JObj
     [(''av'', JNum (int_text (pl_av p))), (''did'', JStr (pl_did p)), (''sid'', JStr (pl_sid p)),
      (''sub'', JStr (pl_sub p)),
      (''exp'', JNum (int_text (now div 1000 + mobile_access_token_ttl_seconds))),
      (''iat'', JNum (int_text (now div 1000))), (''v'', JNum ''1'')]"

definition create_mobile_access_token :: "crypto \<Rightarrow> access_payload \<Rightarrow> environment \<Rightarrow> time \<Rightarrow> mobile_error + string" where
  "create_mobile_access_token cr p env now =
     (let encoded = base64url_of_text (json_text (token_json p now))
      in bindR (get_access_token_signing_key cr env) (\<lambda>key.
           Inr (''arctic-mobile-v1.'' @ encoded @ ''.'' @ token_signature cr key encoded)))"

definition json_integer :: "text_rest \<Rightarrow> json option \<Rightarrow> int option" where
  "json_integer rest v =
     (case v of
        Some (JNum t) \<Rightarrow> (case js_integer t of Some m \<Rightarrow> Some m | None \<Rightarrow> rest_number rest t)
      | _ \<Rightarrow> None)"

definition token_payload :: "text_rest \<Rightarrow> time \<Rightarrow> json \<Rightarrow> access_payload option" where
  "token_payload rest now v =
     (if \<not> json_number_is rest 1 (json_field ''v'' v) then None
      else case (json_string (json_field ''sub'' v), json_string (json_field ''sid'' v), json_string (json_field ''did'' v),
          json_integer rest (json_field ''av'' v), json_integer rest (json_field ''exp'' v)) of
        (Some sub, Some sid, Some did, Some av, Some expiry) \<Rightarrow>
          if now < expiry * 1000 then Some \<lparr>pl_av = av, pl_did = did, pl_sid = sid, pl_sub = sub\<rparr> else None
      | _ \<Rightarrow> None)"

definition parse_mobile_access_token ::
  "crypto \<Rightarrow> text_rest \<Rightarrow> string \<Rightarrow> environment \<Rightarrow> time \<Rightarrow> mobile_error + access_payload" where
  "parse_mobile_access_token cr rest token env now =
     (case js_split CHR ''.'' token of
        [version, payload, signature] \<Rightarrow>
          if version \<noteq> ''arctic-mobile-v1'' \<or> 1024 < length payload then Inl Refresh_Invalid
          else bindR (get_access_token_signing_key cr env) (\<lambda>key.
            if signature \<noteq> token_signature cr key payload then Inl Refresh_Invalid
            else case Option.bind (parse_cursor_json rest payload) (token_payload rest now) of
              None \<Rightarrow> Inl Refresh_Invalid
            | Some p \<Rightarrow> Inr p)
      | _ \<Rightarrow> Inl Refresh_Invalid)"

lemma token_json_ok: "json_ok (token_json p now)"
proof -
  have "''1'' = int_text 1" by code_simp
  then show ?thesis unfolding token_json_def json_ok.simps by auto
qed

lemma token_payload_json:
  "token_payload rest now' (token_json p now) =
    (if now' < (now div 1000 + mobile_access_token_ttl_seconds) * 1000 then Some p else None)"
proof -
  have "js_integer ''1'' = Some 1" by code_simp
  then show ?thesis
    by (cases p) (simp add: token_payload_def token_json_def json_field_def json_string_def json_integer_def
        json_number_is_def)
qed

text \<open>A token that is issued is accepted with the same secret until its fifteen minutes are over.\<close>

lemma access_token_round_trip:
  assumes "create_mobile_access_token cr p env now = Inr t"
    and "length (base64url_of_text (json_text (token_json p now))) \<le> 1024"
  shows "parse_mobile_access_token cr rest t env now' =
    (if now' < (now div 1000 + 900) * 1000 then Inr p else Inl Refresh_Invalid)"
proof -
  let ?e = "base64url_of_text (json_text (token_json p now))"
  obtain key where key: "get_access_token_signing_key cr env = Inr key"
    and t: "t = ''arctic-mobile-v1'' @ CHR ''.'' # ?e @ CHR ''.'' # token_signature cr key ?e"
    using assms(1) by (auto simp: create_mobile_access_token_def Let_def bindR_eq_Inr)
  have sig: "CHR ''.'' \<notin> set (token_signature cr key ?e)"
    by (simp add: token_signature_def base64url_encode_no_dot)
  have "js_split CHR ''.'' t = [''arctic-mobile-v1'', ?e, token_signature cr key ?e]"
    unfolding t using base64url_no_dot [of "json_text (token_json p now)"] sig
    by (simp add: js_split_sep js_split_no_sep)
  moreover have "parse_cursor_json rest ?e = Some (token_json p now)"
    by (simp add: parse_cursor_json_def json_round_trip token_json_ok)
  ultimately show ?thesis
    using assms(2) key
    by (simp add: parse_mobile_access_token_def token_payload_json mobile_access_token_ttl_seconds_def)
qed

subsection \<open>Requests\<close>

record device_request =
  dq_app_version :: string
  dq_client_id :: string
  dq_code_challenge :: string
  dq_code_challenge_method :: string
  dq_device_name :: string
  dq_nonce :: string
  dq_platform :: string
  dq_redirect_uri :: string
  dq_state :: string

record exchange_request =
  xq_client_id :: string
  xq_code :: string
  xq_code_verifier :: string
  xq_nonce :: string
  xq_redirect_uri :: string

definition assert_registered_mobile_client :: "environment \<Rightarrow> string \<Rightarrow> string \<Rightarrow> mobile_error + unit" where
  "assert_registered_mobile_client env client redirect =
     (let is_production = (env ''NODE_ENV'' = Some ''production'');
          allowed = (redirect = mobile_production_redirect_uri \<or>
            (\<not> is_production \<and> redirect = mobile_development_redirect_uri))
      in if client \<noteq> mobile_android_client_id \<or> \<not> allowed then Inl Authorization_Invalid else Inr ())"

text \<open>The wire names of \<open>parseBrowserDeviceAuthorizationRequest\<close>; every one occurs exactly once.\<close>

definition wire_names :: "string list" where
  "wire_names = [''app_version'', ''client_id'', ''code_challenge'', ''code_challenge_method'', ''device_name'',
     ''nonce'', ''platform'', ''redirect_uri'', ''state'']"

definition single_value :: "(string \<times> string) list \<Rightarrow> string \<Rightarrow> string option" where
  "single_value ps k = (case filter (\<lambda>(n, v). n = k) ps of [(n, v)] \<Rightarrow> Some v | _ \<Rightarrow> None)"

definition bounded :: "nat \<Rightarrow> nat \<Rightarrow> string \<Rightarrow> bool" where
  "bounded lo hi s \<longleftrightarrow> lo \<le> length s \<and> length s \<le> hi"

definition device_request_ok :: "device_request \<Rightarrow> bool" where
  "device_request_ok q \<longleftrightarrow>
     bounded 1 80 (dq_app_version q) \<and> bounded 1 120 (dq_device_name q) \<and> dq_platform q = ''android'' \<and>
     dq_client_id q = mobile_android_client_id \<and> matches_length 43 128 (dq_code_challenge q) \<and>
     dq_code_challenge_method q = ''S256'' \<and> matches_length 16 256 (dq_nonce q) \<and>
     bounded 1 500 (dq_redirect_uri q) \<and> matches_length 16 512 (dq_state q)"

definition parse_browser_device_authorization_request ::
  "environment \<Rightarrow> (string \<times> string) list \<Rightarrow> mobile_error + device_request" where
  "parse_browser_device_authorization_request env ps =
     (if list_ex (\<lambda>(k, v). k \<notin> set wire_names) ps \<or> list_ex (\<lambda>k. single_value ps k = None) wire_names
      then Inl Authorization_Invalid
      else
        let val = (\<lambda>k. the (single_value ps k));
            q = \<lparr>dq_app_version = js_trim (val ''app_version''), dq_client_id = val ''client_id'',
                 dq_code_challenge = val ''code_challenge'', dq_code_challenge_method = val ''code_challenge_method'',
                 dq_device_name = js_trim (val ''device_name''), dq_nonce = val ''nonce'',
                 dq_platform = val ''platform'', dq_redirect_uri = val ''redirect_uri'', dq_state = val ''state''\<rparr>
        in if \<not> device_request_ok q then Inl Authorization_Invalid
           else bindR (assert_registered_mobile_client env (dq_client_id q) (dq_redirect_uri q)) (\<lambda>_. Inr q))"

text \<open>A strict schema: an object with these keys and no other, all of them strings.\<close>

definition string_fields :: "string list \<Rightarrow> json \<Rightarrow> string list option" where
  "string_fields ks v =
     (case v of
        JObj ms \<Rightarrow>
          if list_ex (\<lambda>(k, x). k \<notin> set ks) ms \<or> list_ex (\<lambda>k. json_string (json_field k v) = None) ks then None
          else Some (map (\<lambda>k. the (json_string (json_field k v))) ks)
      | _ \<Rightarrow> None)"

definition parse_device_authorization_exchange_request ::
  "environment \<Rightarrow> json \<Rightarrow> mobile_error + exchange_request" where
  "parse_device_authorization_exchange_request env v =
     (case string_fields [''clientId'', ''code'', ''codeVerifier'', ''nonce'', ''redirectUri''] v of
        Some [client, code_text, verifier, nonce, redirect] \<Rightarrow>
          if client \<noteq> mobile_android_client_id \<or> \<not> bounded 32 512 code_text \<or> \<not> matches_length 43 128 verifier \<or>
             \<not> matches_length 16 256 nonce \<or> \<not> bounded 1 500 redirect
          then Inl Authorization_Invalid
          else bindR (assert_registered_mobile_client env client redirect) (\<lambda>_.
            Inr \<lparr>xq_client_id = client, xq_code = code_text, xq_code_verifier = verifier, xq_nonce = nonce,
                 xq_redirect_uri = redirect\<rparr>)
      | _ \<Rightarrow> Inl Authorization_Invalid)"

definition parse_mobile_refresh_request :: "json \<Rightarrow> mobile_error + string" where
  "parse_mobile_refresh_request v =
     (case string_fields [''refreshToken''] v of
        Some [t] \<Rightarrow> if bounded 32 512 t then Inr t else Inl Refresh_Invalid
      | _ \<Rightarrow> Inl Refresh_Invalid)"

subsection \<open>The browser session\<close>

definition browser_session_cookie_names :: "string list" where
  "browser_session_cookie_names = [''__Secure-authjs.session-token'', ''authjs.session-token'',
     ''__Secure-next-auth.session-token'', ''next-auth.session-token'']"

definition cookie_pair :: "string \<Rightarrow> string \<times> string" where
  "cookie_pair part =
     (if CHR ''='' \<notin> set part then (js_trim part, [])
      else (js_trim (takeWhile (\<lambda>c. c \<noteq> CHR ''='') part), js_trim (tl (dropWhile (\<lambda>c. c \<noteq> CHR ''='') part))))"

text \<open>A repeated cookie counts with its last value, as in \<open>new Map\<close>.\<close>

definition get_mobile_authorization_browser_session_hash :: "crypto \<Rightarrow> string option \<Rightarrow> string option" where
  "get_mobile_authorization_browser_session_hash cr header =
     (case header of
        None \<Rightarrow> None
      | Some h \<Rightarrow>
          if h = [] then None
          else
            let cookies = map_of (rev (map cookie_pair (js_split CHR '';'' h)))
            in map_option (\<lambda>v. hex_text (cr_sha256 cr (''arctic-rss:mobile-auth:v1:browser-session'' @ '':'' @ v)))
                 (Option.bind (List.find (\<lambda>n. cookies n \<noteq> None \<and> cookies n \<noteq> Some []) browser_session_cookie_names)
                   cookies))"

end
