(* ===== verification/Mobile_Auth.thy ===== *)
theory Mobile_Auth
  imports Mobile_Token
begin

text \<open>
  Mobile sign-in and device sessions, \<open>src/lib/mobile-auth.ts\<close>: authorization requests and their
  approval, codes and their exchange, refresh token rotation with reuse detection, authentication
  of access tokens, and revocation.

  The database is the record of its tables. An operation gives its thrown error or its value,
  together with the database it leaves. Random bytes and generated ids are arguments. \<open>env\<close> is what
  other processes commit meanwhile: \<open>env n\<close> is applied at the \<open>n\<close>-th point between two database
  calls of the operation that are not in one transaction; in the rotation also between the first
  read of the transaction and its first write. A transaction is otherwise atomic, and one that
  throws leaves the database as it found it. \<open>create\<close> fails on a key or unique column that is in
  use and on a missing referenced row. Columns the database fills in itself (creation times) are
  left out.
\<close>

record mobile_user =
  mu_id :: string
  mu_auth_version :: int
  mu_disabled_at :: "time option"
  mu_password_hash :: "string option"
  mu_updated_at :: time

record mobile_device_info =
  in_app_version :: string
  in_device_name :: string
  in_platform :: string

record authorization_request =
  rq_id :: string
  rq_user :: string
  rq_info :: mobile_device_info
  rq_client_id :: string
  rq_redirect_uri :: string
  rq_code_challenge :: string
  rq_code_challenge_method :: string
  rq_nonce_hash :: string
  rq_state :: string
  rq_approval_token_hash :: string
  rq_browser_session_hash :: string
  rq_auth_version :: int
  rq_expires_at :: time
  rq_approved_at :: "time option"
  rq_cancelled_at :: "time option"

record authorization_code =
  ac_id :: string
  ac_user :: string
  ac_info :: mobile_device_info
  ac_client_id :: "string option"
  ac_code_hash :: string
  ac_code_challenge :: string
  ac_code_challenge_method :: string
  ac_redirect_uri :: string
  ac_nonce_hash :: string
  ac_auth_version :: int
  ac_expires_at :: time
  ac_used_at :: "time option"

record device_session =
  ds_id :: string
  ds_user :: string
  ds_device :: "string option"
  ds_family :: string
  ds_token_hash :: string
  ds_info :: mobile_device_info
  ds_auth_version :: int
  ds_last_used_at :: time
  ds_access_issued_at :: time
  ds_refresh_expires_at :: time
  ds_revoked_at :: "time option"
  ds_replaced_by :: "string option"
  ds_reuse_detected_at :: "time option"

record mobile_device =
  md_id :: string
  md_user :: string
  md_family :: string
  md_info :: mobile_device_info
  md_auth_version :: int
  md_last_used_at :: time
  md_refresh_expires_at :: time
  md_revoked_at :: "time option"
  md_reuse_detected_at :: "time option"

record installation =
  di_id :: string
  di_session :: "string option"
  di_device :: string
  di_disabled_at :: "time option"

record security_event =
  ev_user :: string
  ev_type :: string
  ev_metadata :: "(string \<times> string) list"

record expiring_token =
  tk_id :: string
  tk_user :: string
  tk_expires_at :: time

record mutation_receipt =
  mr_id :: string
  mr_session :: "string option"
  mr_device :: string
  mr_created_at :: time

record auth_db =
  db_users :: "mobile_user list"
  db_requests :: "authorization_request list"
  db_codes :: "authorization_code list"
  db_sessions :: "device_session list"
  db_devices :: "mobile_device list"
  db_installations :: "installation list"
  db_events :: "security_event list"
  db_password_resets :: "expiring_token list"
  db_email_verifications :: "expiring_token list"
  db_deletion_confirmations :: "expiring_token list"
  db_receipts :: "mutation_receipt list"

type_synonym 'a auth_action = "auth_db \<Rightarrow> (mobile_error + 'a) \<times> auth_db"
type_synonym interference = "nat \<Rightarrow> auth_db \<Rightarrow> auth_db"

definition transact :: "('s \<Rightarrow> ('e + 'a) \<times> 's) \<Rightarrow> 's \<Rightarrow> ('e + 'a) \<times> 's" where
  "transact f s = (case f s of (Inl e, _) \<Rightarrow> (Inl e, s) | (Inr a, s') \<Rightarrow> (Inr a, s'))"

subsection \<open>Creating rows\<close>

definition user_exists :: "auth_db \<Rightarrow> string \<Rightarrow> bool" where
  "user_exists s u \<longleftrightarrow> row_at mu_id u (db_users s) \<noteq> None"

definition create_event :: "string \<Rightarrow> (string \<times> string) list \<Rightarrow> string \<Rightarrow> auth_db \<Rightarrow> auth_db option" where
  "create_event event_type metadata u s =
     (if \<not> user_exists s u then None
      else Some (s\<lparr>db_events := db_events s @ [\<lparr>ev_user = u, ev_type = event_type, ev_metadata = metadata\<rparr>]\<rparr>))"

definition create_request :: "authorization_request \<Rightarrow> auth_db \<Rightarrow> auth_db option" where
  "create_request r s =
     (if \<not> user_exists s (rq_user r) \<or> row_at rq_id (rq_id r) (db_requests s) \<noteq> None \<or>
         row_at rq_approval_token_hash (rq_approval_token_hash r) (db_requests s) \<noteq> None then None
      else Some (s\<lparr>db_requests := db_requests s @ [r]\<rparr>))"

definition create_code :: "authorization_code \<Rightarrow> auth_db \<Rightarrow> auth_db option" where
  "create_code c s =
     (if \<not> user_exists s (ac_user c) \<or> row_at ac_id (ac_id c) (db_codes s) \<noteq> None \<or>
         row_at ac_code_hash (ac_code_hash c) (db_codes s) \<noteq> None then None
      else Some (s\<lparr>db_codes := db_codes s @ [c]\<rparr>))"

definition create_device :: "mobile_device \<Rightarrow> auth_db \<Rightarrow> auth_db option" where
  "create_device d s =
     (if \<not> user_exists s (md_user d) \<or> row_at md_id (md_id d) (db_devices s) \<noteq> None \<or>
         row_at md_family (md_family d) (db_devices s) \<noteq> None then None
      else Some (s\<lparr>db_devices := db_devices s @ [d]\<rparr>))"

definition create_session :: "device_session \<Rightarrow> auth_db \<Rightarrow> auth_db option" where
  "create_session r s =
     (if \<not> user_exists s (ds_user r) \<or> row_at ds_id (ds_id r) (db_sessions s) \<noteq> None \<or>
         row_at ds_token_hash (ds_token_hash r) (db_sessions s) \<noteq> None \<or>
         (case ds_device r of None \<Rightarrow> False | Some d \<Rightarrow> row_at md_id d (db_devices s) = None) then None
      else Some (s\<lparr>db_sessions := db_sessions s @ [r]\<rparr>))"

subsection \<open>Accounts\<close>

definition active_user :: "int \<Rightarrow> mobile_user \<Rightarrow> bool" where
  "active_user v u \<longleftrightarrow> mu_disabled_at u = None \<and> mu_auth_version u = v"

definition assert_active_user :: "mobile_user option \<Rightarrow> int \<Rightarrow> mobile_error \<Rightarrow> mobile_error + unit" where
  "assert_active_user user v e =
     (case user of None \<Rightarrow> Inl e | Some u \<Rightarrow> if \<not> active_user v u then Inl e else Inr ())"

text \<open>The account row is written first, which locks it for the rest of the transaction.\<close>

definition lock_active_user :: "time \<Rightarrow> string \<Rightarrow> int \<Rightarrow> auth_db \<Rightarrow> auth_db \<times> nat" where
  "lock_active_user now u v s =
     (let (users, n) = update_many (\<lambda>x. mu_id x = u \<and> active_user v x) (\<lambda>x. x\<lparr>mu_updated_at := now\<rparr>) (db_users s)
      in (s\<lparr>db_users := users\<rparr>, n))"

definition random_token :: "nat list \<Rightarrow> string" where
  "random_token bytes = base64url_encode bytes"

subsection \<open>Authorization requests\<close>

definition request_info :: "device_request \<Rightarrow> mobile_device_info" where
  "request_info q = \<lparr>in_app_version = dq_app_version q, in_device_name = dq_device_name q, in_platform = dq_platform q\<rparr>"

record pending_request =
  pr_approval_token :: string
  pr_expires_at :: time
  pr_id :: string

record completed_request =
  cq_code :: "string option"
  cq_redirect_uri :: string
  cq_state :: string

definition create_mobile_authorization_request ::
  "crypto \<Rightarrow> interference \<Rightarrow> nat list \<Rightarrow> string \<Rightarrow> int \<Rightarrow> string \<Rightarrow> device_request \<Rightarrow> string \<Rightarrow> time \<Rightarrow>
   pending_request auth_action" where
  "create_mobile_authorization_request cr env bytes new_id v browser_hash q u now s =
     (case assert_active_user (row_at mu_id u (db_users s)) v Authorization_Invalid of
        Inl e \<Rightarrow> (Inl e, s)
      | Inr _ \<Rightarrow>
          let approval_token = random_token bytes;
              expires = now + mobile_authorization_request_ttl_ms;
              row = \<lparr>rq_id = new_id, rq_user = u, rq_info = request_info q, rq_client_id = dq_client_id q,
                rq_redirect_uri = dq_redirect_uri q, rq_code_challenge = dq_code_challenge q,
                rq_code_challenge_method = dq_code_challenge_method q, rq_nonce_hash = hash_credential cr (dq_nonce q),
                rq_state = dq_state q, rq_approval_token_hash = hash_credential cr approval_token,
                rq_browser_session_hash = browser_hash, rq_auth_version = v, rq_expires_at = expires,
                rq_approved_at = None, rq_cancelled_at = None\<rparr>
          in transact (\<lambda>t. case Option.bind (create_request row t)
                 (create_event ''MOBILE_AUTHORIZATION_APPROVAL_REQUESTED''
                   [(''clientId'', dq_client_id q), (''platform'', dq_platform q)] u) of
               None \<Rightarrow> (Inl Database_Failure, t)
             | Some t' \<Rightarrow> (Inr \<lparr>pr_approval_token = approval_token, pr_expires_at = expires, pr_id = new_id\<rparr>, t'))
             (env 0 s))"

definition get_pending_mobile_authorization_request ::
  "crypto \<Rightarrow> string \<Rightarrow> string \<Rightarrow> string \<Rightarrow> string \<Rightarrow> time \<Rightarrow> auth_db \<Rightarrow> mobile_error + authorization_request" where
  "get_pending_mobile_authorization_request cr approval_token browser_hash request_id u now s =
     (case row_at rq_id request_id (db_requests s) of
        None \<Rightarrow> Inl Authorization_Invalid
      | Some p \<Rightarrow>
          if rq_user p \<noteq> u \<or> rq_approved_at p \<noteq> None \<or> rq_cancelled_at p \<noteq> None \<or> rq_expires_at p \<le> now \<or>
             rq_browser_session_hash p \<noteq> browser_hash \<or>
             rq_approval_token_hash p \<noteq> hash_credential cr approval_token
          then Inl Authorization_Invalid else Inr p)"

text \<open>The condition under which approval and cancellation take the request.\<close>

definition open_request :: "crypto \<Rightarrow> string \<Rightarrow> authorization_request \<Rightarrow> string \<Rightarrow> time \<Rightarrow> authorization_request \<Rightarrow> bool" where
  "open_request cr approval_token p u now r \<longleftrightarrow>
     rq_approval_token_hash r = hash_credential cr approval_token \<and> rq_approved_at r = None \<and>
     rq_auth_version r = rq_auth_version p \<and> rq_cancelled_at r = None \<and> now < rq_expires_at r \<and>
     rq_id r = rq_id p \<and> rq_user r = u"

definition approve_transaction ::
  "crypto \<Rightarrow> string \<Rightarrow> string \<Rightarrow> string \<Rightarrow> authorization_request \<Rightarrow> string \<Rightarrow> time \<Rightarrow> unit auth_action" where
  "approve_transaction cr approval_token code_text new_id p u now s =
     (let (s1, n) = lock_active_user now u (rq_auth_version p) s
      in if n \<noteq> 1 then (Inl Authorization_Invalid, s1)
         else
           let (requests, m) = update_many (open_request cr approval_token p u now)
                 (\<lambda>r. r\<lparr>rq_approved_at := Some now\<rparr>) (db_requests s1);
               s2 = s1\<lparr>db_requests := requests\<rparr>
           in if m \<noteq> 1 then (Inl Authorization_Invalid, s2)
              else
                let row = \<lparr>ac_id = new_id, ac_user = u, ac_info = rq_info p, ac_client_id = Some (rq_client_id p),
                      ac_code_hash = hash_credential cr code_text, ac_code_challenge = rq_code_challenge p,
                      ac_code_challenge_method = rq_code_challenge_method p, ac_redirect_uri = rq_redirect_uri p,
                      ac_nonce_hash = rq_nonce_hash p, ac_auth_version = rq_auth_version p,
                      ac_expires_at = now + mobile_authorization_code_ttl_ms, ac_used_at = None\<rparr>
                in case Option.bind (create_code row s2)
                     (create_event ''MOBILE_AUTHORIZATION_APPROVED''
                       [(''clientId'', rq_client_id p), (''platform'', in_platform (rq_info p))] u) of
                   None \<Rightarrow> (Inl Database_Failure, s2)
                 | Some s3 \<Rightarrow> (Inr (), s3))"

definition approve_mobile_authorization_request ::
  "crypto \<Rightarrow> interference \<Rightarrow> nat list \<Rightarrow> string \<Rightarrow> string \<Rightarrow> string \<Rightarrow> string \<Rightarrow> string \<Rightarrow> time \<Rightarrow>
   completed_request auth_action" where
  "approve_mobile_authorization_request cr env bytes new_id approval_token browser_hash request_id u now s =
     (case get_pending_mobile_authorization_request cr approval_token browser_hash request_id u now s of
        Inl e \<Rightarrow> (Inl e, s)
      | Inr p \<Rightarrow>
          (case transact (approve_transaction cr approval_token (random_token bytes) new_id p u now) (env 0 s) of
             (Inl e, s') \<Rightarrow> (Inl e, s')
           | (Inr _, s') \<Rightarrow> (Inr \<lparr>cq_code = Some (random_token bytes), cq_redirect_uri = rq_redirect_uri p,
               cq_state = rq_state p\<rparr>, s')))"

definition cancel_transaction ::
  "crypto \<Rightarrow> string \<Rightarrow> authorization_request \<Rightarrow> string \<Rightarrow> time \<Rightarrow> unit auth_action" where
  "cancel_transaction cr approval_token p u now s =
     (let (requests, m) = update_many (open_request cr approval_token p u now)
            (\<lambda>r. r\<lparr>rq_cancelled_at := Some now\<rparr>) (db_requests s);
          s1 = s\<lparr>db_requests := requests\<rparr>
      in if m \<noteq> 1 then (Inl Authorization_Invalid, s1)
         else case create_event ''MOBILE_AUTHORIZATION_CANCELLED''
                [(''clientId'', rq_client_id p), (''platform'', in_platform (rq_info p))] u s1 of
              None \<Rightarrow> (Inl Database_Failure, s1)
            | Some s2 \<Rightarrow> (Inr (), s2))"

definition cancel_mobile_authorization_request ::
  "crypto \<Rightarrow> interference \<Rightarrow> string \<Rightarrow> string \<Rightarrow> string \<Rightarrow> string \<Rightarrow> time \<Rightarrow> completed_request auth_action" where
  "cancel_mobile_authorization_request cr env approval_token browser_hash request_id u now s =
     (case get_pending_mobile_authorization_request cr approval_token browser_hash request_id u now s of
        Inl e \<Rightarrow> (Inl e, s)
      | Inr p \<Rightarrow>
          (case transact (cancel_transaction cr approval_token p u now) (env 0 s) of
             (Inl e, s') \<Rightarrow> (Inl e, s')
           | (Inr _, s') \<Rightarrow> (Inr \<lparr>cq_code = None, cq_redirect_uri = rq_redirect_uri p, cq_state = rq_state p\<rparr>, s')))"

text \<open>\<open>verify\<close> stands for \<open>verifyPassword\<close>.\<close>

definition require_mobile_authorization_reauthentication ::
  "(string \<Rightarrow> string \<Rightarrow> bool) \<Rightarrow> string \<Rightarrow> int \<Rightarrow> string \<Rightarrow> auth_db \<Rightarrow> mobile_error + unit" where
  "require_mobile_authorization_reauthentication verify current_password v u s =
     (case row_at mu_id u (db_users s) of
        None \<Rightarrow> Inl Authorization_Invalid
      | Some x \<Rightarrow>
          if mu_disabled_at x \<noteq> None \<or> mu_auth_version x \<noteq> v \<or> \<not> truthy (mu_password_hash x) \<or>
             \<not> verify current_password (the (mu_password_hash x))
          then Inl Authorization_Invalid else Inr ())"

record issued_code =
  ic_info :: mobile_device_info
  ic_code :: string
  ic_expires_at :: time

definition issue_device_authorization_code ::
  "crypto \<Rightarrow> environment \<Rightarrow> interference \<Rightarrow> nat list \<Rightarrow> string \<Rightarrow> int \<Rightarrow> device_request \<Rightarrow> string \<Rightarrow> time \<Rightarrow>
   issued_code auth_action" where
  "issue_device_authorization_code cr process_env env bytes new_id v q u now s =
     (if process_env ''NODE_ENV'' \<noteq> Some ''test'' then (Inl Authorization_Invalid, s)
      else case assert_active_user (row_at mu_id u (db_users s)) v Authorization_Invalid of
        Inl e \<Rightarrow> (Inl e, s)
      | Inr _ \<Rightarrow>
          let code_text = random_token bytes;
              expires = now + mobile_authorization_code_ttl_ms;
              row = \<lparr>ac_id = new_id, ac_user = u, ac_info = request_info q, ac_client_id = Some (dq_client_id q),
                ac_code_hash = hash_credential cr code_text, ac_code_challenge = dq_code_challenge q,
                ac_code_challenge_method = dq_code_challenge_method q, ac_redirect_uri = dq_redirect_uri q,
                ac_nonce_hash = hash_credential cr (dq_nonce q), ac_auth_version = v, ac_expires_at = expires,
                ac_used_at = None\<rparr>
          in transact (\<lambda>t. case Option.bind (create_code row t)
                 (create_event ''MOBILE_AUTHORIZATION_CODE_ISSUED'' [(''platform'', dq_platform q)] u) of
               None \<Rightarrow> (Inl Database_Failure, t)
             | Some t' \<Rightarrow> (Inr \<lparr>ic_info = request_info q, ic_code = code_text, ic_expires_at = expires\<rparr>, t'))
             (env 0 s))"

end
