(* ===== verification/Mobile_Session.thy ===== *)
theory Mobile_Session
  imports Mobile_Auth
begin

text \<open>
  Device sessions of \<open>src/lib/mobile-auth.ts\<close>: the exchange of a code, rotation of refresh tokens,
  authentication, listing and revocation; and the retention job of
  \<open>src/lib/auth-token-maintenance.ts\<close>, which deletes rows these operations rely on.
\<close>

record session_tokens =
  st_access_token :: string
  st_access_token_expires_in :: int
  st_mobile_device_id :: string
  st_refresh_token :: string
  st_user_id :: string

record access_principal =
  mp_auth_version :: int
  mp_device_id :: string
  mp_session_id :: string
  mp_user_id :: string

subsection \<open>Tokens\<close>

definition require_stable_device_id :: "string option \<Rightarrow> mobile_error + string" where
  "require_stable_device_id d = (if truthy d then Inr (the d) else Inl Authorization_Invalid)"

definition assert_mobile_access_token_configuration :: "crypto \<Rightarrow> environment \<Rightarrow> mobile_error + unit" where
  "assert_mobile_access_token_configuration cr aenv = bindR (get_access_token_signing_key cr aenv) (\<lambda>_. Inr ())"

definition issue_session_tokens ::
  "crypto \<Rightarrow> environment \<Rightarrow> int \<Rightarrow> string \<Rightarrow> string \<Rightarrow> string \<Rightarrow> string \<Rightarrow> time \<Rightarrow> mobile_error + session_tokens" where
  "issue_session_tokens cr aenv v device_id session_id refresh_token u now =
     bindR (create_mobile_access_token cr \<lparr>pl_av = v, pl_did = device_id, pl_sid = session_id, pl_sub = u\<rparr> aenv now)
       (\<lambda>t. Inr \<lparr>st_access_token = t, st_access_token_expires_in = mobile_access_token_ttl_seconds,
              st_mobile_device_id = device_id, st_refresh_token = refresh_token, st_user_id = u\<rparr>)"

definition tokens_of_session ::
  "crypto \<Rightarrow> environment \<Rightarrow> string \<Rightarrow> time \<Rightarrow> device_session \<Rightarrow> mobile_error + session_tokens" where
  "tokens_of_session cr aenv refresh_token now r =
     bindR (require_stable_device_id (ds_device r)) (\<lambda>d.
       issue_session_tokens cr aenv (ds_auth_version r) d (ds_id r) refresh_token (ds_user r) now)"

subsection \<open>Exchange of a code\<close>

record sign_in_draws =
  dr_bytes :: "nat list"
  dr_family :: string
  dr_device :: string
  dr_session :: string

definition active_device :: "time \<Rightarrow> string \<Rightarrow> mobile_device \<Rightarrow> bool" where
  "active_device now u d \<longleftrightarrow> now < md_refresh_expires_at d \<and> md_revoked_at d = None \<and> md_user d = u"

definition active_devices :: "time \<Rightarrow> string \<Rightarrow> auth_db \<Rightarrow> nat" where
  "active_devices now u s = length (filter (active_device now u) (db_devices s))"

definition claimable_code :: "time \<Rightarrow> authorization_code \<Rightarrow> auth_db \<Rightarrow> authorization_code \<Rightarrow> bool" where
  "claimable_code now c s x \<longleftrightarrow>
     ac_auth_version x = ac_auth_version c \<and> now < ac_expires_at x \<and> ac_id x = ac_id c \<and> ac_used_at x = None \<and>
     (case row_at mu_id (ac_user x) (db_users s) of None \<Rightarrow> False | Some u \<Rightarrow> active_user (ac_auth_version c) u)"

definition new_device :: "sign_in_draws \<Rightarrow> time \<Rightarrow> authorization_code \<Rightarrow> mobile_device" where
  "new_device dr now c =
     \<lparr>md_id = dr_device dr, md_user = ac_user c, md_family = dr_family dr, md_info = ac_info c,
      md_auth_version = ac_auth_version c, md_last_used_at = now,
      md_refresh_expires_at = now + mobile_refresh_token_ttl_ms, md_revoked_at = None, md_reuse_detected_at = None\<rparr>"

definition new_session :: "crypto \<Rightarrow> sign_in_draws \<Rightarrow> time \<Rightarrow> authorization_code \<Rightarrow> device_session" where
  "new_session cr dr now c =
     \<lparr>ds_id = dr_session dr, ds_user = ac_user c, ds_device = Some (dr_device dr), ds_family = dr_family dr,
      ds_token_hash = hash_credential cr (random_token (dr_bytes dr)), ds_info = ac_info c,
      ds_auth_version = ac_auth_version c, ds_last_used_at = now, ds_access_issued_at = now,
      ds_refresh_expires_at = now + mobile_refresh_token_ttl_ms, ds_revoked_at = None, ds_replaced_by = None,
      ds_reuse_detected_at = None\<rparr>"

definition exchange_transaction ::
  "crypto \<Rightarrow> sign_in_draws \<Rightarrow> time \<Rightarrow> authorization_code \<Rightarrow> device_session auth_action" where
  "exchange_transaction cr dr now c s =
     (let (s1, n) = lock_active_user now (ac_user c) (ac_auth_version c) s
      in if n \<noteq> 1 then (Inl Authorization_Invalid, s1)
         else if max_mobile_device_sessions_per_user \<le> active_devices now (ac_user c) s1 then (Inl Device_Limit, s1)
         else
           let (codes, m) = update_many (claimable_code now c s1) (\<lambda>x. x\<lparr>ac_used_at := Some now\<rparr>) (db_codes s1);
               s2 = s1\<lparr>db_codes := codes\<rparr>
           in if m \<noteq> 1 then (Inl Authorization_Invalid, s2)
              else
                let session = new_session cr dr now c
                in case Option.bind (Option.bind (create_device (new_device dr now c) s2) (create_session session))
                     (create_event ''MOBILE_DEVICE_SESSION_CREATED'' [(''platform'', in_platform (ac_info c))] (ac_user c)) of
                   None \<Rightarrow> (Inl Database_Failure, s2)
                 | Some s3 \<Rightarrow> (Inr session, s3))"

definition code_presented :: "crypto \<Rightarrow> exchange_request \<Rightarrow> time \<Rightarrow> authorization_code \<Rightarrow> bool" where
  "code_presented cr q now c \<longleftrightarrow>
     ac_used_at c = None \<and> now < ac_expires_at c \<and> ac_client_id c = Some (xq_client_id q) \<and>
     ac_redirect_uri c = xq_redirect_uri q \<and> ac_code_challenge_method c = ''S256'' \<and>
     ac_nonce_hash c = hash_credential cr (xq_nonce q) \<and>
     create_pkce_s256_challenge cr (xq_code_verifier q) = Inr (ac_code_challenge c)"

definition exchange_device_authorization_code ::
  "crypto \<Rightarrow> environment \<Rightarrow> interference \<Rightarrow> sign_in_draws \<Rightarrow> exchange_request \<Rightarrow> time \<Rightarrow> session_tokens auth_action" where
  "exchange_device_authorization_code cr aenv env dr q now s =
     (case assert_mobile_access_token_configuration cr aenv of
        Inl e \<Rightarrow> (Inl e, s)
      | Inr _ \<Rightarrow>
        (case row_at ac_code_hash (hash_credential cr (xq_code q)) (db_codes s) of
           None \<Rightarrow> (Inl Authorization_Invalid, s)
         | Some c \<Rightarrow>
             if \<not> code_presented cr q now c then (Inl Authorization_Invalid, s)
             else case assert_active_user (row_at mu_id (ac_user c) (db_users s)) (ac_auth_version c) Authorization_Invalid of
               Inl e \<Rightarrow> (Inl e, s)
             | Inr _ \<Rightarrow>
                 (case transact (exchange_transaction cr dr now c) (env 0 s) of
                    (Inl e, s') \<Rightarrow> (Inl e, s')
                  | (Inr r, s') \<Rightarrow> (tokens_of_session cr aenv (random_token (dr_bytes dr)) now r, s'))))"

subsection \<open>Revocation\<close>

definition mark_session :: "bool \<Rightarrow> time \<Rightarrow> device_session \<Rightarrow> device_session" where
  "mark_session reuse now r =
     r\<lparr>ds_reuse_detected_at := (if reuse then Some now else ds_reuse_detected_at r), ds_revoked_at := Some now\<rparr>"

definition mark_device :: "bool \<Rightarrow> time \<Rightarrow> mobile_device \<Rightarrow> mobile_device" where
  "mark_device reuse now d =
     d\<lparr>md_reuse_detected_at := (if reuse then Some now else md_reuse_detected_at d), md_revoked_at := Some now\<rparr>"

text \<open>Disables the installations whose device satisfies \<open>p\<close>.\<close>

definition disable_installations :: "(mobile_device \<Rightarrow> bool) \<Rightarrow> time \<Rightarrow> auth_db \<Rightarrow> auth_db" where
  "disable_installations p now s =
     s\<lparr>db_installations := fst (update_many
        (\<lambda>i. di_disabled_at i = None \<and>
           (case row_at md_id (di_device i) (db_devices s) of None \<Rightarrow> False | Some d \<Rightarrow> p d))
        (\<lambda>i. i\<lparr>di_disabled_at := Some now\<rparr>) (db_installations s))\<rparr>"

definition revoke_mobile_device_family :: "string \<Rightarrow> bool \<Rightarrow> time \<Rightarrow> string \<Rightarrow> string \<Rightarrow> unit auth_action" where
  "revoke_mobile_device_family event_type reuse now family u =
     transact (\<lambda>s.
       let s1 = s\<lparr>db_sessions := fst (update_many
                   (\<lambda>r. ds_revoked_at r = None \<and> ds_family r = family \<and> ds_user r = u) (mark_session reuse now) (db_sessions s))\<rparr>;
           s2 = s1\<lparr>db_devices := fst (update_many
                   (\<lambda>d. md_revoked_at d = None \<and> md_family d = family \<and> md_user d = u) (mark_device reuse now) (db_devices s1))\<rparr>;
           s3 = disable_installations (\<lambda>d. md_family d = family \<and> md_user d = u) now s2
       in case create_event event_type [] u s3 of None \<Rightarrow> (Inl Database_Failure, s3) | Some s4 \<Rightarrow> (Inr (), s4))"

definition revoke_mobile_device_session ::
  "interference \<Rightarrow> time \<Rightarrow> string \<Rightarrow> string \<Rightarrow> bool auth_action" where
  "revoke_mobile_device_session env now session_id u s =
     (let (family, s1) =
        (case List.find (\<lambda>d. md_id d = session_id \<and> md_user d = u) (db_devices s) of
           Some d \<Rightarrow> (Some (md_family d), s)
         | None \<Rightarrow> (map_option ds_family (List.find (\<lambda>r. ds_id r = session_id \<and> ds_user r = u) (db_sessions (env 0 s))), env 0 s))
      in if \<not> truthy family then (Inr False, s1)
         else case revoke_mobile_device_family ''MOBILE_DEVICE_SESSION_REVOKED'' False now (the family) u (env 1 s1) of
           (Inl e, s') \<Rightarrow> (Inl e, s')
         | (Inr _, s') \<Rightarrow> (Inr True, s'))"

record revoked_counts =
  rv_revoked :: nat
  rv_refresh_sessions :: nat

definition revoke_all_mobile_device_sessions :: "time \<Rightarrow> string \<Rightarrow> revoked_counts auth_action" where
  "revoke_all_mobile_device_sessions now u =
     transact (\<lambda>s.
       let (sessions, n) = update_many (\<lambda>r. ds_revoked_at r = None \<and> ds_user r = u)
             (\<lambda>r. r\<lparr>ds_revoked_at := Some now\<rparr>) (db_sessions s);
           s1 = s\<lparr>db_sessions := sessions\<rparr>;
           (devices, m) = update_many (\<lambda>d. md_revoked_at d = None \<and> md_user d = u)
             (\<lambda>d. d\<lparr>md_revoked_at := Some now\<rparr>) (db_devices s1);
           s2 = s1\<lparr>db_devices := devices\<rparr>;
           s3 = disable_installations (\<lambda>d. md_user d = u) now s2;
           counts = \<lparr>rv_revoked = m, rv_refresh_sessions = n\<rparr>
       in if m = 0 then (Inr counts, s3)
          else case create_event ''MOBILE_DEVICE_SESSIONS_REVOKED_ALL'' [] u s3 of
            None \<Rightarrow> (Inl Database_Failure, s3)
          | Some s4 \<Rightarrow> (Inr counts, s4))"

subsection \<open>Rotation of refresh tokens\<close>

datatype refresh_signal =
    Reuse_Detected
  | Account_Invalidated
  | Auth_Error mobile_error

record refresh_draws =
  rd_bytes :: "nat list"
  rd_session :: string

definition next_session :: "crypto \<Rightarrow> refresh_draws \<Rightarrow> time \<Rightarrow> device_session \<Rightarrow> device_session" where
  "next_session cr dr now current =
     \<lparr>ds_id = rd_session dr, ds_user = ds_user current, ds_device = ds_device current, ds_family = ds_family current,
      ds_token_hash = hash_credential cr (random_token (rd_bytes dr)), ds_info = ds_info current,
      ds_auth_version = ds_auth_version current, ds_last_used_at = now, ds_access_issued_at = now,
      ds_refresh_expires_at = now + mobile_refresh_token_ttl_ms, ds_revoked_at = None, ds_replaced_by = None,
      ds_reuse_detected_at = None\<rparr>"

text \<open>The writes of the rotation, for the session row read before.\<close>

definition rotate_session ::
  "crypto \<Rightarrow> refresh_draws \<Rightarrow> time \<Rightarrow> device_session \<Rightarrow> auth_db \<Rightarrow> (refresh_signal + device_session) \<times> auth_db" where
  "rotate_session cr dr now current s =
     (let nxt = next_session cr dr now current
      in case create_session nxt s of
           None \<Rightarrow> (Inl (Auth_Error Database_Failure), s)
         | Some s1 \<Rightarrow>
             let (sessions, n) = update_many
                   (\<lambda>r. ds_id r = ds_id current \<and> now < ds_refresh_expires_at r \<and> ds_replaced_by r = None \<and> ds_revoked_at r = None)
                   (\<lambda>r. r\<lparr>ds_last_used_at := now, ds_replaced_by := Some (ds_id nxt)\<rparr>) (db_sessions s1);
                 s2 = s1\<lparr>db_sessions := sessions\<rparr>
             in if n \<noteq> 1 then (Inl Reuse_Detected, s2)
                else
                  let s3 = (if \<not> truthy (ds_device current) then s2
                        else s2\<lparr>db_devices := fst (update_many
                          (\<lambda>d. md_id d = the (ds_device current) \<and> md_revoked_at d = None \<and> md_user d = ds_user current)
                          (\<lambda>d. d\<lparr>md_last_used_at := now, md_refresh_expires_at := now + mobile_refresh_token_ttl_ms\<rparr>)
                          (db_devices s2))\<rparr>)
                  in case create_event ''MOBILE_DEVICE_REFRESH_ROTATED''
                       [(''platform'', in_platform (ds_info current))] (ds_user current) s3 of
                     None \<Rightarrow> (Inl (Auth_Error Database_Failure), s3)
                   | Some s4 \<Rightarrow> (Inr nxt, s4))"

definition session_account :: "auth_db \<Rightarrow> device_session \<Rightarrow> mobile_user option" where
  "session_account s r = row_at mu_id (ds_user r) (db_users s)"

text \<open>The transaction of the rotation; \<open>env\<close> is committed between its first read and its writes.\<close>

definition refresh_transaction ::
  "crypto \<Rightarrow> (auth_db \<Rightarrow> auth_db) \<Rightarrow> refresh_draws \<Rightarrow> time \<Rightarrow> string \<Rightarrow> string \<Rightarrow> auth_db \<Rightarrow>
   (refresh_signal + device_session) \<times> auth_db" where
  "refresh_transaction cr env dr now previous_id token_hash s =
     (case row_at ds_id previous_id (db_sessions s) of
        None \<Rightarrow> (Inl (Auth_Error Refresh_Invalid), s)
      | Some current \<Rightarrow>
          if ds_token_hash current \<noteq> token_hash \<or> ds_revoked_at current \<noteq> None then (Inl (Auth_Error Refresh_Invalid), s)
          else if truthy (ds_replaced_by current) then (Inl Reuse_Detected, s)
          else case session_account s current of
            None \<Rightarrow> (Inl (Auth_Error Database_Failure), s)
          | Some u \<Rightarrow>
              if \<not> active_user (ds_auth_version current) u then (Inl Account_Invalidated, s)
              else if ds_refresh_expires_at current \<le> now then (Inl (Auth_Error Refresh_Invalid), s)
              else transact (rotate_session cr dr now current) (env s))"

text \<open>A revocation that fails replaces the error it was made for.\<close>

definition revoke_then_fail ::
  "string \<Rightarrow> bool \<Rightarrow> time \<Rightarrow> device_session \<Rightarrow> mobile_error \<Rightarrow> 'a auth_action" where
  "revoke_then_fail event_type reuse now previous e s =
     (case revoke_mobile_device_family event_type reuse now (ds_family previous) (ds_user previous) s of
        (Inl e', s') \<Rightarrow> (Inl e', s')
      | (Inr _, s') \<Rightarrow> (Inl e, s'))"

definition refresh_mobile_device_session ::
  "crypto \<Rightarrow> environment \<Rightarrow> interference \<Rightarrow> refresh_draws \<Rightarrow> string \<Rightarrow> time \<Rightarrow> session_tokens auth_action" where
  "refresh_mobile_device_session cr aenv env dr refresh_token now s =
     (case assert_mobile_access_token_configuration cr aenv of
        Inl e \<Rightarrow> (Inl e, s)
      | Inr _ \<Rightarrow>
        (let token_hash = hash_credential cr refresh_token
         in case row_at ds_token_hash token_hash (db_sessions s) of
              None \<Rightarrow> (Inl Refresh_Invalid, s)
            | Some previous \<Rightarrow>
              (case session_account s previous of
                 None \<Rightarrow> (Inl Database_Failure, s)
               | Some u \<Rightarrow>
                 if \<not> active_user (ds_auth_version previous) u
                 then revoke_then_fail ''MOBILE_DEVICE_SESSION_INVALIDATED'' False now previous Refresh_Invalid (env 0 s)
                 else if ds_revoked_at previous \<noteq> None \<or> ds_refresh_expires_at previous \<le> now then (Inl Refresh_Invalid, s)
                 else if truthy (ds_replaced_by previous)
                 then revoke_then_fail ''MOBILE_DEVICE_REFRESH_REUSE_DETECTED'' True now previous Refresh_Reuse_Detected (env 0 s)
                 else case refresh_transaction cr (env 1) dr now (ds_id previous) token_hash (env 0 s) of
                     (Inl Reuse_Detected, s') \<Rightarrow>
                       revoke_then_fail ''MOBILE_DEVICE_REFRESH_REUSE_DETECTED'' True now previous Refresh_Reuse_Detected (env 2 s')
                   | (Inl Account_Invalidated, s') \<Rightarrow>
                       revoke_then_fail ''MOBILE_DEVICE_SESSION_INVALIDATED'' False now previous Refresh_Invalid (env 2 s')
                   | (Inl (Auth_Error e), s') \<Rightarrow> (Inl e, s')
                   | (Inr nxt, s') \<Rightarrow> (tokens_of_session cr aenv (random_token (rd_bytes dr)) now nxt, s'))))"

subsection \<open>Authentication and listing\<close>

definition session_grants :: "auth_db \<Rightarrow> time \<Rightarrow> access_payload \<Rightarrow> device_session \<Rightarrow> bool" where
  "session_grants s now p r \<longleftrightarrow>
     ds_user r = pl_sub p \<and> ds_auth_version r = pl_av p \<and>
     (case session_account s r of None \<Rightarrow> False | Some u \<Rightarrow> active_user (pl_av p) u) \<and>
     ds_device r = Some (pl_did p) \<and>
     (case row_at md_id (pl_did p) (db_devices s) of
        None \<Rightarrow> False
      | Some d \<Rightarrow> md_revoked_at d = None \<and> md_auth_version d = pl_av p) \<and>
     ds_revoked_at r = None \<and> \<not> truthy (ds_replaced_by r) \<and> now < ds_refresh_expires_at r"

definition record_activity :: "time \<Rightarrow> device_session \<Rightarrow> auth_db \<Rightarrow> auth_db" where
  "record_activity now r s =
     (let cutoff = now - mobile_activity_write_interval_ms
      in s\<lparr>db_sessions := fst (update_many
             (\<lambda>x. ds_id x = ds_id r \<and> ds_last_used_at x < cutoff \<and> ds_replaced_by x = None \<and> ds_revoked_at x = None \<and>
                ds_user x = ds_user r) (\<lambda>x. x\<lparr>ds_last_used_at := now\<rparr>) (db_sessions s)),
           db_devices := fst (update_many
             (\<lambda>d. Some (md_id d) = ds_device r \<and> md_last_used_at d < cutoff \<and> md_revoked_at d = None \<and> md_user d = ds_user r)
             (\<lambda>d. d\<lparr>md_last_used_at := now\<rparr>) (db_devices s))\<rparr>)"

definition authenticate_mobile_access_token ::
  "crypto \<Rightarrow> text_rest \<Rightarrow> environment \<Rightarrow> interference \<Rightarrow> string \<Rightarrow> time \<Rightarrow> access_principal auth_action" where
  "authenticate_mobile_access_token cr rest aenv env access_token now s =
     (case parse_mobile_access_token cr rest access_token aenv now of
        Inl e \<Rightarrow> (Inl e, s)
      | Inr p \<Rightarrow>
        (case row_at ds_id (pl_sid p) (db_sessions s) of
           None \<Rightarrow> (Inl Refresh_Invalid, s)
         | Some r \<Rightarrow>
             if \<not> session_grants s now p r then (Inl Refresh_Invalid, s)
             else (Inr \<lparr>mp_auth_version = pl_av p, mp_device_id = pl_did p, mp_session_id = ds_id r, mp_user_id = ds_user r\<rparr>,
                   record_activity now r (env 0 s))))"

text \<open>The devices of a user, last used first.\<close>

definition list_mobile_device_sessions :: "string \<Rightarrow> time \<Rightarrow> auth_db \<Rightarrow> mobile_device list" where
  "list_mobile_device_sessions u now s =
     sort_key (\<lambda>d. - md_last_used_at d) (filter (active_device now u) (db_devices s))"

end
