(* ===== verification/Auth_Token_Maintenance.thy ===== *)
theory Auth_Token_Maintenance
  imports Mobile_Session
begin

text \<open>
  \<open>src/lib/auth-token-maintenance.ts\<close>: the retention job for expired credentials. It lists a batch
  of ids per table and deletes those that still qualify. Deleting a session sets the references to
  it to NULL (\<open>onDelete: SetNull\<close> of the schema); deleting an account deletes all its rows.
\<close>

definition default_auth_token_cleanup_batch_size :: nat where
  "default_auth_token_cleanup_batch_size = 100"

definition mobile_mutation_receipt_retention_days :: int where
  "mobile_mutation_receipt_retention_days = 30"

text \<open>A value that is no integer counts as absent.\<close>

definition get_batch_size :: "int option \<Rightarrow> nat" where
  "get_batch_size v =
     (case v of
        None \<Rightarrow> default_auth_token_cleanup_batch_size
      | Some n \<Rightarrow> if n < 1 then default_auth_token_cleanup_batch_size else nat (min n 1000))"

definition delete_many :: "('r \<Rightarrow> bool) \<Rightarrow> 'r list \<Rightarrow> 'r list \<times> nat" where
  "delete_many p t = (filter (\<lambda>r. \<not> p r) t, length (filter p t))"

definition set_null :: "string set \<Rightarrow> string option \<Rightarrow> string option" where
  "set_null gone x = (case x of None \<Rightarrow> None | Some i \<Rightarrow> if i \<in> gone then None else Some i)"

definition delete_sessions :: "(device_session \<Rightarrow> bool) \<Rightarrow> auth_db \<Rightarrow> auth_db \<times> nat" where
  "delete_sessions p s =
     (let (left, n) = delete_many p (db_sessions s);
          gone = set (map ds_id (filter p (db_sessions s)))
      in (s\<lparr>db_sessions := map (\<lambda>r. r\<lparr>ds_replaced_by := set_null gone (ds_replaced_by r)\<rparr>) left,
            db_installations := map (\<lambda>i. i\<lparr>di_session := set_null gone (di_session i)\<rparr>) (db_installations s),
            db_receipts := map (\<lambda>r. r\<lparr>mr_session := set_null gone (mr_session r)\<rparr>) (db_receipts s)\<rparr>, n))"

definition expired_session :: "time \<Rightarrow> device_session \<Rightarrow> bool" where
  "expired_session now r \<longleftrightarrow> ds_refresh_expires_at r < now \<or> ds_revoked_at r \<noteq> None"

text \<open>The ids of the first \<open>n\<close> rows in the order of \<open>key\<close>.\<close>

definition first_ids :: "nat \<Rightarrow> ('r \<Rightarrow> string) \<Rightarrow> ('r \<Rightarrow> time) \<Rightarrow> ('r \<Rightarrow> bool) \<Rightarrow> 'r list \<Rightarrow> string list" where
  "first_ids n ident key p t = map ident (take n (sort_key key (sort_key ident (filter p t))))"

record cleanup_counts =
  cl_deletion_confirmations :: nat
  cl_codes :: nat
  cl_requests :: nat
  cl_receipts :: nat
  cl_sessions :: nat
  cl_verifications :: nat
  cl_resets :: nat

definition cleanup_expired_auth_tokens ::
  "(auth_db \<Rightarrow> auth_db) \<Rightarrow> int option \<Rightarrow> time \<Rightarrow> auth_db \<Rightarrow> cleanup_counts \<times> auth_db" where
  "cleanup_expired_auth_tokens env batch_size now s =
     (let n = get_batch_size batch_size;
          cutoff = now - mobile_mutation_receipt_retention_days * 24 * 60 * 60 * 1000;
          old = (\<lambda>t. tk_expires_at t < now);
          ids_of = first_ids n tk_id tk_expires_at old;
          resets = ids_of (db_password_resets s);
          verifications = ids_of (db_email_verifications s);
          deletions = ids_of (db_deletion_confirmations s);
          codes = first_ids n ac_id ac_expires_at (\<lambda>c. ac_expires_at c < now) (db_codes s);
          requests = first_ids n rq_id rq_expires_at (\<lambda>r. rq_expires_at r < now) (db_requests s);
          sessions = first_ids n ds_id ds_refresh_expires_at (expired_session now) (db_sessions s);
          receipts = first_ids n mr_id mr_created_at (\<lambda>r. mr_created_at r < cutoff) (db_receipts s);
          t = env s;
          (resets', n1) = delete_many (\<lambda>x. old x \<and> tk_id x \<in> set resets) (db_password_resets t);
          (verifications', n2) = delete_many (\<lambda>x. old x \<and> tk_id x \<in> set verifications) (db_email_verifications t);
          (deletions', n3) = delete_many (\<lambda>x. old x \<and> tk_id x \<in> set deletions) (db_deletion_confirmations t);
          (codes', n4) = delete_many (\<lambda>c. ac_expires_at c < now \<and> ac_id c \<in> set codes) (db_codes t);
          (requests', n5) = delete_many (\<lambda>r. rq_expires_at r < now \<and> rq_id r \<in> set requests) (db_requests t);
          t1 = t\<lparr>db_password_resets := resets', db_email_verifications := verifications',
                 db_deletion_confirmations := deletions', db_codes := codes', db_requests := requests'\<rparr>;
          (t2, n6) = delete_sessions (\<lambda>r. expired_session now r \<and> ds_id r \<in> set sessions) t1;
          (receipts', n7) = delete_many (\<lambda>r. mr_created_at r < cutoff \<and> mr_id r \<in> set receipts) (db_receipts t2)
      in (\<lparr>cl_deletion_confirmations = n3, cl_codes = n4, cl_requests = n5, cl_receipts = n7, cl_sessions = n6,
           cl_verifications = n2, cl_resets = n1\<rparr>,
          t2\<lparr>db_receipts := receipts'\<rparr>))"

text \<open>The cascade of deleting the account \<open>u\<close>.\<close>

definition delete_account :: "string \<Rightarrow> auth_db \<Rightarrow> auth_db" where
  "delete_account u s =
     (let gone_devices = set (map md_id (filter (\<lambda>d. md_user d = u) (db_devices s)));
          t = fst (delete_sessions (\<lambda>r. ds_user r = u) s)
      in t\<lparr>db_users := filter (\<lambda>x. mu_id x \<noteq> u) (db_users t),
           db_requests := filter (\<lambda>r. rq_user r \<noteq> u) (db_requests t),
           db_codes := filter (\<lambda>c. ac_user c \<noteq> u) (db_codes t),
           db_devices := filter (\<lambda>d. md_user d \<noteq> u) (db_devices t),
           db_sessions := map (\<lambda>r. r\<lparr>ds_device := set_null gone_devices (ds_device r)\<rparr>) (db_sessions t),
           db_installations := filter (\<lambda>i. di_device i \<notin> gone_devices) (db_installations t),
           db_receipts := filter (\<lambda>r. mr_device r \<notin> gone_devices) (db_receipts t),
           db_events := filter (\<lambda>e. ev_user e \<noteq> u) (db_events t),
           db_password_resets := filter (\<lambda>x. tk_user x \<noteq> u) (db_password_resets t),
           db_email_verifications := filter (\<lambda>x. tk_user x \<noteq> u) (db_email_verifications t),
           db_deletion_confirmations := filter (\<lambda>x. tk_user x \<noteq> u) (db_deletion_confirmations t)\<rparr>)"

end
