(* ===== verification/Token_Families.thy ===== *)
theory Token_Families
  imports Auth_Token_Maintenance
begin

text \<open>
  What the mobile sign-in promises, as a step relation on the session and device rows alone:
  signing in, rotating a live session, revoking whole families, deleting dead rows, deleting an
  account, and changes of the activity columns. The invariant \<open>token_ok\<close> is proved for these steps;
  \<open>Mobile_Steps\<close> shows that the handlers with all their interleavings take no others. \<open>F\<close> are random
  values in use; a step draws none of them again.
\<close>

type_synonym token_tables = "device_session list \<times> mobile_device list"

definition tokens :: "auth_db \<Rightarrow> token_tables" where
  "tokens s = (db_sessions s, db_devices s)"

definition live_session :: "time \<Rightarrow> device_session \<Rightarrow> bool" where
  "live_session now r \<longleftrightarrow> ds_revoked_at r = None \<and> ds_replaced_by r = None \<and> now < ds_refresh_expires_at r"

text \<open>The columns that never change, and those that decide.\<close>

definition session_key :: "device_session \<Rightarrow> string \<times> string \<times> string option \<times> string \<times> string \<times> time" where
  "session_key r = (ds_id r, ds_user r, ds_device r, ds_family r, ds_token_hash r, ds_refresh_expires_at r)"

definition session_core :: "device_session \<Rightarrow> _" where
  "session_core r = (session_key r, ds_revoked_at r = None, ds_replaced_by r)"

definition device_key :: "mobile_device \<Rightarrow> string \<times> string \<times> string" where
  "device_key d = (md_id d, md_user d, md_family d)"

definition device_core :: "mobile_device \<Rightarrow> _" where
  "device_core d = (device_key d, md_refresh_expires_at d, md_revoked_at d = None)"

definition rotated :: "device_session \<Rightarrow> device_session \<Rightarrow> device_session \<Rightarrow> device_session" where
  "rotated r nxt x = (if ds_id x = ds_id r then x\<lparr>ds_replaced_by := Some (ds_id nxt)\<rparr> else x)"

definition extended :: "device_session \<Rightarrow> time \<Rightarrow> mobile_device \<Rightarrow> mobile_device" where
  "extended r expires d =
     (if Some (md_id d) = ds_device r \<and> md_revoked_at d = None \<and> md_user d = ds_user r
      then d\<lparr>md_refresh_expires_at := expires\<rparr> else d)"

definition without :: "device_session list \<Rightarrow> (device_session \<Rightarrow> bool) \<Rightarrow> device_session list" where
  "without S p = map (\<lambda>r. r\<lparr>ds_replaced_by := set_null (set (map ds_id (filter p S))) (ds_replaced_by r)\<rparr>)
     (filter (\<lambda>r. \<not> p r) S)"

inductive token_step :: "string set \<Rightarrow> time \<Rightarrow> token_tables \<Rightarrow> token_tables \<Rightarrow> bool" for F now where
  touch: "map session_core S' = map session_core S \<Longrightarrow> map device_core D' = map device_core D \<Longrightarrow>
    token_step F now (S, D) (S', D')"
| sign_in: "\<lbrakk>ds_id r \<notin> ds_id ` set S \<union> F; ds_token_hash r \<notin> ds_token_hash ` set S \<union> F; ds_family r \<notin> F;
    md_id d \<notin> md_id ` set D; md_family d \<notin> md_family ` set D; md_id d \<noteq> [];
    ds_family r = md_family d; ds_device r = Some (md_id d); ds_user r = md_user d;
    ds_revoked_at r = None; ds_replaced_by r = None; md_revoked_at d = None;
    ds_refresh_expires_at r = now + mobile_refresh_token_ttl_ms; md_refresh_expires_at d = now + mobile_refresh_token_ttl_ms;
    length (filter (active_device now (md_user d)) D) < max_mobile_device_sessions_per_user\<rbrakk> \<Longrightarrow>
    token_step F now (S, D) (S @ [r], D @ [d])"
| rotate: "\<lbrakk>r \<in> set S; live_session now r; ds_id nxt \<notin> ds_id ` set S \<union> F; ds_token_hash nxt \<notin> ds_token_hash ` set S \<union> F;
    ds_family nxt = ds_family r; ds_device nxt = ds_device r; ds_user nxt = ds_user r; ds_revoked_at nxt = None;
    ds_replaced_by nxt = None; ds_refresh_expires_at nxt = now + mobile_refresh_token_ttl_ms\<rbrakk> \<Longrightarrow>
    token_step F now (S, D) (map (rotated r nxt) (S @ [nxt]), map (extended r (now + mobile_refresh_token_ttl_ms)) D)"
| revoke: "token_step F now (S, D)
    (map (\<lambda>r. if ds_revoked_at r = None \<and> q (ds_family r) (ds_user r) then mark_session b now r else r) S,
     map (\<lambda>d. if md_revoked_at d = None \<and> q (md_family d) (md_user d) then mark_device b now d else d) D)"
| delete: "(\<And>r. p r \<Longrightarrow> expired_session now r) \<Longrightarrow> token_step F now (S, D) (without S p, D)"
| delete_user: "token_step F now (S, D) (without S (\<lambda>r. ds_user r = u), filter (\<lambda>d. md_user d \<noteq> u) D)"

abbreviation token_steps :: "string set \<Rightarrow> time \<Rightarrow> token_tables \<Rightarrow> token_tables \<Rightarrow> bool" where
  "token_steps F now \<equiv> (token_step F now)\<^sup>*\<^sup>*"

lemma token_step_antimono: "token_step F now x y \<Longrightarrow> F' \<subseteq> F \<Longrightarrow> token_step F' now x y"
proof (induction rule: token_step.induct)
  case (sign_in r S d D)
  then show ?case by (intro token_step.sign_in) auto
next
  case (rotate r S nxt D)
  then show ?case by (intro token_step.rotate) auto
qed (auto intro: token_step.intros)

lemma token_steps_antimono: "token_steps F now x y \<Longrightarrow> F' \<subseteq> F \<Longrightarrow> token_steps F' now x y"
  by (induction rule: rtranclp_induct) (auto intro: token_step_antimono rtranclp.rtrancl_into_rtrancl)

subsection \<open>The invariant\<close>

definition rows_ok :: "token_tables \<Rightarrow> bool" where
  "rows_ok x \<longleftrightarrow> distinct (map ds_id (fst x)) \<and> distinct (map ds_token_hash (fst x)) \<and>
     distinct (map md_id (snd x)) \<and> distinct (map md_family (snd x))"

definition device_of :: "mobile_device list \<Rightarrow> device_session \<Rightarrow> mobile_device \<Rightarrow> bool" where
  "device_of D r d \<longleftrightarrow> d \<in> set D \<and> md_family d = ds_family r \<and> ds_device r = Some (md_id d) \<and> md_user d = ds_user r \<and>
     md_id d \<noteq> []"

definition chained :: "device_session list \<Rightarrow> device_session \<Rightarrow> bool" where
  "chained S r \<longleftrightarrow> (\<forall>i. ds_replaced_by r = Some i \<longrightarrow>
     (\<exists>y \<in> set S. ds_id y = i \<and> ds_family y = ds_family r \<and> ds_user y = ds_user r \<and>
        ds_refresh_expires_at r \<le> ds_refresh_expires_at y \<and> (ds_revoked_at y \<noteq> None \<longrightarrow> ds_revoked_at r \<noteq> None)))"

definition covered :: "time \<Rightarrow> mobile_device list \<Rightarrow> device_session \<Rightarrow> bool" where
  "covered now D r \<longleftrightarrow> ds_refresh_expires_at r \<le> now + mobile_refresh_token_ttl_ms \<and>
     (\<exists>d. device_of D r d \<and> (md_revoked_at d = None \<longrightarrow> ds_refresh_expires_at r \<le> md_refresh_expires_at d))"

definition one_live :: "time \<Rightarrow> device_session list \<Rightarrow> bool" where
  "one_live now S \<longleftrightarrow> (\<forall>r1 \<in> set S. \<forall>r2 \<in> set S.
     live_session now r1 \<and> live_session now r2 \<and> ds_family r1 = ds_family r2 \<longrightarrow> ds_id r1 = ds_id r2)"

definition token_ok :: "time \<Rightarrow> token_tables \<Rightarrow> bool" where
  "token_ok now x \<longleftrightarrow> rows_ok x \<and> (\<forall>r \<in> set (fst x). chained (fst x) r \<and> covered now (snd x) r) \<and> one_live now (fst x)"

lemma token_okD:
  assumes "token_ok now (S, D)" "r \<in> set S"
  shows "chained S r" "covered now D r"
  using assms by (simp_all add: token_ok_def)

lemma one_liveD:
  assumes "token_ok now (S, D)" "r1 \<in> set S" "r2 \<in> set S" "live_session now r1" "live_session now r2" "ds_family r1 = ds_family r2"
  shows "ds_id r1 = ds_id r2"
  using assms unfolding token_ok_def one_live_def fst_conv by blast

lemma token_ok_empty: "token_ok now ([], [])"
  by (simp add: token_ok_def rows_ok_def one_live_def)

lemma token_ok_later:
  assumes "token_ok now x" "now \<le> now'"
  shows "token_ok now' x"
proof -
  have "covered now' (snd x) r" if "covered now (snd x) r" for r
    using that assms(2) unfolding covered_def by force
  moreover have "one_live now' (fst x)"
    using assms unfolding token_ok_def one_live_def live_session_def by fastforce
  ultimately show ?thesis using assms(1) by (simp add: token_ok_def)
qed


subsection \<open>The steps keep the invariant\<close>

lemma map_eq_row:
  assumes "map f xs = map f ys" "x \<in> set xs"
  shows "\<exists>y \<in> set ys. f y = f x"
proof -
  have "f x \<in> f ` set ys" using assms by (metis image_eqI set_map)
  then show ?thesis by auto
qed

lemma map_key:
  assumes "map f xs = map f ys" and "\<And>a b. f a = f b \<Longrightarrow> k a = k b"
  shows "map k xs = map k ys"
proof -
  have n: "length xs = length ys" using assms(1) by (rule map_eq_imp_length_eq)
  have "k (xs ! i) = k (ys ! i)" if "i < length xs" for i
    using arg_cong [OF assms(1), of "\<lambda>zs. zs ! i"] that n by (intro assms(2)) simp
  then show ?thesis using n by (simp add: list_eq_iff_nth_eq)
qed

lemma same_row: "distinct (map k xs) \<Longrightarrow> x \<in> set xs \<Longrightarrow> y \<in> set xs \<Longrightarrow> k x = k y \<Longrightarrow> x = y"
  by (induction xs) (auto simp: image_iff)

lemmas core_simps = session_core_def session_key_def device_core_def device_key_def

lemma core_live: "session_core a = session_core b \<Longrightarrow> live_session now a = live_session now b"
  by (simp add: core_simps live_session_def)

lemma token_ok_touch:
  assumes ok: "token_ok now (S, D)" and S: "map session_core S' = map session_core S" and D: "map device_core D' = map device_core D"
  shows "token_ok now (S', D')"
proof -
  have keys: "map ds_id S' = map ds_id S" "map ds_token_hash S' = map ds_token_hash S"
    "map md_id D' = map md_id D" "map md_family D' = map md_family D"
    by (rule map_key [OF S], simp add: core_simps, rule map_key [OF S], simp add: core_simps,
        rule map_key [OF D], simp add: core_simps, rule map_key [OF D], simp add: core_simps)
  note old = map_eq_row [OF S] and new = map_eq_row [OF S [symmetric]] and dev = map_eq_row [OF D [symmetric]]
  have "chained S' r'" "covered now D' r'" if r': "r' \<in> set S'" for r'
  proof -
    obtain r where r: "r \<in> set S" "session_core r = session_core r'" using old [OF r'] by auto
    have c: "chained S r" "covered now D r" using ok r(1) by (simp_all add: token_okD)
    show "chained S' r'" unfolding chained_def
    proof (intro allI impI)
      fix i assume "ds_replaced_by r' = Some i"
      then obtain y where y: "y \<in> set S" "ds_id y = i" "ds_family y = ds_family r" "ds_user y = ds_user r"
        "ds_refresh_expires_at r \<le> ds_refresh_expires_at y" "ds_revoked_at y \<noteq> None \<longrightarrow> ds_revoked_at r \<noteq> None"
        using c(1) r(2) by (auto simp: chained_def core_simps)
      obtain y' where "y' \<in> set S'" "session_core y' = session_core y" using new [OF y(1)] by auto
      then show "\<exists>y\<in>set S'. ds_id y = i \<and> ds_family y = ds_family r' \<and> ds_user y = ds_user r' \<and>
        ds_refresh_expires_at r' \<le> ds_refresh_expires_at y \<and> (ds_revoked_at y \<noteq> None \<longrightarrow> ds_revoked_at r' \<noteq> None)"
        using y r(2) by (intro bexI [of _ y']) (auto simp: core_simps)
    qed
    obtain d where d: "device_of D r d" "md_revoked_at d = None \<longrightarrow> ds_refresh_expires_at r \<le> md_refresh_expires_at d"
      using c(2) by (auto simp: covered_def)
    obtain d' where "d' \<in> set D'" "device_core d' = device_core d" using dev d(1) by (auto simp: device_of_def)
    then have "device_of D' r' d' \<and> (md_revoked_at d' = None \<longrightarrow> ds_refresh_expires_at r' \<le> md_refresh_expires_at d')"
      using d r(2) by (auto simp: device_of_def core_simps)
    moreover have "ds_refresh_expires_at r' \<le> now + mobile_refresh_token_ttl_ms"
      using c(2) r(2) by (auto simp: covered_def core_simps)
    ultimately show "covered now D' r'" by (auto simp: covered_def)
  qed
  moreover have "one_live now S'" unfolding one_live_def
  proof (intro ballI impI)
    fix a' b' assume ab: "a' \<in> set S'" "b' \<in> set S'" "live_session now a' \<and> live_session now b' \<and> ds_family a' = ds_family b'"
    obtain a b where a: "a \<in> set S" "session_core a = session_core a'" and b: "b \<in> set S" "session_core b = session_core b'"
      using old [OF ab(1)] old [OF ab(2)] by auto
    have "ds_family a = ds_family b" using a(2) b(2) ab(3) by (simp add: core_simps)
    then have "ds_id a = ds_id b"
      using one_liveD [OF ok a(1) b(1)] ab(3) core_live [OF a(2)] core_live [OF b(2)] by simp
    then show "ds_id a' = ds_id b'" using a(2) b(2) by (simp add: core_simps)
  qed
  ultimately show ?thesis using ok keys by (auto simp: token_ok_def rows_ok_def)
qed

lemma chainedD:
  assumes "chained S r" "ds_replaced_by r = Some i"
  obtains y where "y \<in> set S" "ds_id y = i" "ds_family y = ds_family r" "ds_user y = ds_user r"
    "ds_refresh_expires_at r \<le> ds_refresh_expires_at y" "ds_revoked_at y \<noteq> None \<longrightarrow> ds_revoked_at r \<noteq> None"
proof -
  have "\<exists>y \<in> set S. ds_id y = i \<and> ds_family y = ds_family r \<and> ds_user y = ds_user r \<and>
        ds_refresh_expires_at r \<le> ds_refresh_expires_at y \<and> (ds_revoked_at y \<noteq> None \<longrightarrow> ds_revoked_at r \<noteq> None)"
    using assms by (simp only: chained_def)
  then show ?thesis by (elim bexE conjE) (rule that)
qed

lemma chainedI:
  assumes "\<And>i. ds_replaced_by r = Some i \<Longrightarrow> \<exists>y \<in> set S. ds_id y = i \<and> ds_family y = ds_family r \<and> ds_user y = ds_user r \<and>
    ds_refresh_expires_at r \<le> ds_refresh_expires_at y \<and> (ds_revoked_at y \<noteq> None \<longrightarrow> ds_revoked_at r \<noteq> None)"
  shows "chained S r"
  unfolding chained_def by (intro allI impI) (rule assms)

lemma chained_mono:
  assumes "chained S r" "set S \<subseteq> set S'"
  shows "chained S' r"
proof (rule chainedI)
  fix i assume "ds_replaced_by r = Some i"
  then obtain y where "y \<in> set S" "ds_id y = i" "ds_family y = ds_family r" "ds_user y = ds_user r"
    "ds_refresh_expires_at r \<le> ds_refresh_expires_at y" "ds_revoked_at y \<noteq> None \<longrightarrow> ds_revoked_at r \<noteq> None"
    by (rule chainedD [OF assms(1)])
  then show "\<exists>y\<in>set S'. ds_id y = i \<and> ds_family y = ds_family r \<and> ds_user y = ds_user r \<and>
    ds_refresh_expires_at r \<le> ds_refresh_expires_at y \<and> (ds_revoked_at y \<noteq> None \<longrightarrow> ds_revoked_at r \<noteq> None)"
    using assms(2) by (intro bexI [of _ y]) auto
qed

lemma coveredD:
  assumes "covered now D r"
  obtains d where "device_of D r d" "md_revoked_at d = None \<longrightarrow> ds_refresh_expires_at r \<le> md_refresh_expires_at d"
    "ds_refresh_expires_at r \<le> now + mobile_refresh_token_ttl_ms"
  using assms unfolding covered_def by (elim conjE exE) (rule that)

lemma coveredI:
  assumes "device_of D r d" "md_revoked_at d = None \<longrightarrow> ds_refresh_expires_at r \<le> md_refresh_expires_at d"
    "ds_refresh_expires_at r \<le> now + mobile_refresh_token_ttl_ms"
  shows "covered now D r"
  unfolding covered_def using assms by (intro conjI exI [of _ d])

lemma covered_mono:
  assumes "covered now D r" "set D \<subseteq> set D'"
  shows "covered now D' r"
  using assms(1)
proof (rule coveredD)
  fix d assume "device_of D r d" "md_revoked_at d = None \<longrightarrow> ds_refresh_expires_at r \<le> md_refresh_expires_at d"
    "ds_refresh_expires_at r \<le> now + mobile_refresh_token_ttl_ms"
  then show ?thesis using assms(2) by (intro coveredI [of _ _ d]) (auto simp: device_of_def)
qed

lemma token_ok_sign_in:
  assumes ok: "token_ok now (S, D)" and "ds_id r \<notin> ds_id ` set S" "ds_token_hash r \<notin> ds_token_hash ` set S"
    and dev: "md_id d \<notin> md_id ` set D" "md_family d \<notin> md_family ` set D" "md_id d \<noteq> []"
      "ds_family r = md_family d" "ds_device r = Some (md_id d)" "ds_user r = md_user d"
    and "ds_replaced_by r = None"
    and exps: "ds_refresh_expires_at r = now + mobile_refresh_token_ttl_ms" "md_refresh_expires_at d = now + mobile_refresh_token_ttl_ms"
  shows "token_ok now (S @ [r], D @ [d])"
proof -
  have "chained (S @ [r]) x" "covered now (D @ [d]) x" if "x \<in> set (S @ [r])" for x
  proof -
    show "chained (S @ [r]) x"
    proof (cases "x \<in> set S")
      case True
      show ?thesis by (rule chained_mono [OF token_okD(1) [OF ok True]]) auto
    next
      case False
      then show ?thesis using that \<open>ds_replaced_by r = None\<close> by (simp add: chained_def)
    qed
    show "covered now (D @ [d]) x"
    proof (cases "x \<in> set S")
      case True
      show ?thesis by (rule covered_mono [OF token_okD(2) [OF ok True]]) auto
    next
      case False
      then have "x = r" using that by simp
      moreover have "device_of (D @ [d]) r d" using dev by (simp add: device_of_def)
      ultimately show ?thesis using exps by (auto simp: covered_def)
    qed
  qed
  moreover have "one_live now (S @ [r])"
  proof -
    have "ds_family x \<noteq> ds_family r" if x: "x \<in> set S" for x
    proof -
      from token_okD(2) [OF ok x] obtain d' where "device_of D x d'" by (rule coveredD)
      then have "d' \<in> set D" "md_family d' = ds_family x" by (simp_all add: device_of_def)
      then show ?thesis using dev(2,4) by (metis image_eqI)
    qed
    then show ?thesis using one_liveD [OF ok] unfolding one_live_def by (metis Un_iff empty_iff insert_iff list.set set_append)
  qed
  moreover have "rows_ok (S @ [r], D @ [d])"
    using ok assms(2,3) dev(1,2) by (auto simp: token_ok_def rows_ok_def)
  ultimately show ?thesis by (simp add: token_ok_def)
qed

lemma token_ok_rotate:
  assumes ok: "token_ok now (S, D)" and r: "r \<in> set S" "live_session now r"
    and new: "ds_id nxt \<notin> ds_id ` set S" "ds_token_hash nxt \<notin> ds_token_hash ` set S"
      "ds_family nxt = ds_family r" "ds_device nxt = ds_device r" "ds_user nxt = ds_user r" "ds_revoked_at nxt = None"
      "ds_replaced_by nxt = None" "ds_refresh_expires_at nxt = now + mobile_refresh_token_ttl_ms"
  shows "token_ok now (map (rotated r nxt) (S @ [nxt]), map (extended r (now + mobile_refresh_token_ttl_ms)) D)"
proof -
  let ?S = "map (rotated r nxt) (S @ [nxt])" and ?e = "extended r (now + mobile_refresh_token_ttl_ms)"
  have dist: "distinct (map ds_id S)" using ok by (simp add: token_ok_def rows_ok_def)
  have ne: "ds_id nxt \<noteq> ds_id r" using r(1) new(1) by auto
  have key: "session_key (rotated r nxt x) = session_key x" "ds_revoked_at (rotated r nxt x) = ds_revoked_at x" for x
    by (simp_all add: rotated_def session_key_def)
  have nxt: "rotated r nxt nxt = nxt" using ne by (simp add: rotated_def)
  have ekey: "device_key (?e d) = device_key d" "md_revoked_at (?e d) = md_revoked_at d" for d
    by (simp_all add: extended_def device_key_def)
  have mapkeys: "map ds_id ?S = map ds_id (S @ [nxt])" "map ds_token_hash ?S = map ds_token_hash (S @ [nxt])"
    using key by (auto simp: session_key_def)
  have "rows_ok (?S, map ?e D)"
    using ok new(1,2) ekey unfolding rows_ok_def fst_conv snd_conv mapkeys
    by (auto simp: token_ok_def rows_ok_def device_key_def comp_def)
  moreover have "chained ?S x'" "covered now (map ?e D) x'" if x': "x' \<in> set ?S" for x'
  proof -
    obtain x where x: "x \<in> set (S @ [nxt])" "x' = rotated r nxt x" using x' by auto
    show "chained ?S x'"
    proof (rule chainedI)
      fix i assume i: "ds_replaced_by x' = Some i"
      show "\<exists>y\<in>set ?S. ds_id y = i \<and> ds_family y = ds_family x' \<and> ds_user y = ds_user x' \<and>
        ds_refresh_expires_at x' \<le> ds_refresh_expires_at y \<and> (ds_revoked_at y \<noteq> None \<longrightarrow> ds_revoked_at x' \<noteq> None)"
      proof (cases "ds_id x = ds_id r")
        case True
        then have "x = r" using same_row [OF dist] x(1) r(1) ne by auto
        moreover have "ds_refresh_expires_at r \<le> now + mobile_refresh_token_ttl_ms"
          using token_okD(2) [OF ok r(1)] by (rule coveredD)
        ultimately show ?thesis using i x(2) new nxt by (intro bexI [of _ nxt]) (auto simp: rotated_def)
      next
        case False
        then have xi: "x' = x" "x \<in> set S" using x i new(7) by (auto simp: rotated_def)
        have "ds_replaced_by x = Some i" using i xi(1) by simp
        with token_okD(1) [OF ok xi(2)] obtain y where "y \<in> set S" "ds_id y = i" "ds_family y = ds_family x"
          "ds_user y = ds_user x" "ds_refresh_expires_at x \<le> ds_refresh_expires_at y" "ds_revoked_at y \<noteq> None \<longrightarrow> ds_revoked_at x \<noteq> None"
          by (rule chainedD)
        then show ?thesis using key(1) [of y] key(2) [of y] xi(1)
          by (intro bexI [of _ "rotated r nxt y"]) (auto simp: session_key_def)
      qed
    qed
    have src: "covered now D x \<or> x = nxt" using x(1) token_okD(2) [OF ok] by auto
    show "covered now (map ?e D) x'"
    proof (cases "x = nxt")
      case True
      from token_okD(2) [OF ok r(1)] obtain d where "device_of D r d" by (rule coveredD)
      then show ?thesis using new x(2) True nxt
        by (intro coveredI [of _ _ "?e d"]) (auto simp: device_of_def extended_def)
    next
      case False
      then have "covered now D x" using src by simp
      then obtain d where d: "device_of D x d" "md_revoked_at d = None \<longrightarrow> ds_refresh_expires_at x \<le> md_refresh_expires_at d"
        "ds_refresh_expires_at x \<le> now + mobile_refresh_token_ttl_ms" by (rule coveredD)
      have "device_of (map ?e D) x' (?e d)"
        using d(1) key(1) [of x] ekey(1) [of d] x(2) by (auto simp: device_of_def session_key_def device_key_def)
      then show ?thesis using d key(1) [of x] x(2)
        by (intro coveredI [of _ _ "?e d"]) (auto simp: session_key_def extended_def)
    qed
  qed
  moreover have "one_live now ?S" unfolding one_live_def
  proof (intro ballI impI)
    have old: "a = nxt \<or> (a \<in> set S \<and> live_session now a \<and> a' = a \<and> ds_id a \<noteq> ds_id r)"
      if "a \<in> set (S @ [nxt])" "a' = rotated r nxt a" "live_session now a'" for a a'
      using that by (auto simp: rotated_def live_session_def split: if_splits)
    fix a' b' assume ab: "a' \<in> set ?S" "b' \<in> set ?S" "live_session now a' \<and> live_session now b' \<and> ds_family a' = ds_family b'"
    obtain a b where a: "a \<in> set (S @ [nxt])" "a' = rotated r nxt a" and b: "b \<in> set (S @ [nxt])" "b' = rotated r nxt b"
      using ab by auto
    have oa: "a = nxt \<or> (a \<in> set S \<and> live_session now a \<and> a' = a \<and> ds_id a \<noteq> ds_id r)" using old [OF a] ab(3) by simp
    have ob: "b = nxt \<or> (b \<in> set S \<and> live_session now b \<and> b' = b \<and> ds_id b \<noteq> ds_id r)" using old [OF b] ab(3) by simp
    have none: "ds_family x \<noteq> ds_family r" if "x \<in> set S" "live_session now x" "ds_id x \<noteq> ds_id r" for x
      using one_liveD [OF ok that(1) r(1) that(2) r(2)] that(3) by auto
    show "ds_id a' = ds_id b'"
      using oa ob a(2) b(2) nxt new(3) ab(3) none [of a] none [of b] one_liveD [OF ok, of a b] by metis
  qed
  ultimately show ?thesis by (simp add: token_ok_def)
qed

lemma token_ok_revoke:
  assumes ok: "token_ok now (S, D)"
  shows "token_ok now
    (map (\<lambda>r. if ds_revoked_at r = None \<and> q (ds_family r) (ds_user r) then mark_session b t r else r) S,
     map (\<lambda>d. if md_revoked_at d = None \<and> q (md_family d) (md_user d) then mark_device b t d else d) D)"
proof -
  let ?f = "\<lambda>r. if ds_revoked_at r = None \<and> q (ds_family r) (ds_user r) then mark_session b t r else r"
  let ?g = "\<lambda>d. if md_revoked_at d = None \<and> q (md_family d) (md_user d) then mark_device b t d else d"
  have key: "session_key (?f x) = session_key x" "ds_replaced_by (?f x) = ds_replaced_by x"
    "ds_revoked_at (?f x) \<noteq> None \<longleftrightarrow> ds_revoked_at x \<noteq> None \<or> q (ds_family x) (ds_user x)" for x
    by (simp_all add: mark_session_def session_key_def)
  have dkey: "device_key (?g d) = device_key d" "md_refresh_expires_at (?g d) = md_refresh_expires_at d"
    "md_revoked_at (?g d) = None \<Longrightarrow> md_revoked_at d = None" for d
    by (simp_all add: mark_device_def device_key_def split: if_splits)
  have live: "live_session now (?f x) \<Longrightarrow> live_session now x" for x
    by (auto simp: live_session_def mark_session_def split: if_splits)
  have "rows_ok (map ?f S, map ?g D)"
    using ok key(1) dkey(1) by (simp add: token_ok_def rows_ok_def session_key_def device_key_def comp_def)
  moreover have "chained (map ?f S) x'" "covered now (map ?g D) x'" if x': "x' \<in> set (map ?f S)" for x'
  proof -
    obtain x where x: "x \<in> set S" "x' = ?f x" using x' by auto
    show "chained (map ?f S) x'"
    proof (rule chainedI)
      fix i assume i: "ds_replaced_by x' = Some i"
      with key(2) [of x] x(2) have "ds_replaced_by x = Some i" by simp
      with token_okD(1) [OF ok x(1)] obtain y where y: "y \<in> set S" "ds_id y = i" "ds_family y = ds_family x"
        "ds_user y = ds_user x" "ds_refresh_expires_at x \<le> ds_refresh_expires_at y" "ds_revoked_at y \<noteq> None \<longrightarrow> ds_revoked_at x \<noteq> None"
        by (rule chainedD)
      have "ds_revoked_at (?f y) \<noteq> None \<longrightarrow> ds_revoked_at (?f x) \<noteq> None"
        unfolding key(3) using y(3,4,6) by auto
      then show "\<exists>y\<in>set (map ?f S). ds_id y = i \<and> ds_family y = ds_family x' \<and> ds_user y = ds_user x' \<and>
        ds_refresh_expires_at x' \<le> ds_refresh_expires_at y \<and> (ds_revoked_at y \<noteq> None \<longrightarrow> ds_revoked_at x' \<noteq> None)"
        unfolding x(2) using y key(1) [of x] key(1) [of y] by (intro bexI [of _ "?f y"]) (simp_all add: session_key_def)
    qed
    from token_okD(2) [OF ok x(1)] obtain d where d: "device_of D x d" "md_revoked_at d = None \<longrightarrow> ds_refresh_expires_at x \<le> md_refresh_expires_at d"
        "ds_refresh_expires_at x \<le> now + mobile_refresh_token_ttl_ms" by (rule coveredD)
    have "ds_refresh_expires_at x' = ds_refresh_expires_at x" using key(1) [of x] x(2) by (simp add: session_key_def)
    moreover have "device_of (map ?g D) x' (?g d)" unfolding x(2)
      using d(1) key(1) [of x] dkey(1) [of d] by (simp add: device_of_def session_key_def device_key_def)
    moreover have "md_revoked_at (?g d) = None \<longrightarrow> ds_refresh_expires_at x \<le> md_refresh_expires_at (?g d)"
    proof
      assume "md_revoked_at (?g d) = None"
      then have "md_revoked_at d = None" by (rule dkey(3))
      then show "ds_refresh_expires_at x \<le> md_refresh_expires_at (?g d)" using d(2) unfolding dkey(2) by blast
    qed
    ultimately show "covered now (map ?g D) x'"
      using d(3) by (intro coveredI [of _ _ "?g d"]) (simp_all only:)
  qed
  moreover have "one_live now (map ?f S)" unfolding one_live_def
  proof (intro ballI impI)
    fix a' b' assume ab: "a' \<in> set (map ?f S)" "b' \<in> set (map ?f S)" "live_session now a' \<and> live_session now b' \<and> ds_family a' = ds_family b'"
    obtain a where a: "a \<in> set S" "a' = ?f a" using ab(1) by auto
    obtain b where b: "b \<in> set S" "b' = ?f b" using ab(2) by auto
    have la: "live_session now a" "live_session now b" using live [of a] live [of b] ab(3) a(2) b(2) by simp_all
    have "ds_family a = ds_family b" using key(1) [of a] key(1) [of b] ab(3) a(2) b(2) by (simp add: session_key_def)
    then have "ds_id a = ds_id b" by (rule one_liveD [OF ok a(1) b(1) la])
    then show "ds_id a' = ds_id b'" using key(1) [of a] key(1) [of b] a(2) b(2) by (simp add: session_key_def)
  qed
  ultimately show ?thesis by (simp add: token_ok_def)
qed

text \<open>Deleting rows keeps the invariant when a row that loses its replacement is dead or goes as well.\<close>

definition removable :: "time \<Rightarrow> device_session list \<Rightarrow> (device_session \<Rightarrow> bool) \<Rightarrow> bool" where
  "removable now S p \<longleftrightarrow> (\<forall>r \<in> set S. \<forall>y \<in> set S. \<not> p r \<and> p y \<and> ds_user y = ds_user r \<and>
     ds_refresh_expires_at r \<le> ds_refresh_expires_at y \<and> (ds_revoked_at y \<noteq> None \<longrightarrow> ds_revoked_at r \<noteq> None) \<longrightarrow>
     ds_revoked_at r \<noteq> None \<or> ds_refresh_expires_at r \<le> now)"

lemma removable_expired: "(\<And>r. p r \<Longrightarrow> expired_session now r) \<Longrightarrow> removable now S p"
  unfolding removable_def expired_session_def
  by (intro ballI impI) (elim conjE, meson order.trans order.strict_implies_order)

lemma removable_user: "removable now S (\<lambda>r. ds_user r = u)"
  unfolding removable_def by auto

lemma without_row:
  assumes ok: "token_ok now (S, D)" and rem: "removable now S p" and x': "x' \<in> set (without S p)"
  obtains x where "x \<in> set S" "\<not> p x" "x' = x\<lparr>ds_replaced_by := set_null (set (map ds_id (filter p S))) (ds_replaced_by x)\<rparr>"
    "live_session now x' \<Longrightarrow> live_session now x"
proof -
  let ?gone = "set (map ds_id (filter p S))"
  obtain x where x: "x \<in> set S" "\<not> p x" "x' = x\<lparr>ds_replaced_by := set_null ?gone (ds_replaced_by x)\<rparr>"
    using x' by (auto simp: without_def)
  have dS: "distinct (map ds_id S)" using ok by (simp add: token_ok_def rows_ok_def)
  have live: "live_session now x" if l: "live_session now x'"
  proof (cases "ds_replaced_by x")
    case None
    then show ?thesis using l x(3) by (simp add: live_session_def)
  next
    case (Some i)
    with token_okD(1) [OF ok x(1)] obtain y where y: "y \<in> set S" "ds_id y = i" "ds_family y = ds_family x"
        "ds_user y = ds_user x" "ds_refresh_expires_at x \<le> ds_refresh_expires_at y" "ds_revoked_at y \<noteq> None \<longrightarrow> ds_revoked_at x \<noteq> None"
        by (rule chainedD)
    have "i \<in> ?gone" using l Some x(3) by (simp add: live_session_def set_null_def split: if_splits)
    then obtain z where z: "z \<in> set S" "p z" "ds_id z = i" by auto
    then have "p y" using same_row [OF dS z(1) y(1)] y(2) by simp
    then have "ds_revoked_at x \<noteq> None \<or> ds_refresh_expires_at x \<le> now"
      using rem x(1,2) y unfolding removable_def by blast
    then show ?thesis using l x(3) by (auto simp: live_session_def)
  qed
  from that [OF x live] show ?thesis by blast
qed

lemma token_ok_without:
  assumes ok: "token_ok now (S, D)" and rem: "removable now S p"
    and dist: "distinct (map md_id D')" "distinct (map md_family D')"
    and dev: "\<And>r d. r \<in> set S \<Longrightarrow> \<not> p r \<Longrightarrow> device_of D r d \<Longrightarrow> d \<in> set D'"
  shows "token_ok now (without S p, D')"
proof -
  let ?gone = "set (map ds_id (filter p S))"
  let ?f = "\<lambda>r. r\<lparr>ds_replaced_by := set_null ?gone (ds_replaced_by r)\<rparr>"
  note row = without_row [OF ok rem]
  have stays: "?f x \<in> set (without S p)" if "x \<in> set S" "\<not> p x" for x
    using that by (auto simp: without_def)
  have "rows_ok (without S p, D')"
    using ok dist by (simp add: token_ok_def rows_ok_def without_def comp_def distinct_map_filter)
  moreover have "chained (without S p) x'" "covered now D' x'" if x': "x' \<in> set (without S p)" for x'
  proof -
    from row [OF x'] obtain x where x: "x \<in> set S" "\<not> p x" "x' = ?f x" by metis
    show "chained (without S p) x'"
    proof (rule chainedI)
      fix i assume "ds_replaced_by x' = Some i"
      then have i: "ds_replaced_by x = Some i" "i \<notin> ?gone"
        using x(3) by (auto simp: set_null_def split: option.splits if_splits)
      from token_okD(1) [OF ok x(1)] i(1) obtain y where y: "y \<in> set S" "ds_id y = i" "ds_family y = ds_family x"
        "ds_user y = ds_user x" "ds_refresh_expires_at x \<le> ds_refresh_expires_at y" "ds_revoked_at y \<noteq> None \<longrightarrow> ds_revoked_at x \<noteq> None"
        by (rule chainedD)
      then have "\<not> p y" using i(2) by auto
      then show "\<exists>y\<in>set (without S p). ds_id y = i \<and> ds_family y = ds_family x' \<and> ds_user y = ds_user x' \<and>
        ds_refresh_expires_at x' \<le> ds_refresh_expires_at y \<and> (ds_revoked_at y \<noteq> None \<longrightarrow> ds_revoked_at x' \<noteq> None)"
        using y x(3) by (intro bexI [OF _ stays [OF y(1)]]) simp_all
    qed
    from token_okD(2) [OF ok x(1)] obtain d where d: "device_of D x d" "md_revoked_at d = None \<longrightarrow> ds_refresh_expires_at x \<le> md_refresh_expires_at d"
        "ds_refresh_expires_at x \<le> now + mobile_refresh_token_ttl_ms" by (rule coveredD)
    show "covered now D' x'"
      using d dev [OF x(1,2) d(1)] x(3) by (intro coveredI [of _ _ d]) (simp_all add: device_of_def)
  qed
  moreover have "one_live now (without S p)" unfolding one_live_def
  proof (intro ballI impI)
    fix a' b' assume ab: "a' \<in> set (without S p)" "b' \<in> set (without S p)" "live_session now a' \<and> live_session now b' \<and> ds_family a' = ds_family b'"
    from row [OF ab(1)] obtain a where a: "a \<in> set S" "a' = ?f a" "live_session now a" using ab(3) by metis
    from row [OF ab(2)] obtain b where b: "b \<in> set S" "b' = ?f b" "live_session now b" using ab(3) by metis
    have "ds_id a = ds_id b"
      using one_liveD [OF ok a(1) b(1) a(3) b(3)] ab(3) a(2) b(2) by simp
    then show "ds_id a' = ds_id b'" using a(2) b(2) by simp
  qed
  ultimately show ?thesis by (simp add: token_ok_def)
qed

lemma token_step_ok:
  assumes "token_step F now x y" and "token_ok now x"
  shows "token_ok now y"
  using assms
proof (cases rule: token_step.cases)
  case (touch S' S D' D)
  then show ?thesis using assms(2) by (simp add: token_ok_touch)
next
  case (sign_in r S d D)
  then show ?thesis using token_ok_sign_in [of now S D r d] assms(2) by simp
next
  case (rotate r S nxt D)
  then show ?thesis using token_ok_rotate [of now S D r nxt] assms(2) by simp
next
  case (revoke S D q b)
  then show ?thesis using token_ok_revoke [of now S D q b now] assms(2) by simp
next
  case (delete p S D)
  have ok: "token_ok now (S, D)" using assms(2) delete(1) by simp
  have "token_ok now (without S p, D)"
    using ok by (intro token_ok_without [OF ok removable_expired]) (simp_all add: delete(3) token_ok_def rows_ok_def device_of_def)
  then show ?thesis using delete(2) by simp
next
  case (delete_user S D u)
  have ok: "token_ok now (S, D)" using assms(2) delete_user(1) by simp
  then have "token_ok now (without S (\<lambda>r. ds_user r = u), filter (\<lambda>d. md_user d \<noteq> u) D)"
    by (intro token_ok_without [OF ok removable_user])
      (simp_all add: token_ok_def rows_ok_def device_of_def distinct_map_filter)
  then show ?thesis using delete_user(2) by simp
qed

lemma token_steps_ok: "token_steps F now x y \<Longrightarrow> token_ok now x \<Longrightarrow> token_ok now y"
  by (induction rule: rtranclp_induct) (auto intro: token_step_ok)


subsection \<open>Where a row comes from\<close>

definition origin :: "time \<Rightarrow> device_session list \<Rightarrow> device_session \<Rightarrow> device_session \<Rightarrow> bool" where
  "origin now S r' r \<longleftrightarrow> r \<in> set S \<and> session_key r' = session_key r \<and> (live_session now r' \<longrightarrow> live_session now r) \<and>
     (ds_revoked_at r \<noteq> None \<longrightarrow> ds_revoked_at r' \<noteq> None)"

definition drawn_row :: "string set \<Rightarrow> time \<Rightarrow> device_session list \<Rightarrow> device_session \<Rightarrow> bool" where
  "drawn_row F now S r' \<longleftrightarrow> ds_id r' \<notin> F \<and> ds_token_hash r' \<notin> F \<and>
     (ds_family r' \<notin> F \<or> (\<exists>r \<in> set S. live_session now r \<and> ds_family r = ds_family r' \<and> ds_user r = ds_user r'))"

lemma token_step_origin:
  assumes "token_step F now x y" and ok: "token_ok now x" and r': "r' \<in> set (fst y)"
  shows "(\<exists>r. origin now (fst x) r' r) \<or> drawn_row F now (fst x) r'"
  using assms(1)
proof (cases rule: token_step.cases)
  case (touch S' S D' D)
  then obtain r where r: "r \<in> set S" "session_core r = session_core r'" using map_eq_row [of session_core S' S r'] r' by auto
  then have "origin now S r' r" using core_live [OF r(2)] by (simp add: origin_def core_simps)
  then show ?thesis using touch(1) by auto
next
  case (sign_in r S d D)
  then show ?thesis using r' by (auto simp: origin_def drawn_row_def)
next
  case (rotate r S nxt D)
  then obtain a where a: "a \<in> set S \<or> a = nxt" "r' = rotated r nxt a" using r' by auto
  show ?thesis
  proof (cases "a \<in> set S")
    case True
    then show ?thesis using a(2) rotate(1)
      by (intro disjI1 exI [of _ a]) (auto simp: origin_def rotated_def session_key_def live_session_def)
  next
    case False
    then have "ds_id r' = ds_id nxt" "ds_token_hash r' = ds_token_hash nxt" "ds_family r' = ds_family r" "ds_user r' = ds_user r"
      using a rotate by (auto simp: rotated_def)
    then show ?thesis using rotate by (intro disjI2) (auto simp: drawn_row_def)
  qed
next
  case (revoke S D q b)
  then obtain a where a: "a \<in> set S" "r' = (if ds_revoked_at a = None \<and> q (ds_family a) (ds_user a) then mark_session b now a else a)"
    using r' by auto
  then show ?thesis using revoke(1)
    by (intro disjI1 exI [of _ a]) (auto simp: origin_def mark_session_def session_key_def live_session_def)
next
  case (delete p S D)
  have "removable now S p" using delete(3) by (rule removable_expired)
  moreover have "r' \<in> set (without S p)" using r' delete(2) by simp
  moreover have "token_ok now (S, D)" using ok delete(1) by simp
  ultimately obtain a where "a \<in> set S" "r' = a\<lparr>ds_replaced_by := set_null (set (map ds_id (filter p S))) (ds_replaced_by a)\<rparr>"
    "live_session now r' \<Longrightarrow> live_session now a" by (metis without_row)
  then show ?thesis using delete(1) by (intro disjI1 exI [of _ a]) (auto simp: origin_def session_key_def)
next
  case (delete_user S D u)
  have "token_ok now (S, D)" using ok delete_user(1) by simp
  moreover have "r' \<in> set (without S (\<lambda>r. ds_user r = u))" using r' delete_user(2) by simp
  ultimately obtain a where "a \<in> set S" "r' = a\<lparr>ds_replaced_by := set_null (set (map ds_id (filter (\<lambda>r. ds_user r = u) S))) (ds_replaced_by a)\<rparr>"
    "live_session now r' \<Longrightarrow> live_session now a" by (metis without_row [OF _ removable_user])
  then show ?thesis using delete_user(1) by (intro disjI1 exI [of _ a]) (auto simp: origin_def session_key_def)
qed

text \<open>A row whose id or token hash was in use is an old row.\<close>

lemma token_steps_old_row:
  assumes "token_steps F now x y" and "token_ok now x" and "r' \<in> set (fst y)" and "ds_id r' \<in> F \<or> ds_token_hash r' \<in> F"
  shows "\<exists>r. origin now (fst x) r' r"
  using assms(1) assms(3,4)
proof (induction arbitrary: r' rule: rtranclp_induct)
  case base
  then show ?case by (auto simp: origin_def)
next
  case (step y z)
  have "token_ok now y" using step(1) assms(2) by (rule token_steps_ok)
  with step.hyps(2) obtain r1 where r1: "origin now (fst y) r' r1"
    using token_step_origin step.prems unfolding drawn_row_def by blast
  then have "ds_id r1 \<in> F \<or> ds_token_hash r1 \<in> F" "r1 \<in> set (fst y)"
    using step.prems by (auto simp: origin_def session_key_def)
  from step.IH [OF this(2,1)] show ?case using r1 by (auto simp: origin_def)
qed

definition spent :: "time \<Rightarrow> string \<Rightarrow> token_tables \<Rightarrow> bool" where
  "spent now h x \<longleftrightarrow> (\<forall>r \<in> set (fst x). ds_token_hash r = h \<longrightarrow> \<not> live_session now r)"

lemma spent_steps:
  assumes "token_steps F now x y" "token_ok now x" "h \<in> F" "spent now h x"
  shows "spent now h y"
  unfolding spent_def
proof (intro ballI impI notI)
  fix r' assume r': "r' \<in> set (fst y)" "ds_token_hash r' = h" "live_session now r'"
  then obtain r where "origin now (fst x) r' r" using token_steps_old_row [OF assms(1,2)] assms(3) by blast
  then show False using assms(4) r' by (auto simp: origin_def spent_def session_key_def)
qed

lemma spent_later: "spent now h x \<Longrightarrow> now \<le> now' \<Longrightarrow> spent now' h x"
  unfolding spent_def live_session_def by fastforce

definition family_over :: "string \<Rightarrow> token_tables \<Rightarrow> bool" where
  "family_over f x \<longleftrightarrow> (\<forall>r \<in> set (fst x). ds_family r = f \<longrightarrow> ds_revoked_at r \<noteq> None)"

lemma family_over_steps:
  assumes "token_steps F now x y" "token_ok now x" "f \<in> F" "family_over f x"
  shows "family_over f y"
  using assms(1)
proof (induction rule: rtranclp_induct)
  case (step y z)
  have ok: "token_ok now y" using step(1) assms(2) by (rule token_steps_ok)
  show ?case unfolding family_over_def
  proof (intro ballI impI)
    fix r' assume r': "r' \<in> set (fst z)" "ds_family r' = f"
    from token_step_origin [OF step.hyps(2) ok r'(1)] show "ds_revoked_at r' \<noteq> None"
    proof (elim disjE exE)
      fix r assume r: "origin now (fst y) r' r"
      then have "ds_family r = f" using r'(2) by (simp add: origin_def session_key_def)
      then show ?thesis using r step.IH unfolding origin_def family_over_def by blast
    next
      assume "drawn_row F now (fst y) r'"
      then obtain r where r: "r \<in> set (fst y)" "live_session now r" "ds_family r = f" using r'(2) assms(3) by (auto simp: drawn_row_def)
      then have "ds_revoked_at r \<noteq> None" using step.IH by (simp add: family_over_def)
      then show ?thesis using r(2) by (simp add: live_session_def)
    qed
  qed
qed (rule assms(4))

definition family_owner :: "string \<Rightarrow> string \<Rightarrow> token_tables \<Rightarrow> bool" where
  "family_owner f u x \<longleftrightarrow> (\<forall>r \<in> set (fst x). ds_family r = f \<longrightarrow> ds_user r = u)"

lemma family_owner_row:
  assumes "token_ok now x" "r \<in> set (fst x)"
  shows "family_owner (ds_family r) (ds_user r) x"
  unfolding family_owner_def
proof (intro ballI impI)
  fix r' assume r': "r' \<in> set (fst x)" "ds_family r' = ds_family r"
  obtain S D where x: "x = (S, D)" by fastforce
  obtain d where d: "device_of D r d" using token_okD(2) [of now S D r] assms x by (auto elim: coveredD)
  obtain d' where d': "device_of D r' d'" using token_okD(2) [of now S D r'] assms(1) r'(1) x by (auto elim: coveredD)
  have dist: "distinct (map md_family D)" using assms(1) x by (simp add: token_ok_def rows_ok_def)
  have "d = d'" using d d' r'(2) by (intro same_row [OF dist]) (simp_all add: device_of_def)
  then show "ds_user r' = ds_user r" using d d' by (simp add: device_of_def)
qed

lemma family_owner_steps:
  assumes "token_steps F now x y" "token_ok now x" "f \<in> F" "family_owner f u x"
  shows "family_owner f u y"
  using assms(1)
proof (induction rule: rtranclp_induct)
  case (step y z)
  have ok: "token_ok now y" using step(1) assms(2) by (rule token_steps_ok)
  show ?case unfolding family_owner_def
  proof (intro ballI impI)
    fix r' assume r': "r' \<in> set (fst z)" "ds_family r' = f"
    from token_step_origin [OF step.hyps(2) ok r'(1)]
    obtain r where "r \<in> set (fst y)" "ds_family r = f" "ds_user r = ds_user r'"
      using r'(2) assms(3) by (auto simp: origin_def session_key_def drawn_row_def)
    then show "ds_user r' = u" using step.IH by (auto simp: family_owner_def)
  qed
qed (rule assms(4))

subsection \<open>The number of devices\<close>

definition within_cap :: "time \<Rightarrow> token_tables \<Rightarrow> bool" where
  "within_cap now x \<longleftrightarrow> (\<forall>u. length (filter (active_device now u) (snd x)) \<le> max_mobile_device_sessions_per_user)"

lemma filter_map_le:
  assumes "\<And>x. x \<in> set xs \<Longrightarrow> P (f x) \<Longrightarrow> Q x"
  shows "length (filter P (map f xs)) \<le> length (filter Q xs)"
  using assms by (induction xs) (auto simp: le_SucI)

lemma active_device_core: "device_core a = device_core b \<Longrightarrow> active_device now u a = active_device now u b"
  by (auto simp: active_device_def core_simps)

lemma within_cap_step:
  assumes "token_step F now x y" "token_ok now x" "within_cap now x"
  shows "within_cap now y"
  unfolding within_cap_def
proof
  fix u
  have cap: "length (filter (active_device now u) (snd x)) \<le> max_mobile_device_sessions_per_user"
    using assms(3) by (simp add: within_cap_def)
  show "length (filter (active_device now u) (snd y)) \<le> max_mobile_device_sessions_per_user"
    using assms(1)
  proof (cases rule: token_step.cases)
    case (touch S' S D' D)
    have "map (active_device now u) D' = map (active_device now u) D" by (rule map_key [OF touch(4)]) (rule active_device_core)
    then have "length (filter id (map (active_device now u) D')) = length (filter id (map (active_device now u) D))" by simp
    then show ?thesis using cap touch(1,2) by (simp add: filter_map comp_def)
  next
    case (sign_in r S d D)
    then show ?thesis using cap by (cases "u = md_user d") (auto simp: active_device_def)
  next
    case (rotate r S nxt D)
    have ok: "token_ok now (S, D)" using assms(2) rotate(1) by simp
    have "active_device now u d" if d: "d \<in> set D" and a: "active_device now u (extended r (now + mobile_refresh_token_ttl_ms) d)" for d
    proof (cases "Some (md_id d) = ds_device r \<and> md_revoked_at d = None \<and> md_user d = ds_user r")
      case True
      from token_okD(2) [OF ok rotate(3)] obtain d' where d': "device_of D r d'"
        "md_revoked_at d' = None \<longrightarrow> ds_refresh_expires_at r \<le> md_refresh_expires_at d'" by (rule coveredD)
      have "d' = d" using ok True d d'(1) by (intro same_row [of md_id D]) (auto simp: token_ok_def rows_ok_def device_of_def)
      then show ?thesis using d'(2) True rotate(4) a by (auto simp: active_device_def live_session_def extended_def)
    next
      case False
      then have "extended r (now + mobile_refresh_token_ttl_ms) d = d" unfolding extended_def by (rule if_not_P)
      then show ?thesis using a by simp
    qed
    then have "length (filter (active_device now u) (map (extended r (now + mobile_refresh_token_ttl_ms)) D)) \<le> length (filter (active_device now u) D)"
      by (rule filter_map_le)
    then show ?thesis using cap rotate(1,2) by simp
  next
    case (revoke S D q b)
    have "length (filter (active_device now u)
        (map (\<lambda>d. if md_revoked_at d = None \<and> q (md_family d) (md_user d) then mark_device b now d else d) D)) \<le>
      length (filter (active_device now u) D)"
      by (rule filter_map_le) (auto simp: active_device_def mark_device_def split: if_splits)
    then show ?thesis using cap revoke(1,2) by simp
  next
    case (delete p S D)
    then show ?thesis using cap by simp
  next
    case (delete_user S D v)
    have "length (filter (active_device now u) (filter (\<lambda>d. md_user d \<noteq> v) D)) \<le> length (filter (active_device now u) D)"
      by (induction D) auto
    then show ?thesis using cap delete_user by simp
  qed
qed

lemma within_cap_steps:
  assumes "token_steps F now x y" "token_ok now x" "within_cap now x"
  shows "within_cap now y"
  using assms(1)
proof (induction rule: rtranclp_induct)
  case (step y z)
  have "token_ok now y" using step(1) assms(2) by (rule token_steps_ok)
  with step show ?case by (blast intro: within_cap_step)
qed (rule assms(3))

lemma within_cap_later:
  assumes "within_cap now x" "now \<le> now'"
  shows "within_cap now' x"
  unfolding within_cap_def
proof
  fix u
  have "length (filter (active_device now' u) (map (\<lambda>d. d) (snd x))) \<le> length (filter (active_device now u) (snd x))"
    by (rule filter_map_le) (use assms(2) in \<open>simp add: active_device_def\<close>)
  then show "length (filter (active_device now' u) (snd x)) \<le> max_mobile_device_sessions_per_user"
    using assms(1) unfolding within_cap_def by (metis le_trans list.map_ident)
qed

end
