(* ===== verification/Mobile_Steps.thy ===== *)
theory Mobile_Steps
  imports Token_Families
begin

text \<open>
  The handlers of the mobile sign-in with everything that may run between their database calls
  (\<open>auth_at\<close>, \<open>auth_run\<close>), and the proof that they take only the steps of \<open>Token_Families\<close>. \<open>F\<close> is a
  set of random values in use: no step draws one of them again, and while a handler runs nobody
  draws a value that was in the tables when it began (\<open>drawn\<close>).
\<close>

definition drawn :: "auth_db \<Rightarrow> string set" where
  "drawn s = ds_id ` set (db_sessions s) \<union> ds_token_hash ` set (db_sessions s) \<union> ds_family ` set (db_sessions s) \<union>
     ac_id ` set (db_codes s) \<union> ac_code_hash ` set (db_codes s)"

inductive auth_at :: "crypto \<Rightarrow> time \<Rightarrow> string set \<Rightarrow> auth_db \<Rightarrow> auth_db \<Rightarrow> bool" for cr now where
  wait: "auth_at cr now F s s"
| further: "auth_at cr now F s t \<Longrightarrow> auth_at cr now F t u \<Longrightarrow> auth_at cr now F s u"
| outside: "auth_at cr now F s (s\<lparr>db_users := us, db_installations := ins, db_events := evs, db_password_resets := rs,
    db_email_verifications := vs, db_deletion_confirmations := dels, db_receipts := recs\<rparr>)"
| request: "(\<And>n t. auth_at cr now (F \<union> drawn s) t (env n t)) \<Longrightarrow>
    auth_at cr now F s (snd (create_mobile_authorization_request cr env bytes i v b q u now s))"
| approve: "(\<And>n t. auth_at cr now (F \<union> drawn s) t (env n t)) \<Longrightarrow>
    hash_credential cr (random_token bytes) \<notin> F \<union> drawn s \<Longrightarrow> i \<notin> F \<union> drawn s \<Longrightarrow>
    auth_at cr now F s (snd (approve_mobile_authorization_request cr env bytes i tok b k u now s))"
| cancel: "(\<And>n t. auth_at cr now (F \<union> drawn s) t (env n t)) \<Longrightarrow>
    auth_at cr now F s (snd (cancel_mobile_authorization_request cr env tok b k u now s))"
| issue: "(\<And>n t. auth_at cr now (F \<union> drawn s) t (env n t)) \<Longrightarrow>
    hash_credential cr (random_token bytes) \<notin> F \<union> drawn s \<Longrightarrow> i \<notin> F \<union> drawn s \<Longrightarrow>
    auth_at cr now F s (snd (issue_device_authorization_code cr penv env bytes i v q u now s))"
| exchange: "(\<And>n t. auth_at cr now (F \<union> drawn s) t (env n t)) \<Longrightarrow>
    hash_credential cr (random_token (dr_bytes dr)) \<notin> F \<union> drawn s \<Longrightarrow> dr_session dr \<notin> F \<union> drawn s \<Longrightarrow>
    dr_family dr \<notin> F \<union> drawn s \<Longrightarrow> dr_device dr \<noteq> [] \<Longrightarrow>
    auth_at cr now F s (snd (exchange_device_authorization_code cr aenv env dr xq now s))"
| refresh: "(\<And>n t. auth_at cr now (F \<union> drawn s) t (env n t)) \<Longrightarrow>
    hash_credential cr (random_token (rd_bytes rdr)) \<notin> F \<union> drawn s \<Longrightarrow> rd_session rdr \<notin> F \<union> drawn s \<Longrightarrow>
    auth_at cr now F s (snd (refresh_mobile_device_session cr aenv env rdr tok now s))"
| authenticate: "(\<And>n t. auth_at cr now (F \<union> drawn s) t (env n t)) \<Longrightarrow>
    auth_at cr now F s (snd (authenticate_mobile_access_token cr rest aenv env tok now s))"
| revoke: "(\<And>n t. auth_at cr now (F \<union> drawn s) t (env n t)) \<Longrightarrow>
    auth_at cr now F s (snd (revoke_mobile_device_session env now i u s))"
| revoke_all: "auth_at cr now F s (snd (revoke_all_mobile_device_sessions now u s))"
| cleanup: "(\<And>(n::nat) t. auth_at cr now (F \<union> drawn s) t (env n t)) \<Longrightarrow>
    auth_at cr now F s (snd (cleanup_expired_auth_tokens (env 0) batch now s))"
| delete_account: "auth_at cr now F s (delete_account u s)"

inductive auth_run :: "crypto \<Rightarrow> string set \<Rightarrow> time \<Rightarrow> auth_db \<Rightarrow> time \<Rightarrow> auth_db \<Rightarrow> bool" for cr F t0 s0 where
  start: "auth_run cr F t0 s0 t0 s0"
| step: "auth_run cr F t0 s0 t s \<Longrightarrow> t \<le> t' \<Longrightarrow> auth_at cr t' F s s' \<Longrightarrow> auth_run cr F t0 s0 t' s'"

text \<open>A database in which nobody has signed in yet.\<close>

definition auth_start :: "auth_db \<Rightarrow> bool" where
  "auth_start s \<longleftrightarrow> db_sessions s = [] \<and> db_devices s = [] \<and> db_codes s = []"

subsection \<open>Frames\<close>

lemma transact_cases:
  assumes "transact f s = (r, s')"
  obtains (fail) e where "r = Inl e" "s' = s" | (commit) a where "r = Inr a" "f s = (Inr a, s')"
  using assms by (auto simp: transact_def split: prod.splits sum.splits)

lemma bind_eq_Some: "Option.bind x f = Some z \<longleftrightarrow> (\<exists>y. x = Some y \<and> f y = Some z)"
  by (cases x) auto

lemma create_tokens:
  "create_event e m u s = Some s' \<Longrightarrow> tokens s' = tokens s"
  "create_request r s = Some s' \<Longrightarrow> tokens s' = tokens s"
  "create_code c s = Some s' \<Longrightarrow> tokens s' = tokens s"
  by (auto simp: create_event_def create_request_def create_code_def tokens_def split: if_splits)

lemma lock_tokens: "lock_active_user now u v s = (s', n) \<Longrightarrow> tokens s' = tokens s"
  by (auto simp: lock_active_user_def tokens_def split: prod.splits)

lemma request_tokens:
  "tokens (snd (create_mobile_authorization_request cr env bytes i v b q u now s)) \<in> {tokens s, tokens (env 0 s)}"
  by (auto simp: create_mobile_authorization_request_def transact_def Let_def bind_eq_Some create_tokens
      split: sum.splits option.splits prod.splits)

lemma issue_tokens:
  "tokens (snd (issue_device_authorization_code cr penv env bytes i v q u now s)) \<in> {tokens s, tokens (env 0 s)}"
  by (auto simp: issue_device_authorization_code_def transact_def Let_def bind_eq_Some create_tokens
      split: sum.splits option.splits prod.splits)

lemma approve_transaction_tokens:
  "approve_transaction cr tok c i p u now s = (Inr a, s') \<Longrightarrow> tokens s' = tokens s"
  by (auto simp: approve_transaction_def Let_def bind_eq_Some create_tokens split: prod.splits if_splits option.splits
      dest!: lock_tokens create_tokens) (simp add: tokens_def)

lemma cancel_transaction_tokens:
  "cancel_transaction cr tok p u now s = (Inr a, s') \<Longrightarrow> tokens s' = tokens s"
  by (auto simp: cancel_transaction_def Let_def split: prod.splits if_splits option.splits
      dest!: create_tokens) (simp add: tokens_def)

lemma approve_tokens:
  "tokens (snd (approve_mobile_authorization_request cr env bytes i tok b k u now s)) \<in> {tokens s, tokens (env 0 s)}"
  by (auto simp: approve_mobile_authorization_request_def split: sum.splits prod.splits
      elim!: transact_cases dest: approve_transaction_tokens)

lemma cancel_tokens:
  "tokens (snd (cancel_mobile_authorization_request cr env tok b k u now s)) \<in> {tokens s, tokens (env 0 s)}"
  by (auto simp: cancel_mobile_authorization_request_def split: sum.splits prod.splits
      elim!: transact_cases dest: cancel_transaction_tokens)


subsection \<open>The handlers take abstract steps\<close>

lemma tokens_pair: "tokens s = (db_sessions s, db_devices s)"
  by (simp add: tokens_def)

lemma row_key_free: "row_at key k t = None \<Longrightarrow> k \<notin> key ` set t"
  by (simp add: row_at_None_iff)

lemma create_users:
  "create_event e m u s = Some s' \<Longrightarrow> db_users s' = db_users s"
  "create_device d s = Some s' \<Longrightarrow> db_users s' = db_users s"
  "create_session x s = Some s' \<Longrightarrow> db_users s' = db_users s"
  by (auto simp: create_event_def create_device_def create_session_def split: if_splits)

lemma exchange_transaction_writes:
  assumes "exchange_transaction cr dr now c s = (Inr r, s')"
  obtains s1 where "lock_active_user now (ac_user c) (ac_auth_version c) s = (s1, 1)"
    "active_devices now (ac_user c) s1 < max_mobile_device_sessions_per_user"
    "r = new_session cr dr now c" "tokens s' = (db_sessions s1 @ [r], db_devices s1 @ [new_device dr now c])" "db_users s' = db_users s1"
    "row_at ds_id (ds_id r) (db_sessions s1) = None" "row_at ds_token_hash (ds_token_hash r) (db_sessions s1) = None"
    "row_at md_id (dr_device dr) (db_devices s1) = None" "row_at md_family (dr_family dr) (db_devices s1) = None"
proof -
  obtain s1 where s1: "lock_active_user now (ac_user c) (ac_auth_version c) s = (s1, 1)"
    "active_devices now (ac_user c) s1 < max_mobile_device_sessions_per_user"
    using assms by (auto simp: exchange_transaction_def split: prod.splits if_splits)
  obtain codes where "(case Option.bind (Option.bind (create_device (new_device dr now c) (s1\<lparr>db_codes := codes\<rparr>)) (create_session (new_session cr dr now c)))
      (create_event ''MOBILE_DEVICE_SESSION_CREATED'' [(''platform'', in_platform (ac_info c))] (ac_user c)) of
       None \<Rightarrow> (Inl Database_Failure, s1\<lparr>db_codes := codes\<rparr>) | Some s3 \<Rightarrow> (Inr (new_session cr dr now c), s3)) = (Inr r, s')"
    using assms s1 by (auto simp: exchange_transaction_def Let_def split: prod.splits if_splits)
  then obtain s3 where r: "r = new_session cr dr now c"
    and s3: "Option.bind (create_device (new_device dr now c) (s1\<lparr>db_codes := codes\<rparr>)) (create_session r) = Some s3"
    and e: "create_event ''MOBILE_DEVICE_SESSION_CREATED'' [(''platform'', in_platform (ac_info c))] (ac_user c) s3 = Some s'"
    by (auto simp: bind_eq_Some split: option.splits)
  have "tokens s' = tokens s3" "db_users s' = db_users s3" using e by (auto dest: create_tokens(1) create_users(1))
  moreover have "tokens s3 = (db_sessions s1 @ [r], db_devices s1 @ [new_device dr now c])" "db_users s3 = db_users s1"
    "row_at ds_id (ds_id r) (db_sessions s1) = None" "row_at ds_token_hash (ds_token_hash r) (db_sessions s1) = None"
    "row_at md_id (dr_device dr) (db_devices s1) = None" "row_at md_family (dr_family dr) (db_devices s1) = None"
    using s3 by (auto simp: bind_eq_Some create_device_def create_session_def tokens_def new_device_def split: if_splits)
  ultimately show thesis using that s1 r by simp
qed

lemma exchange_transaction_step:
  assumes "exchange_transaction cr dr now c s = (Inr r, s')"
    and "hash_credential cr (random_token (dr_bytes dr)) \<notin> F" "dr_session dr \<notin> F" "dr_family dr \<notin> F" "dr_device dr \<noteq> []"
  shows "token_step F now (tokens s) (tokens s')"
  using assms(1)
proof (rule exchange_transaction_writes)
  fix s1
  assume w: "lock_active_user now (ac_user c) (ac_auth_version c) s = (s1, 1)"
    "active_devices now (ac_user c) s1 < max_mobile_device_sessions_per_user"
    "r = new_session cr dr now c" "tokens s' = (db_sessions s1 @ [r], db_devices s1 @ [new_device dr now c])"
    "row_at ds_id (ds_id r) (db_sessions s1) = None" "row_at ds_token_hash (ds_token_hash r) (db_sessions s1) = None"
    "row_at md_id (dr_device dr) (db_devices s1) = None" "row_at md_family (dr_family dr) (db_devices s1) = None"
  have "token_step F now (db_sessions s1, db_devices s1) (db_sessions s1 @ [r], db_devices s1 @ [new_device dr now c])"
    using assms(2-5) w(2,5-8)
    by (intro token_step.sign_in) (simp_all add: w(3) new_session_def new_device_def row_at_None_iff active_devices_def)
  then show ?thesis using w(4) lock_tokens [OF w(1)] by (simp add: tokens_pair)
qed

lemma exchange_tokens:
  assumes "hash_credential cr (random_token (dr_bytes dr)) \<notin> F" "dr_session dr \<notin> F" "dr_family dr \<notin> F" "dr_device dr \<noteq> []"
  shows "tokens (snd (exchange_device_authorization_code cr aenv env dr xq now s)) = tokens s \<or>
    token_steps F now (tokens (env 0 s)) (tokens (snd (exchange_device_authorization_code cr aenv env dr xq now s)))"
  by (auto simp: exchange_device_authorization_code_def split: sum.splits option.splits prod.splits
      elim!: transact_cases dest!: exchange_transaction_step [OF _ assms])

lemma revoke_family_tokens: "token_steps F now (tokens s) (tokens (snd (revoke_mobile_device_family e b now f u s)))"
proof -
  obtain a s' where r: "revoke_mobile_device_family e b now f u s = (a, s')" by fastforce
  have "token_steps F now (tokens s) (tokens s')"
    using r [unfolded revoke_mobile_device_family_def]
  proof (cases rule: transact_cases)
    case (commit x)
    then have "tokens s' = (map (\<lambda>r. if ds_revoked_at r = None \<and> ds_family r = f \<and> ds_user r = u then mark_session b now r else r) (db_sessions s),
       map (\<lambda>d. if md_revoked_at d = None \<and> md_family d = f \<and> md_user d = u then mark_device b now d else d) (db_devices s))"
      by (auto simp: Let_def disable_installations_def update_many_def split: option.splits dest!: create_tokens(1)) (simp add: tokens_def)
    then show ?thesis
      using token_step.revoke [of F now "db_sessions s" "db_devices s" "\<lambda>x y. x = f \<and> y = u" b] by (simp add: tokens_pair r_into_rtranclp)
  qed simp
  then show ?thesis using r by simp
qed

lemma mark_session_False: "mark_session False now r = r\<lparr>ds_revoked_at := Some now\<rparr>"
  by (cases r) (simp add: mark_session_def)

lemma mark_device_False: "mark_device False now d = d\<lparr>md_revoked_at := Some now\<rparr>"
  by (cases d) (simp add: mark_device_def)

lemma revoke_all_tokens: "token_steps F now (tokens s) (tokens (snd (revoke_all_mobile_device_sessions now u s)))"
proof -
  obtain a s' where r: "revoke_all_mobile_device_sessions now u s = (a, s')" by fastforce
  have "token_steps F now (tokens s) (tokens s')"
    using r [unfolded revoke_all_mobile_device_sessions_def]
  proof (cases rule: transact_cases)
    case (commit x)
    then have "tokens s' = (map (\<lambda>r. if ds_revoked_at r = None \<and> ds_user r = u then r\<lparr>ds_revoked_at := Some now\<rparr> else r) (db_sessions s),
       map (\<lambda>d. if md_revoked_at d = None \<and> md_user d = u then d\<lparr>md_revoked_at := Some now\<rparr> else d) (db_devices s))"
      by (auto simp: Let_def disable_installations_def update_many_def tokens_def split: option.splits if_splits
          dest!: create_tokens(1))
    then show ?thesis
      using token_step.revoke [of F now "db_sessions s" "db_devices s" "\<lambda>x y. y = u" False]
      unfolding mark_session_False mark_device_False by (simp add: tokens_pair r_into_rtranclp)
  qed simp
  then show ?thesis using r by simp
qed

lemma revoke_session_tokens:
  obtains (none) "tokens (snd (revoke_mobile_device_session env now i u s)) \<in> {tokens s, tokens (env 0 s)}"
    | (one) t where "t \<in> {s, env 0 s}" "token_steps F now (tokens (env 1 t)) (tokens (snd (revoke_mobile_device_session env now i u s)))"
proof -
  obtain f s1 where f: "(case List.find (\<lambda>d. md_id d = i \<and> md_user d = u) (db_devices s) of
           Some d \<Rightarrow> (Some (md_family d), s)
         | None \<Rightarrow> (map_option ds_family (List.find (\<lambda>r. ds_id r = i \<and> ds_user r = u) (db_sessions (env 0 s))), env 0 s)) = (f, s1)"
    by fastforce
  then have s1: "s1 \<in> {s, env 0 s}" by (auto split: option.splits)
  show thesis
  proof (cases "truthy f")
    case True
    have "snd (revoke_mobile_device_session env now i u s) =
      snd (revoke_mobile_device_family ''MOBILE_DEVICE_SESSION_REVOKED'' False now (the f) u (env 1 s1))"
      unfolding revoke_mobile_device_session_def f using True by (simp split: prod.split sum.split)
    then show ?thesis using revoke_family_tokens s1 one by metis
  next
    case False
    then have "snd (revoke_mobile_device_session env now i u s) = s1"
      unfolding revoke_mobile_device_session_def f by simp
    then show ?thesis using s1 none by auto
  qed
qed

lemma record_activity_tokens: "token_steps F now (tokens s) (tokens (record_activity now r s))"
proof (rule r_into_rtranclp)
  show "token_step F now (tokens s) (tokens (record_activity now r s))"
    unfolding tokens_pair
    by (rule token_step.touch) (auto simp: record_activity_def Let_def update_many_def core_simps)
qed

lemma authenticate_tokens:
  "tokens (snd (authenticate_mobile_access_token cr rest aenv env tok now s)) = tokens s \<or>
   token_steps F now (tokens (env 0 s)) (tokens (snd (authenticate_mobile_access_token cr rest aenv env tok now s)))"
  by (auto simp: authenticate_mobile_access_token_def record_activity_tokens split: sum.splits option.splits)

lemma delete_sessions_tokens: "tokens (fst (delete_sessions p s)) = (without (db_sessions s) p, db_devices s)"
  by (simp add: delete_sessions_def Let_def delete_many_def without_def tokens_def)

lemma cleanup_tokens: "token_steps F now (tokens (env s)) (tokens (snd (cleanup_expired_auth_tokens env batch now s)))"
proof -
  define ids where "ids = first_ids (get_batch_size batch) ds_id ds_refresh_expires_at (expired_session now) (db_sessions s)"
  have "tokens (snd (cleanup_expired_auth_tokens env batch now s)) =
      (without (db_sessions (env s)) (\<lambda>r. expired_session now r \<and> ds_id r \<in> set ids), db_devices (env s))"
    by (simp add: cleanup_expired_auth_tokens_def Let_def delete_sessions_def delete_many_def without_def tokens_def ids_def)
  then show ?thesis
    using token_step.delete [of "\<lambda>r. expired_session now r \<and> ds_id r \<in> set ids" now F "db_sessions (env s)" "db_devices (env s)"]
    by (simp add: tokens_pair r_into_rtranclp)
qed

lemma delete_account_tokens:
  assumes ok: "token_ok now (tokens s)"
  shows "token_steps F now (tokens s) (tokens (delete_account u s))"
proof -
  let ?S = "db_sessions s" and ?D = "db_devices s"
  let ?gone = "set (map md_id (filter (\<lambda>d. md_user d = u) ?D))"
  have ok': "token_ok now (?S, ?D)" using ok by (simp add: tokens_pair)
  have same: "r\<lparr>ds_device := set_null ?gone (ds_device r)\<rparr> = r" if r: "r \<in> set (without ?S (\<lambda>r. ds_user r = u))" for r
  proof -
    obtain x where x: "x \<in> set ?S" "ds_user x \<noteq> u" "ds_device r = ds_device x" using r by (auto simp: without_def)
    from token_okD(2) [OF ok' x(1)] obtain d where d: "device_of ?D x d" by (rule coveredD)
    have "md_id d \<notin> ?gone"
    proof
      assume "md_id d \<in> ?gone"
      then obtain e where "e \<in> set ?D" "md_user e = u" "md_id e = md_id d" by auto
      then have "e = d" using ok' d by (intro same_row [of md_id ?D]) (auto simp: token_ok_def rows_ok_def device_of_def)
      then show False using \<open>md_user e = u\<close> d x(2) by (simp add: device_of_def)
    qed
    then have "set_null ?gone (ds_device r) = ds_device r" using d x(3) by (simp add: set_null_def device_of_def)
    then show ?thesis by simp
  qed
  have "tokens (delete_account u s) = (map (\<lambda>r. r\<lparr>ds_device := set_null ?gone (ds_device r)\<rparr>) (without ?S (\<lambda>r. ds_user r = u)),
      filter (\<lambda>d. md_user d \<noteq> u) ?D)"
    by (simp add: delete_account_def Let_def delete_sessions_def delete_many_def without_def tokens_def)
  moreover have "map (\<lambda>r. r\<lparr>ds_device := set_null ?gone (ds_device r)\<rparr>) (without ?S (\<lambda>r. ds_user r = u)) = without ?S (\<lambda>r. ds_user r = u)"
    by (rule map_idI) (rule same)
  ultimately show ?thesis
    using token_step.delete_user [of F now ?S ?D u] by (simp add: tokens_pair r_into_rtranclp)
qed


subsection \<open>Rotation\<close>

lemma rotate_session_writes:
  assumes "rotate_session cr dr now current s = (Inr nxt, s')"
  defines "p \<equiv> \<lambda>r. ds_id r = ds_id current \<and> now < ds_refresh_expires_at r \<and> ds_replaced_by r = None \<and> ds_revoked_at r = None"
    and "f \<equiv> \<lambda>r. r\<lparr>ds_last_used_at := now, ds_replaced_by := Some (rd_session dr)\<rparr>"
  shows "nxt = next_session cr dr now current"
    "ds_id nxt \<notin> ds_id ` set (db_sessions s)" "ds_token_hash nxt \<notin> ds_token_hash ` set (db_sessions s)"
    "snd (update_many p f (db_sessions s @ [nxt])) = 1"
    "db_sessions s' = fst (update_many p f (db_sessions s @ [nxt]))"
    "db_devices s' = (if \<not> truthy (ds_device current) then db_devices s else fst (update_many
       (\<lambda>d. md_id d = the (ds_device current) \<and> md_revoked_at d = None \<and> md_user d = ds_user current)
       (\<lambda>d. d\<lparr>md_last_used_at := now, md_refresh_expires_at := now + mobile_refresh_token_ttl_ms\<rparr>) (db_devices s)))"
proof -
  let ?n = "next_session cr dr now current"
  have id: "ds_id ?n = rd_session dr" by (simp add: next_session_def)
  obtain s1 where s1: "create_session ?n s = Some s1"
    using assms(1) by (cases "create_session ?n s") (simp_all add: rotate_session_def)
  have cr: "ds_id ?n \<notin> ds_id ` set (db_sessions s)" "ds_token_hash ?n \<notin> ds_token_hash ` set (db_sessions s)"
    "db_sessions s1 = db_sessions s @ [?n]" "db_devices s1 = db_devices s"
    using s1 by (auto simp: create_session_def row_at_None_iff split: if_splits)
  obtain t n where u: "update_many p f (db_sessions s1) = (t, n)" by fastforce
  define s3 where "s3 = (if \<not> truthy (ds_device current) then s1\<lparr>db_sessions := t\<rparr>
      else s1\<lparr>db_sessions := t, db_devices := fst (update_many
       (\<lambda>d. md_id d = the (ds_device current) \<and> md_revoked_at d = None \<and> md_user d = ds_user current)
       (\<lambda>d. d\<lparr>md_last_used_at := now, md_refresh_expires_at := now + mobile_refresh_token_ttl_ms\<rparr>) (db_devices s1))\<rparr>)"
  have "rotate_session cr dr now current s = (if n \<noteq> 1 then (Inl Reuse_Detected, s1\<lparr>db_sessions := t\<rparr>)
     else case create_event ''MOBILE_DEVICE_REFRESH_ROTATED'' [(''platform'', in_platform (ds_info current))] (ds_user current) s3 of
       None \<Rightarrow> (Inl (Auth_Error Database_Failure), s3) | Some s4 \<Rightarrow> (Inr ?n, s4))"
    by (simp add: rotate_session_def Let_def s1 u [unfolded p_def f_def] id s3_def split: option.split)
  then have r: "(if n \<noteq> 1 then (Inl Reuse_Detected, s1\<lparr>db_sessions := t\<rparr>)
     else case create_event ''MOBILE_DEVICE_REFRESH_ROTATED'' [(''platform'', in_platform (ds_info current))] (ds_user current) s3 of
       None \<Rightarrow> (Inl (Auth_Error Database_Failure), s3) | Some s4 \<Rightarrow> (Inr ?n, s4)) = (Inr nxt, s')"
    using assms(1) by (simp only:)
  then have n: "n = 1" by (simp split: if_splits)
  then obtain s4 where "create_event ''MOBILE_DEVICE_REFRESH_ROTATED'' [(''platform'', in_platform (ds_info current))] (ds_user current) s3 = Some s4"
    "nxt = ?n" "s' = s4" using r by (simp split: option.splits)
  then have "nxt = ?n" "tokens s' = tokens s3" by (auto dest: create_tokens(1))
  then show "nxt = ?n" "ds_id nxt \<notin> ds_id ` set (db_sessions s)" "ds_token_hash nxt \<notin> ds_token_hash ` set (db_sessions s)"
    "snd (update_many p f (db_sessions s @ [nxt])) = 1" "db_sessions s' = fst (update_many p f (db_sessions s @ [nxt]))"
    "db_devices s' = (if \<not> truthy (ds_device current) then db_devices s else fst (update_many
       (\<lambda>d. md_id d = the (ds_device current) \<and> md_revoked_at d = None \<and> md_user d = ds_user current)
       (\<lambda>d. d\<lparr>md_last_used_at := now, md_refresh_expires_at := now + mobile_refresh_token_ttl_ms\<rparr>) (db_devices s)))"
    using cr u n by (simp_all add: s3_def tokens_def split: if_splits)
qed

lemma rotate_session_step:
  assumes run: "rotate_session cr dr now current s = (Inr nxt, s')" and ok: "token_ok now (tokens s)"
    and old: "\<And>r. r \<in> set (db_sessions s) \<Longrightarrow> ds_id r = ds_id current \<Longrightarrow> session_key r = session_key current"
    and new: "hash_credential cr (random_token (rd_bytes dr)) \<notin> F" "rd_session dr \<notin> F" "rd_session dr \<noteq> ds_id current"
  shows "token_steps F now (tokens s) (tokens s')"
    and "\<exists>r \<in> set (db_sessions s). session_key r = session_key current \<and> live_session now r"
    and "r' \<in> set (db_sessions s') \<Longrightarrow> ds_id r' = ds_id current \<Longrightarrow> ds_replaced_by r' \<noteq> None"
proof -
  let ?S = "db_sessions s" and ?D = "db_devices s" and ?e = "now + mobile_refresh_token_ttl_ms"
  let ?p = "\<lambda>r. ds_id r = ds_id current \<and> now < ds_refresh_expires_at r \<and> ds_replaced_by r = None \<and> ds_revoked_at r = None"
  let ?f = "\<lambda>r. r\<lparr>ds_last_used_at := now, ds_replaced_by := Some (rd_session dr)\<rparr>"
  note w = rotate_session_writes [OF run]
  have ok': "token_ok now (?S, ?D)" using ok by (simp add: tokens_pair)
  have nid: "ds_id nxt = rd_session dr" by (simp add: w(1) next_session_def)
  have dist: "distinct (map ds_id (?S @ [nxt]))" using ok' w(2) by (auto simp: token_ok_def rows_ok_def)
  have "\<exists>r. row_at ds_id (ds_id current) (?S @ [nxt]) = Some r \<and> ?p r"
    using w(4) update_many_count_one [OF dist, of ?p "ds_id current" ?f] by simp
  then obtain r where r0: "row_at ds_id (ds_id current) (?S @ [nxt]) = Some r" and rp: "?p r" by blast
  from row_at_SomeD [OF r0] rp have r: "r \<in> set (?S @ [nxt])" "?p r" by blast+
  then have rS: "r \<in> set ?S" using nid new(3) by auto
  have live: "live_session now r" using r(2) by (simp add: live_session_def)
  have key: "session_key r = session_key current" using old [OF rS] r(2) by simp
  then show "\<exists>r \<in> set ?S. session_key r = session_key current \<and> live_session now r" using rS live by blast
  have only: "x = r" if "x \<in> set (?S @ [nxt])" "ds_id x = ds_id current" for x
    using same_row [OF dist that(1) r(1)] that(2) r(2) by simp
  have S': "db_sessions s' = map (\<lambda>x. if ?p x then ?f x else x) (?S @ [nxt])" using w(5) by (simp add: update_many_def)
  show "ds_replaced_by r' \<noteq> None" if r': "r' \<in> set (db_sessions s')" "ds_id r' = ds_id current"
  proof -
    obtain x where x: "x \<in> set (?S @ [nxt])" "r' = (if ?p x then ?f x else x)"
      using r'(1) unfolding S' set_map by (elim imageE)
    then have "ds_id x = ds_id current" using r'(2) by (auto split: if_splits)
    then show ?thesis using only [OF x(1)] x(2) r(2) by simp
  qed
  have abstract: "token_step F now (?S, ?D) (map (rotated r nxt) (?S @ [nxt]), map (extended r ?e) ?D)"
    by (rule token_step.rotate [OF rS live])
      (use w(1-3) new key in \<open>simp_all add: next_session_def session_key_def\<close>)
  have "map session_core (db_sessions s') = map session_core (map (rotated r nxt) (?S @ [nxt]))"
    unfolding S' map_map
  proof (rule map_cong [OF refl])
    fix x assume x: "x \<in> set (?S @ [nxt])"
    show "(session_core \<circ> (\<lambda>x. if ?p x then ?f x else x)) x = (session_core \<circ> rotated r nxt) x"
    proof (cases "ds_id x = ds_id current")
      case True
      then have "x = r" using only x by blast
      then show ?thesis using r(2) nid by (simp add: rotated_def core_simps)
    next
      case False
      then show ?thesis using r(2) by (simp add: rotated_def)
    qed
  qed
  moreover have "map device_core (db_devices s') = map device_core (map (extended r ?e) ?D)"
  proof -
    from token_okD(2) [OF ok' rS] obtain d where "device_of ?D r d" by (rule coveredD)
    then have dev: "ds_device r = Some (md_id d)" "truthy (ds_device r)" by (auto simp: device_of_def truthy_def)
    have cur: "ds_device current = ds_device r" "ds_user current = ds_user r" using key by (auto simp: session_key_def)
    show ?thesis using w(6) dev unfolding cur
      by (auto simp: update_many_def extended_def core_simps)
  qed
  ultimately have "token_step F now (map (rotated r nxt) (?S @ [nxt]), map (extended r ?e) ?D) (db_sessions s', db_devices s')"
    by (rule token_step.touch)
  with abstract show "token_steps F now (tokens s) (tokens s')" by (simp add: tokens_pair)
qed

lemma rotate_session_error:
  "rotate_session cr dr now current s = (Inl e, s') \<Longrightarrow> e \<noteq> Auth_Error Refresh_Reuse_Detected"
  by (auto simp: rotate_session_def Let_def split: option.splits prod.splits if_splits)

lemma refresh_transaction_outcome:
  assumes "refresh_transaction cr env dr now i h s = (res, s')"
  obtains (failed) e where "res = Inl e" "s' \<in> {s, env s}" "e \<noteq> Auth_Error Refresh_Reuse_Detected"
    | (rotated) current nxt where "row_at ds_id i (db_sessions s) = Some current" "ds_token_hash current = h" "res = Inr nxt"
      "rotate_session cr dr now current (env s) = (Inr nxt, s')"
proof (cases "row_at ds_id i (db_sessions s)")
  case None
  then show ?thesis using assms by (intro failed) (auto simp: refresh_transaction_def)
next
  case (Some current)
  show ?thesis
  proof (cases "ds_token_hash current = h \<and> transact (rotate_session cr dr now current) (env s) = (res, s')")
    case True
    from True [THEN conjunct2] show ?thesis
    proof (cases rule: transact_cases)
      case (fail e)
      have "e \<noteq> Auth_Error Refresh_Reuse_Detected"
        using fail(1) True by (auto simp: transact_def split: prod.splits sum.splits dest: rotate_session_error)
      then show ?thesis using fail failed by blast
    next
      case (commit nxt)
      then show ?thesis using Some True rotated by blast
    qed
  next
    case False
    then have "\<exists>e. res = Inl e \<and> s' = s \<and> e \<noteq> Auth_Error Refresh_Reuse_Detected"
      using assms by (auto simp: refresh_transaction_def Some split: if_splits option.splits)
    then show ?thesis using failed by blast
  qed
qed

lemma revoke_then_fail_eq:
  assumes "revoke_then_fail ev b now previous e s = (res, s')"
  shows "s' = snd (revoke_mobile_device_family ev b now (ds_family previous) (ds_user previous) s)"
    and "(res = Inl e \<and> revoke_mobile_device_family ev b now (ds_family previous) (ds_user previous) s = (Inr (), s')) \<or> res = Inl Database_Failure"
  using assms by (auto simp: revoke_then_fail_def revoke_mobile_device_family_def transact_def Let_def
      split: prod.splits sum.splits option.splits)

lemma refresh_outcome:
  assumes "refresh_mobile_device_session cr aenv env dr tok now s = (res, s')"
  obtains (failed) e where "res = Inl e" "e \<noteq> Refresh_Reuse_Detected" "s' \<in> {s, env 0 s, env 1 (env 0 s)}"
    | (revoked) previous t e ev b where "row_at ds_token_hash (hash_credential cr tok) (db_sessions s) = Some previous"
      "t \<in> {env 0 s, env 2 (env 0 s), env 2 (env 1 (env 0 s))}"
      "s' = snd (revoke_mobile_device_family ev b now (ds_family previous) (ds_user previous) t)" "res = Inl e"
      "e = Refresh_Reuse_Detected \<Longrightarrow> revoke_mobile_device_family ev b now (ds_family previous) (ds_user previous) t = (Inr (), s')"
    | (rotated) previous current nxt where "row_at ds_token_hash (hash_credential cr tok) (db_sessions s) = Some previous"
      "row_at ds_id (ds_id previous) (db_sessions (env 0 s)) = Some current" "ds_token_hash current = hash_credential cr tok"
      "rotate_session cr dr now current (env 1 (env 0 s)) = (Inr nxt, s')"
      "res = tokens_of_session cr aenv (random_token (rd_bytes dr)) now nxt"
proof (cases "assert_mobile_access_token_configuration cr aenv")
  case (Inl e)
  then have "e \<noteq> Refresh_Reuse_Detected"
    by (auto simp: assert_mobile_access_token_configuration_def get_access_token_signing_key_def bindR_eq_Inl split: option.splits if_splits)
  then show ?thesis using assms Inl by (intro failed) (auto simp: refresh_mobile_device_session_def)
next
  case (Inr x)
  let ?h = "hash_credential cr tok"
  show ?thesis
  proof (cases "row_at ds_token_hash ?h (db_sessions s)")
    case None
    then show ?thesis using assms Inr by (intro failed) (auto simp: refresh_mobile_device_session_def)
  next
    case (Some previous)
    note r = assms [unfolded refresh_mobile_device_session_def Let_def Inr sum.case Some option.case]
    have revoke: thesis if "revoke_then_fail ev b now previous e t = (res, s')" "t \<in> {env 0 s, env 2 (env 0 s), env 2 (env 1 (env 0 s))}" for ev b e t
    proof -
      note eq = revoke_then_fail_eq [OF that(1)]
      from eq(2) show thesis
      proof (elim disjE conjE)
        assume a: "res = Inl e" "revoke_mobile_device_family ev b now (ds_family previous) (ds_user previous) t = (Inr (), s')"
        show thesis by (rule revoked [OF Some that(2) eq(1) a(1) a(2)])
      next
        assume a: "res = Inl Database_Failure"
        show thesis by (rule revoked [OF Some that(2) eq(1) a]) simp
      qed
    qed
    show ?thesis
    proof (cases "session_account s previous")
      case None
      then show ?thesis using r by (intro failed) auto
    next
      case acc: (Some u)
      show ?thesis
      proof (cases "active_user (ds_auth_version previous) u")
        case False
        then show ?thesis using r acc revoke by simp
      next
        case True
        show ?thesis
        proof (cases "ds_revoked_at previous \<noteq> None \<or> ds_refresh_expires_at previous \<le> now")
          case dead: True
          then show ?thesis using r acc True by (intro failed) auto
        next
          case alive: False
          show ?thesis
          proof (cases "truthy (ds_replaced_by previous)")
            case reuse: True
            then show ?thesis using r acc True alive revoke by simp
          next
            case False
            obtain a t where t: "refresh_transaction cr (env 1) dr now (ds_id previous) ?h (env 0 s) = (a, t)" by fastforce
            have r2: "(case (a, t) of
                     (Inl Reuse_Detected, s') \<Rightarrow>
                       revoke_then_fail ''MOBILE_DEVICE_REFRESH_REUSE_DETECTED'' True now previous Refresh_Reuse_Detected (env 2 s')
                   | (Inl Account_Invalidated, s') \<Rightarrow>
                       revoke_then_fail ''MOBILE_DEVICE_SESSION_INVALIDATED'' False now previous Refresh_Invalid (env 2 s')
                   | (Inl (Auth_Error e), s') \<Rightarrow> (Inl e, s')
                   | (Inr nxt, s') \<Rightarrow> (tokens_of_session cr aenv (random_token (rd_bytes dr)) now nxt, s')) = (res, s')"
              using r acc True alive False t by simp
            from t show ?thesis
            proof (cases rule: refresh_transaction_outcome)
              case (failed e)
              show ?thesis
              proof (cases e)
                case Reuse_Detected
                then have "revoke_then_fail ''MOBILE_DEVICE_REFRESH_REUSE_DETECTED'' True now previous Refresh_Reuse_Detected (env 2 t) = (res, s')"
                  using r2 failed(1) by simp
                then show ?thesis by (rule revoke) (use failed(2) in auto)
              next
                case Account_Invalidated
                then have "revoke_then_fail ''MOBILE_DEVICE_SESSION_INVALIDATED'' False now previous Refresh_Invalid (env 2 t) = (res, s')"
                  using r2 failed(1) by simp
                then show ?thesis by (rule revoke) (use failed(2) in auto)
              next
                case (Auth_Error x)
                then show ?thesis using r2 failed that(1) by auto
              qed
            next
              case (rotated current nxt)
              then show ?thesis using r2 that(3) [OF Some rotated(1,2)] by simp
            qed
          qed
        qed
      qed
    qed
  qed
qed

definition env_steps :: "string set \<Rightarrow> time \<Rightarrow> interference \<Rightarrow> bool" where
  "env_steps F now env \<longleftrightarrow> (\<forall>n t. token_ok now (tokens t) \<longrightarrow> token_steps F now (tokens t) (tokens (env n t)))"

lemma env_stepsD:
  assumes "env_steps F now env" "token_ok now (tokens t)"
  shows "token_steps F now (tokens t) (tokens (env n t))" "token_ok now (tokens (env n t))"
proof -
  show s: "token_steps F now (tokens t) (tokens (env n t))" using assms by (simp add: env_steps_def)
  show "token_ok now (tokens (env n t))" using s assms(2) by (rule token_steps_ok)
qed

lemma env_steps_antimono: "env_steps F now env \<Longrightarrow> F' \<subseteq> F \<Longrightarrow> env_steps F' now env"
  unfolding env_steps_def by (intro allI impI) (rule token_steps_antimono, simp_all)

text \<open>The rotation that succeeds finds the presented session live, and leaves it replaced.\<close>

lemma rotated_session:
  assumes env: "env_steps (F \<union> drawn s) now env" and ok: "token_ok now (tokens s)"
    and new: "hash_credential cr (random_token (rd_bytes dr)) \<notin> F \<union> drawn s" "rd_session dr \<notin> F \<union> drawn s"
    and previous: "row_at ds_token_hash h (db_sessions s) = Some previous"
    and current: "row_at ds_id (ds_id previous) (db_sessions (env 0 s)) = Some current" "ds_token_hash current = h"
    and run: "rotate_session cr dr now current (env 1 (env 0 s)) = (Inr nxt, s')"
  shows "token_steps (F \<union> drawn s) now (tokens s) (tokens s')"
    and "t \<in> {s, env 0 s, env 1 (env 0 s)} \<Longrightarrow> \<not> spent now h (tokens t)" and "spent now h (tokens s')"
proof -
  let ?G = "F \<union> drawn s" and ?t = "env 1 (env 0 s)"
  have p: "previous \<in> set (db_sessions s)" "ds_token_hash previous = h" using row_at_SomeD [OF previous] by auto
  then have G: "h \<in> ?G" "ds_id previous \<in> ?G" by (auto simp: drawn_def)
  have c: "current \<in> set (db_sessions (env 0 s))" "ds_id current = ds_id previous" using row_at_SomeD [OF current(1)] by auto
  note e0 = env_stepsD [OF env ok, of 0]
  note e1 = env_stepsD [OF env e0(2), of 1]
  have dist: "distinct (map ds_id (db_sessions (env 0 s)))" using e0(2) by (simp add: token_ok_def rows_ok_def tokens_pair)
  have old: "session_key r = session_key current" if r: "r \<in> set (db_sessions ?t)" "ds_id r = ds_id current" for r
  proof -
    have in_t: "r \<in> set (fst (tokens ?t))" "ds_id r \<in> ?G" using r c(2) G(2) by (simp_all add: tokens_pair)
    from token_steps_old_row [OF e1(1) e0(2) in_t(1) disjI1 [OF in_t(2)]]
    obtain r0 where r0: "origin now (fst (tokens (env 0 s))) r r0" ..
    then have r0': "r0 \<in> set (db_sessions (env 0 s))" "ds_id r0 = ds_id current"
      using r(2) by (simp_all add: origin_def tokens_pair session_key_def)
    have "r0 = current" by (rule same_row [OF dist r0'(1) c(1) r0'(2)])
    then show ?thesis using r0 by (simp add: origin_def)
  qed
  have "rd_session dr \<noteq> ds_id current" using new(2) G(2) c(2) by auto
  note rot = rotate_session_step [OF run e1(2) old new this]
  show steps: "token_steps ?G now (tokens s) (tokens s')" using e0(1) e1(1) rot(1) by simp
  obtain r where r: "r \<in> set (db_sessions ?t)" "session_key r = session_key current" "live_session now r" using rot(2) by blast
  have h: "ds_token_hash r = h" using r(2) current(2) by (simp add: session_key_def)
  have s2: "\<not> spent now h (tokens ?t)" using r h by (auto simp: spent_def tokens_pair)
  then have s1: "\<not> spent now h (tokens (env 0 s))" using spent_steps [OF e1(1) e0(2) G(1)] by blast
  then have "\<not> spent now h (tokens s)" using spent_steps [OF e0(1) ok G(1)] by blast
  with s1 s2 show "\<not> spent now h (tokens t)" if "t \<in> {s, env 0 s, ?t}" using that by auto
  show "spent now h (tokens s')" unfolding spent_def
  proof (intro ballI impI)
    fix r' assume r': "r' \<in> set (fst (tokens s'))" "ds_token_hash r' = h"
    from token_steps_old_row [OF rot(1) e1(2) r'(1)] r'(2) G(1)
    obtain r0 where r0: "origin now (fst (tokens ?t)) r' r0" by auto
    have dh: "distinct (map ds_token_hash (db_sessions ?t))" using e1(2) by (simp add: token_ok_def rows_ok_def tokens_pair)
    have r0': "r0 \<in> set (db_sessions ?t)" "ds_token_hash r0 = ds_token_hash r"
      using r0 r'(2) h by (simp_all add: origin_def session_key_def tokens_pair)
    have "r0 = r" by (rule same_row [OF dh r0'(1) r(1) r0'(2)])
    then have "ds_id r' = ds_id current" using r0 r(2) by (simp add: origin_def session_key_def)
    then show "\<not> live_session now r'" using rot(3) r'(1) by (simp add: tokens_pair live_session_def)
  qed
qed

lemma refresh_tokens:
  assumes env: "env_steps (F \<union> drawn s) now env" and ok: "token_ok now (tokens s)"
    and new: "hash_credential cr (random_token (rd_bytes dr)) \<notin> F \<union> drawn s" "rd_session dr \<notin> F \<union> drawn s"
    and run: "refresh_mobile_device_session cr aenv env dr tok now s = (res, s')"
  shows "token_steps F now (tokens s) (tokens s')"
proof -
  have envF: "env_steps F now env" using env by (rule env_steps_antimono) simp
  note e0 = env_stepsD [OF envF ok, of 0]
  note e1 = env_stepsD [OF envF e0(2), of 1]
  note e20 = env_stepsD [OF envF e0(2), of 2]
  note e21 = env_stepsD [OF envF e1(2), of 2]
  have e1': "token_steps F now (tokens s) (tokens (env 1 (env 0 s)))" using e0(1) e1(1) by simp
  from run show ?thesis
  proof (cases rule: refresh_outcome)
    case (failed e)
    then show ?thesis using e0(1) e1' by auto
  next
    case (revoked previous t e ev b)
    have "token_steps F now (tokens s) (tokens t)" using revoked(2) e0(1) e20(1) e1' e21(1) by (auto intro: rtranclp_trans)
    then show ?thesis using revoked(3) revoke_family_tokens [of F now t ev b "ds_family previous" "ds_user previous"] by simp
  next
    case (rotated previous current nxt)
    from rotated_session(1) [OF env ok new rotated(1-4)] show ?thesis by (rule token_steps_antimono) simp
  qed
qed

text \<open>What a handler does to the session tables is a sequence of abstract steps.\<close>

lemma auth_at_steps:
  assumes "auth_at cr now F s s'" and "token_ok now (tokens s)"
  shows "token_steps F now (tokens s) (tokens s')"
  using assms
proof (induction rule: auth_at.induct)
  case (further F s t u)
  then show ?case using token_steps_ok by (metis rtranclp_trans)
next
  case (request F s env bytes i v b q u)
  then have "env_steps (F \<union> drawn s) now env" by (simp add: env_steps_def)
  then have "env_steps F now env" by (rule env_steps_antimono) simp
  then show ?case using env_stepsD(1) [of F now env s 0] request.prems request_tokens [of cr env bytes i v b q u now s] by auto
next
  case (approve F s env bytes i tok b k u)
  then have "env_steps (F \<union> drawn s) now env" by (simp add: env_steps_def)
  then have "env_steps F now env" by (rule env_steps_antimono) simp
  then show ?case using env_stepsD(1) [of F now env s 0] approve.prems approve_tokens [of cr env bytes i tok b k u now s] by auto
next
  case (cancel F s env tok b k u)
  then have "env_steps (F \<union> drawn s) now env" by (simp add: env_steps_def)
  then have "env_steps F now env" by (rule env_steps_antimono) simp
  then show ?case using env_stepsD(1) [of F now env s 0] cancel.prems cancel_tokens [of cr env tok b k u now s] by auto
next
  case (issue F s env bytes i penv v q u)
  then have "env_steps (F \<union> drawn s) now env" by (simp add: env_steps_def)
  then have "env_steps F now env" by (rule env_steps_antimono) simp
  then show ?case using env_stepsD(1) [of F now env s 0] issue.prems issue_tokens [of cr penv env bytes i v q u now s] by auto
next
  case (exchange F s env dr aenv xq)
  then have "env_steps (F \<union> drawn s) now env" by (simp add: env_steps_def)
  then have "env_steps F now env" by (rule env_steps_antimono) simp
  then show ?case
    using env_stepsD(1) [of F now env s 0] exchange.prems exchange_tokens [of cr dr F aenv env xq now s] exchange.hyps(2-5)
    by (auto intro: rtranclp_trans)
next
  case (refresh F s env rdr aenv tok)
  then have env: "env_steps (F \<union> drawn s) now env" by (simp add: env_steps_def)
  show ?case
    by (rule refresh_tokens [OF env refresh.prems refresh.hyps(2,3), where res = "fst (refresh_mobile_device_session cr aenv env rdr tok now s)"]) simp
next
  case (authenticate F s env rest aenv tok)
  then have "env_steps (F \<union> drawn s) now env" by (simp add: env_steps_def)
  then have "env_steps F now env" by (rule env_steps_antimono) simp
  then show ?case using env_stepsD(1) [of F now env s 0] authenticate.prems authenticate_tokens [of cr rest aenv env tok now s F]
    by (auto intro: rtranclp_trans)
next
  case (revoke F s env i u)
  then have "env_steps (F \<union> drawn s) now env" by (simp add: env_steps_def)
  then have env: "env_steps F now env" by (rule env_steps_antimono) simp
  note e0 = env_stepsD [OF env revoke.prems, of 0]
  show ?case
  proof (cases rule: revoke_session_tokens [where env = env and now = now and i = i and u = u and s = s and F = F])
    case none
    then show ?thesis using e0(1) by auto
  next
    case (one t)
    have "token_steps F now (tokens s) (tokens t)" "token_ok now (tokens t)" using one(1) e0 revoke.prems by auto
    then show ?thesis using env_stepsD(1) [OF env, of t 1] one(2) by (meson rtranclp_trans)
  qed
next
  case (cleanup F s env batch)
  then have "env_steps (F \<union> drawn s) now env" by (simp add: env_steps_def)
  then have "env_steps F now env" by (rule env_steps_antimono) simp
  then show ?case using env_stepsD(1) [of F now env s 0] cleanup.prems cleanup_tokens [of F now "env 0" s batch]
    by (auto intro: rtranclp_trans)
next
  case (outside F s us ins evs rs vs dels recs)
  then show ?case by (simp add: tokens_pair)
qed (simp_all add: revoke_all_tokens delete_account_tokens)

end
