(* ===== verification/Mobile_Codes.thy ===== *)
theory Mobile_Codes
  imports Mobile_Steps
begin

text \<open>
  The table of authorization codes under all handlers: a code keeps its id and hash, a used code
  stays used, and codes appear only with values that were not in use.
\<close>

definition code_key :: "authorization_code \<Rightarrow> string \<times> string" where
  "code_key c = (ac_id c, ac_code_hash c)"

definition codes_ok :: "authorization_code list \<Rightarrow> bool" where
  "codes_ok C \<longleftrightarrow> distinct (map ac_id C) \<and> distinct (map ac_code_hash C)"

definition codes_from :: "string set \<Rightarrow> authorization_code list \<Rightarrow> authorization_code list \<Rightarrow> bool" where
  "codes_from F C C' \<longleftrightarrow> (\<forall>c' \<in> set C'.
     (\<exists>c \<in> set C. code_key c' = code_key c \<and> (ac_used_at c \<noteq> None \<longrightarrow> ac_used_at c' \<noteq> None)) \<or>
     (ac_id c' \<notin> F \<and> ac_code_hash c' \<notin> F))"

definition codes_step :: "string set \<Rightarrow> authorization_code list \<Rightarrow> authorization_code list \<Rightarrow> bool" where
  "codes_step F C C' \<longleftrightarrow> (codes_ok C \<longrightarrow> codes_ok C') \<and> codes_from F C C'"

lemma codes_step_refl [simp]: "codes_step F C C"
  by (auto simp: codes_step_def codes_from_def)

lemma codes_step_trans:
  assumes "codes_step F A B" "codes_step F B C"
  shows "codes_step F A C"
proof -
  have "codes_from F A C" unfolding codes_from_def
  proof
    fix c assume "c \<in> set C"
    then consider b where "b \<in> set B" "code_key c = code_key b" "ac_used_at b \<noteq> None \<longrightarrow> ac_used_at c \<noteq> None"
      | "ac_id c \<notin> F \<and> ac_code_hash c \<notin> F"
      using assms(2) unfolding codes_step_def codes_from_def by blast
    then show "(\<exists>a \<in> set A. code_key c = code_key a \<and> (ac_used_at a \<noteq> None \<longrightarrow> ac_used_at c \<noteq> None)) \<or>
      (ac_id c \<notin> F \<and> ac_code_hash c \<notin> F)"
    proof cases
      case (1 b)
      then have "(\<exists>a \<in> set A. code_key b = code_key a \<and> (ac_used_at a \<noteq> None \<longrightarrow> ac_used_at b \<noteq> None)) \<or>
        (ac_id b \<notin> F \<and> ac_code_hash b \<notin> F)"
        using assms(1) unfolding codes_step_def codes_from_def by blast
      then show ?thesis using 1(2,3) by (auto simp: code_key_def)
    qed blast
  qed
  then show ?thesis using assms by (simp add: codes_step_def)
qed

lemma codes_step_antimono: "codes_step F A B \<Longrightarrow> F' \<subseteq> F \<Longrightarrow> codes_step F' A B"
  unfolding codes_step_def codes_from_def by blast

lemma codes_step_update:
  assumes "\<And>c. code_key (f c) = code_key c" "\<And>c. ac_used_at c \<noteq> None \<Longrightarrow> ac_used_at (f c) \<noteq> None"
  shows "codes_step F C (fst (update_many p f C))"
proof -
  have "ac_id (f c) = ac_id c" "ac_code_hash (f c) = ac_code_hash c" for c
    using assms(1) [of c] by (simp_all add: code_key_def)
  then have "codes_ok C \<longrightarrow> codes_ok (fst (update_many p f C))" by (simp add: codes_ok_def)
  moreover have "codes_from F C (fst (update_many p f C))"
    unfolding codes_from_def
  proof (rule ballI, rule disjI1)
    fix c' assume "c' \<in> set (fst (update_many p f C))"
    then obtain c where "c \<in> set C" "c' = (if p c then f c else c)" unfolding update_many_set by blast
    then show "\<exists>c \<in> set C. code_key c' = code_key c \<and> (ac_used_at c \<noteq> None \<longrightarrow> ac_used_at c' \<noteq> None)"
      using assms by (intro bexI [of _ c]) auto
  qed
  ultimately show ?thesis by (simp add: codes_step_def)
qed

lemma codes_step_filter: "codes_step F C (filter p C)"
  by (auto simp: codes_step_def codes_ok_def codes_from_def distinct_map_filter)

lemma codes_step_create:
  assumes "create_code c s = Some s'" "ac_id c \<notin> F" "ac_code_hash c \<notin> F"
  shows "codes_step F (db_codes s) (db_codes s')"
proof -
  have "db_codes s' = db_codes s @ [c]" "ac_id c \<notin> ac_id ` set (db_codes s)" "ac_code_hash c \<notin> ac_code_hash ` set (db_codes s)"
    using assms(1) by (auto simp: create_code_def row_at_None_iff split: if_splits)
  then show ?thesis using assms(2,3) by (auto simp: codes_step_def codes_ok_def codes_from_def)
qed

lemma create_codes:
  "create_event e m u s = Some s' \<Longrightarrow> db_codes s' = db_codes s"
  "create_request r s = Some s' \<Longrightarrow> db_codes s' = db_codes s"
  "create_device d s = Some s' \<Longrightarrow> db_codes s' = db_codes s"
  "create_session x s = Some s' \<Longrightarrow> db_codes s' = db_codes s"
  by (auto simp: create_event_def create_request_def create_device_def create_session_def split: if_splits)

lemma lock_codes: "lock_active_user now u v s = (s', n) \<Longrightarrow> db_codes s' = db_codes s"
  by (auto simp: lock_active_user_def split: prod.splits)

subsection \<open>Handler by handler\<close>

lemma request_codes:
  "db_codes (snd (create_mobile_authorization_request cr env bytes i v b q u now s)) \<in> {db_codes s, db_codes (env 0 s)}"
  by (auto simp: create_mobile_authorization_request_def transact_def Let_def bind_eq_Some
      split: sum.splits option.splits prod.splits dest!: create_codes)

lemma cancel_codes:
  "db_codes (snd (cancel_mobile_authorization_request cr env tok b k u now s)) \<in> {db_codes s, db_codes (env 0 s)}"
  by (auto simp: cancel_mobile_authorization_request_def transact_def cancel_transaction_def Let_def
      split: sum.splits option.splits prod.splits if_splits dest!: create_codes)

lemma issue_codes:
  assumes "hash_credential cr (random_token bytes) \<notin> F" "i \<notin> F"
  shows "db_codes (snd (issue_device_authorization_code cr penv env bytes i v q u now s)) = db_codes s \<or>
    codes_step F (db_codes (env 0 s)) (db_codes (snd (issue_device_authorization_code cr penv env bytes i v q u now s)))"
  by (auto simp: issue_device_authorization_code_def transact_def Let_def bind_eq_Some assms
      split: sum.splits option.splits prod.splits dest!: create_codes codes_step_create [of _ _ _ F])

lemma approve_transaction_codes:
  assumes "approve_transaction cr tok c i p u now s = (Inr a, s')" "hash_credential cr c \<notin> F" "i \<notin> F"
  shows "codes_step F (db_codes s) (db_codes s')"
proof -
  obtain s1 where s1: "lock_active_user now u (rq_auth_version p) s = (s1, 1)"
    using assms(1) by (auto simp: approve_transaction_def split: prod.splits if_splits)
  obtain row s2 s3 where s3: "create_code row s2 = Some s3" "ac_id row = i" "ac_code_hash row = hash_credential cr c"
    "db_codes s2 = db_codes s1" "db_codes s' = db_codes s3"
    using assms(1) s1 by (auto simp: approve_transaction_def Let_def bind_eq_Some split: prod.splits if_splits option.splits
        dest!: create_codes(1))
  then show ?thesis using lock_codes [OF s1] codes_step_create [OF s3(1), of F] assms(2,3) by simp
qed

lemma approve_codes:
  assumes "hash_credential cr (random_token bytes) \<notin> F" "i \<notin> F"
  shows "db_codes (snd (approve_mobile_authorization_request cr env bytes i tok b k u now s)) = db_codes s \<or>
    codes_step F (db_codes (env 0 s)) (db_codes (snd (approve_mobile_authorization_request cr env bytes i tok b k u now s)))"
  by (auto simp: approve_mobile_authorization_request_def split: sum.splits prod.splits
      elim!: transact_cases dest: approve_transaction_codes [OF _ assms])

lemma exchange_transaction_codes:
  assumes "exchange_transaction cr dr now c s = (Inr r, s')"
  obtains s1 where "db_codes s1 = db_codes s"
    "db_codes s' = fst (update_many (claimable_code now c s1) (\<lambda>x. x\<lparr>ac_used_at := Some now\<rparr>) (db_codes s))"
    "snd (update_many (claimable_code now c s1) (\<lambda>x. x\<lparr>ac_used_at := Some now\<rparr>) (db_codes s)) = 1"
proof -
  obtain s1 where s1: "lock_active_user now (ac_user c) (ac_auth_version c) s = (s1, 1)"
    using assms(1) by (auto simp: exchange_transaction_def split: prod.splits if_splits)
  have c1: "db_codes s1 = db_codes s" using s1 by (rule lock_codes)
  have "db_codes s' = fst (update_many (claimable_code now c s1) (\<lambda>x. x\<lparr>ac_used_at := Some now\<rparr>) (db_codes s)) \<and>
    snd (update_many (claimable_code now c s1) (\<lambda>x. x\<lparr>ac_used_at := Some now\<rparr>) (db_codes s)) = 1"
    using assms s1 c1 by (auto simp: exchange_transaction_def Let_def bind_eq_Some split: prod.splits if_splits option.splits
        dest!: create_codes)
  with c1 show thesis by (intro that) auto
qed

lemma exchange_codes:
  "db_codes (snd (exchange_device_authorization_code cr aenv env dr xq now s)) = db_codes s \<or>
    codes_step F (db_codes (env 0 s)) (db_codes (snd (exchange_device_authorization_code cr aenv env dr xq now s)))"
proof -
  have "codes_step F (db_codes t) (db_codes s')" if tx: "exchange_transaction cr dr now c t = (Inr r, s')" for c t r s'
  proof (rule exchange_transaction_codes [OF tx])
    fix s1 assume "db_codes s' = fst (update_many (claimable_code now c s1) (\<lambda>x. x\<lparr>ac_used_at := Some now\<rparr>) (db_codes t))"
    then show ?thesis by (simp add: codes_step_update code_key_def)
  qed
  then show ?thesis
    by (auto simp: exchange_device_authorization_code_def split: sum.splits option.splits prod.splits elim!: transact_cases)
qed

lemma revoke_family_codes: "db_codes (snd (revoke_mobile_device_family e b now f u s)) = db_codes s"
  by (auto simp: revoke_mobile_device_family_def transact_def Let_def disable_installations_def
      split: sum.splits option.splits prod.splits dest!: create_codes)

lemma revoke_all_codes: "db_codes (snd (revoke_all_mobile_device_sessions now u s)) = db_codes s"
  by (auto simp: revoke_all_mobile_device_sessions_def transact_def Let_def disable_installations_def
      split: sum.splits option.splits prod.splits if_splits dest!: create_codes)

lemma rotate_codes:
  assumes "rotate_session cr dr now current s = (Inr nxt, s')"
  shows "db_codes s' = db_codes s"
  using assms by (auto simp: rotate_session_def Let_def split: option.splits prod.splits if_splits dest!: create_codes)

lemma authenticate_codes:
  "db_codes (snd (authenticate_mobile_access_token cr rest aenv env tok now s)) \<in> {db_codes s, db_codes (env 0 s)}"
  by (auto simp: authenticate_mobile_access_token_def record_activity_def Let_def split: sum.splits option.splits)

lemma cleanup_codes: "\<exists>p. db_codes (snd (cleanup_expired_auth_tokens env batch now s)) = filter p (db_codes (env s))"
  by (auto simp: cleanup_expired_auth_tokens_def Let_def delete_sessions_def delete_many_def)

lemma delete_account_codes: "db_codes (delete_account u s) = filter (\<lambda>c. ac_user c \<noteq> u) (db_codes s)"
  by (simp add: delete_account_def Let_def delete_sessions_def delete_many_def)

lemma refresh_codes:
  assumes env: "\<And>n t. codes_step F (db_codes t) (db_codes (env n t))"
  shows "codes_step F (db_codes s) (db_codes (snd (refresh_mobile_device_session cr aenv env dr tok now s)))"
proof -
  obtain res s' where run: "refresh_mobile_device_session cr aenv env dr tok now s = (res, s')" by fastforce
  have e1: "codes_step F (db_codes s) (db_codes (env 1 (env 0 s)))" using codes_step_trans [OF env env] .
  from run have "codes_step F (db_codes s) (db_codes s')"
  proof (cases rule: refresh_outcome)
    case (failed e)
    then show ?thesis using env e1 by auto
  next
    case (revoked previous t e ev b)
    then have "codes_step F (db_codes s) (db_codes t)" using env e1 codes_step_trans [OF env env] codes_step_trans [OF e1 env] by auto
    then show ?thesis by (simp add: revoked(3) revoke_family_codes)
  next
    case (rotated previous current nxt)
    show ?thesis using rotate_codes [OF rotated(4)] e1 by simp
  qed
  then show ?thesis using run by simp
qed

lemma revoke_session_codes:
  assumes env: "\<And>n t. codes_step F (db_codes t) (db_codes (env n t))"
  shows "codes_step F (db_codes s) (db_codes (snd (revoke_mobile_device_session env now i u s)))"
proof -
  have step: "codes_step F (db_codes t) (db_codes (snd (revoke_mobile_device_family e b now f u (env 1 t))))" for t e b f
    using env by (simp add: revoke_family_codes)
  obtain f s1 where f: "(case List.find (\<lambda>d. md_id d = i \<and> md_user d = u) (db_devices s) of
           Some d \<Rightarrow> (Some (md_family d), s)
         | None \<Rightarrow> (map_option ds_family (List.find (\<lambda>r. ds_id r = i \<and> ds_user r = u) (db_sessions (env 0 s))), env 0 s)) = (f, s1)"
    by fastforce
  then have s1: "codes_step F (db_codes s) (db_codes s1)" using env by (auto split: option.splits)
  have "snd (revoke_mobile_device_session env now i u s) = (if \<not> truthy f then s1 else
      snd (revoke_mobile_device_family ''MOBILE_DEVICE_SESSION_REVOKED'' False now (the f) u (env 1 s1)))"
    unfolding revoke_mobile_device_session_def f by (simp split: prod.split sum.split)
  then show ?thesis using s1 codes_step_trans [OF s1 step] by simp
qed

lemma codes_step_two: "x \<in> {A, B} \<Longrightarrow> codes_step F A B \<Longrightarrow> codes_step F A x"
  by auto

lemma auth_at_codes: "auth_at cr now F s s' \<Longrightarrow> codes_step F (db_codes s) (db_codes s')"
proof (induction rule: auth_at.induct)
  case (further F s t u)
  then show ?case by (blast intro: codes_step_trans)
next
  case (request F s env bytes i v b q u)
  then have "codes_step F (db_codes s) (db_codes (env 0 s))" by (blast intro: codes_step_antimono)
  then show ?case by (rule codes_step_two [OF request_codes])
next
  case (approve F s env bytes i tok b k u)
  then have e: "codes_step F (db_codes s) (db_codes (env 0 s))" by (blast intro: codes_step_antimono)
  show ?case using approve_codes [of cr bytes F i env tok b k u now s] approve.hyps(2,3) codes_step_trans [OF e] by auto
next
  case (cancel F s env tok b k u)
  then have "codes_step F (db_codes s) (db_codes (env 0 s))" by (blast intro: codes_step_antimono)
  then show ?case by (rule codes_step_two [OF cancel_codes])
next
  case (issue F s env bytes i penv v q u)
  then have e: "codes_step F (db_codes s) (db_codes (env 0 s))" by (blast intro: codes_step_antimono)
  show ?case using issue_codes [of cr bytes F i penv env v q u now s] issue.hyps(2,3) codes_step_trans [OF e] by auto
next
  case (exchange F s env dr aenv xq)
  then have e: "codes_step F (db_codes s) (db_codes (env 0 s))" by (blast intro: codes_step_antimono)
  show ?case using exchange_codes [of cr aenv env dr xq now s F] codes_step_trans [OF e] by auto
next
  case (refresh F s env rdr aenv tok)
  then show ?case by (blast intro: refresh_codes codes_step_antimono)
next
  case (authenticate F s env rest aenv tok)
  then have "codes_step F (db_codes s) (db_codes (env 0 s))" by (blast intro: codes_step_antimono)
  then show ?case by (rule codes_step_two [OF authenticate_codes])
next
  case (revoke F s env i u)
  then show ?case by (blast intro: revoke_session_codes codes_step_antimono)
next
  case (cleanup F s env batch)
  then have e: "codes_step F (db_codes s) (db_codes (env 0 s))" by (blast intro: codes_step_antimono)
  obtain p where "db_codes (snd (cleanup_expired_auth_tokens (env 0) batch now s)) = filter p (db_codes (env 0 s))"
    using cleanup_codes by blast
  then show ?case using codes_step_trans [OF e codes_step_filter] by simp
qed (simp_all add: revoke_all_codes delete_account_codes codes_step_filter)

end
