(* ===== verification/Mobile_Safety.thy ===== *)
theory Mobile_Safety
  imports Mobile_Codes
begin

text \<open>
  The properties of the mobile sign-in: one live session per token family, refresh tokens and codes
  that work once, families that end when a token is presented again, the limit on devices, and
  tokens that work when they are issued. They hold of every database that the handlers reach from
  one in which nobody has signed in, in any interleaving (\<open>auth_run\<close>).
\<close>

definition interferes :: "crypto \<Rightarrow> time \<Rightarrow> auth_db \<Rightarrow> interference \<Rightarrow> bool" where
  "interferes cr now s env \<longleftrightarrow> (\<forall>n t. auth_at cr now (drawn s) t (env n t))"

definition fresh_draw :: "crypto \<Rightarrow> auth_db \<Rightarrow> refresh_draws \<Rightarrow> bool" where
  "fresh_draw cr s dr \<longleftrightarrow> hash_credential cr (random_token (rd_bytes dr)) \<notin> drawn s \<and> rd_session dr \<notin> drawn s"

definition reachable :: "crypto \<Rightarrow> time \<Rightarrow> auth_db \<Rightarrow> bool" where
  "reachable cr t s \<longleftrightarrow> (\<exists>t0 s0. auth_start s0 \<and> auth_run cr {} t0 s0 t s)"

subsection \<open>Runs\<close>

lemma auth_run_induct_tokens:
  assumes "auth_run cr F t0 s0 t s" and "token_ok t0 (tokens s0)" and "P t0 (tokens s0)"
    and later: "\<And>t t' x. t \<le> t' \<Longrightarrow> P t x \<Longrightarrow> P t' x"
    and steps: "\<And>t x y. token_steps F t x y \<Longrightarrow> token_ok t x \<Longrightarrow> P t x \<Longrightarrow> P t y"
  shows "token_ok t (tokens s) \<and> P t (tokens s)"
  using assms(1)
proof (induction rule: auth_run.induct)
  case (step t s t' s')
  have ok: "token_ok t' (tokens s)" using token_ok_later step.IH step.hyps(2) by blast
  then have st: "token_steps F t' (tokens s) (tokens s')" by (rule auth_at_steps [OF step.hyps(3)])
  show ?case
    using token_steps_ok [OF st ok] steps [OF st ok] later [OF step.hyps(2)] step.IH by blast
qed (use assms(2,3) in simp)

lemma start_tokens: "auth_start s \<Longrightarrow> tokens s = ([], [])"
  by (simp add: auth_start_def tokens_def)

lemma reachable_ok: "reachable cr t s \<Longrightarrow> token_ok t (tokens s)"
  unfolding reachable_def
  using auth_run_induct_tokens [of cr "{}" _ _ t s "\<lambda>_ _. True"] by (auto simp: start_tokens token_ok_empty)

lemma reachable_codes: "reachable cr t s \<Longrightarrow> codes_ok (db_codes s)"
proof -
  have "codes_ok (db_codes s0) \<Longrightarrow> codes_ok (db_codes s)" if "auth_run cr {} t0 s0 t s" for t0 s0
    using that by (induction rule: auth_run.induct) (auto dest!: auth_at_codes simp: codes_step_def)
  then show "reachable cr t s \<Longrightarrow> codes_ok (db_codes s)"
    by (auto simp: reachable_def auth_start_def codes_ok_def)
qed

lemma interferes_steps: "interferes cr now s env \<Longrightarrow> env_steps ({} \<union> drawn s) now env"
  unfolding interferes_def env_steps_def Un_empty_left by (blast intro: auth_at_steps)

subsection \<open>Sessions\<close>


text \<open>A refresh that succeeds, seen from the abstract steps.\<close>

lemma refresh_success:
  assumes ok: "token_ok t (tokens s)" and env: "interferes cr t s env" and new: "fresh_draw cr s dr"
    and run: "refresh_mobile_device_session cr aenv env dr tok t s = (Inr toks, s')"
  shows "x \<in> {s, env 0 s, env 1 (env 0 s)} \<Longrightarrow> \<not> spent t (hash_credential cr tok) (tokens x)"
    and "spent t (hash_credential cr tok) (tokens s')" and "token_ok t (tokens s')"
proof -
  have new': "hash_credential cr (random_token (rd_bytes dr)) \<notin> {} \<union> drawn s" "rd_session dr \<notin> {} \<union> drawn s"
    using new by (simp_all add: fresh_draw_def)
  from run obtain previous current nxt where
    "row_at ds_token_hash (hash_credential cr tok) (db_sessions s) = Some previous"
    "row_at ds_id (ds_id previous) (db_sessions (env 0 s)) = Some current" "ds_token_hash current = hash_credential cr tok"
    "rotate_session cr dr t current (env 1 (env 0 s)) = (Inr nxt, s')"
    by (cases rule: refresh_outcome) auto
  note rot = rotated_session [OF interferes_steps [OF env] ok new' this]
  show "x \<in> {s, env 0 s, env 1 (env 0 s)} \<Longrightarrow> \<not> spent t (hash_credential cr tok) (tokens x)" by (rule rot(2))
  show "spent t (hash_credential cr tok) (tokens s')" by (rule rot(3))
  show "token_ok t (tokens s')" using rot(1) ok by (rule token_steps_ok)
qed

lemma spent_run:
  assumes "auth_run cr {h} t s t' s'" "token_ok t (tokens s)" "spent t h (tokens s)"
  shows "spent t' h (tokens s')"
  using auth_run_induct_tokens [OF assms(1,2), of "\<lambda>t x. spent t h x"] assms(3) spent_later spent_steps by blast


text \<open>A detected reuse revokes the family.\<close>

lemma family_revoked:
  assumes "revoke_mobile_device_family ev b now f u s = (Inr (), s')" "family_owner f u (tokens s)"
  shows "family_over f (tokens s')"
proof -
  from assms(1) [unfolded revoke_mobile_device_family_def]
  have rows: "db_sessions s' = map (\<lambda>r. if ds_revoked_at r = None \<and> ds_family r = f \<and> ds_user r = u then mark_session b now r else r) (db_sessions s)"
  proof (cases rule: transact_cases)
    case (commit x)
    then show ?thesis
      by (auto simp: Let_def disable_installations_def update_many_def create_event_def split: option.splits if_splits)
  qed simp
  have owner: "ds_user r = u" if "r \<in> set (db_sessions s)" "ds_family r = f" for r
    using assms(2) that by (simp add: family_owner_def tokens_pair)
  show ?thesis unfolding family_over_def
  proof (intro ballI impI)
    fix r' assume r': "r' \<in> set (fst (tokens s'))" "ds_family r' = f"
    obtain r where r: "r \<in> set (db_sessions s)"
      "r' = (if ds_revoked_at r = None \<and> ds_family r = f \<and> ds_user r = u then mark_session b now r else r)"
      using r'(1) unfolding tokens_pair fst_conv rows set_map by (elim imageE)
    then have fam: "ds_family r = f" using r'(2) by (simp add: mark_session_def split: if_splits)
    then show "ds_revoked_at r' \<noteq> None"
      using owner [OF r(1) fam] r(2) by (cases "ds_revoked_at r = None") (simp_all add: mark_session_def)
  qed
qed

lemma reuse_detected_ends_family:
  assumes ok: "token_ok t (tokens s)" and env: "interferes cr t s env" and new: "fresh_draw cr s dr"
    and run: "refresh_mobile_device_session cr aenv env dr tok t s = (Inl Refresh_Reuse_Detected, s')"
    and p: "row_at ds_token_hash (hash_credential cr tok) (db_sessions s) = Some p"
  shows "family_over (ds_family p) (tokens s')" "token_ok t (tokens s')"
proof -
  have envG: "env_steps ({} \<union> drawn s) t env" using env by (rule interferes_steps)
  have new': "hash_credential cr (random_token (rd_bytes dr)) \<notin> {} \<union> drawn s" "rd_session dr \<notin> {} \<union> drawn s"
    using new by (simp_all add: fresh_draw_def)
  show "token_ok t (tokens s')" by (rule token_steps_ok [OF refresh_tokens [OF envG ok new' run] ok])
  note e0 = env_stepsD [OF envG ok, of 0]
  note e1 = env_stepsD [OF envG e0(2), of 1]
  note e20 = env_stepsD [OF envG e0(2), of 2]
  note e21 = env_stepsD [OF envG e1(2), of 2]
  from run show "family_over (ds_family p) (tokens s')"
  proof (cases rule: refresh_outcome)
    case (revoked previous x e ev b)
    have pp: "previous = p" using revoked(1) p by simp
    have pS: "p \<in> set (fst (tokens s))" using row_at_SomeD [OF p] by (simp add: tokens_pair)
    have "token_steps ({} \<union> drawn s) t (tokens s) (tokens x)"
      using revoked(2) e0(1) e20(1) e1(1) e21(1) by (auto intro: rtranclp_trans)
    moreover have "ds_family p \<in> {} \<union> drawn s" using pS by (simp add: drawn_def tokens_pair)
    ultimately have "family_owner (ds_family p) (ds_user p) (tokens x)"
      using family_owner_steps [OF _ ok _ family_owner_row [OF ok pS]] by blast
    then show ?thesis using revoked(4,5) by (auto simp: pp intro: family_revoked)
  next
    case (rotated previous current nxt)
    then show ?thesis
      by (auto simp: tokens_of_session_def bindR_eq_Inl require_stable_device_id_def issue_session_tokens_def
          create_mobile_access_token_def Let_def get_access_token_signing_key_def split: if_splits option.splits dest!: sym [of "Inl _"])
  qed simp
qed

lemma family_over_run:
  assumes "auth_run cr {f} t s t' s'" "token_ok t (tokens s)" "family_over f (tokens s)"
  shows "family_over f (tokens s')"
  using auth_run_induct_tokens [OF assms(1,2), of "\<lambda>t x. family_over f x"] assms(3) family_over_steps by blast

lemma revoked_refresh_fails:
  assumes "row_at ds_token_hash (hash_credential cr tok) (db_sessions s) = Some r" "ds_revoked_at r \<noteq> None"
  shows "\<exists>e. fst (refresh_mobile_device_session cr aenv env dr tok now s) = Inl e"
  using assms
  by (auto simp: refresh_mobile_device_session_def Let_def revoke_then_fail_def split: sum.splits option.splits prod.splits)

lemma authenticated_session:
  assumes "authenticate_mobile_access_token cr rest aenv env tok now s = (Inr a, s')"
  obtains p r where "parse_mobile_access_token cr rest tok aenv now = Inr p" "row_at ds_id (pl_sid p) (db_sessions s) = Some r"
    "session_grants s now p r" "mp_session_id a = ds_id r" "mp_user_id a = ds_user r"
  using assms by (auto simp: authenticate_mobile_access_token_def split: sum.splits option.splits if_splits)


subsection \<open>Devices\<close>


subsection \<open>Codes\<close>

definition code_spent :: "string \<Rightarrow> auth_db \<Rightarrow> bool" where
  "code_spent h s \<longleftrightarrow> (\<forall>c \<in> set (db_codes s). ac_code_hash c = h \<longrightarrow> ac_used_at c \<noteq> None)"

lemma code_spent_step:
  assumes "codes_step F (db_codes s) (db_codes s')" "h \<in> F" "code_spent h s"
  shows "code_spent h s'"
proof -
  have "codes_from F (db_codes s) (db_codes s')" using assms(1) by (simp add: codes_step_def)
  then show ?thesis using assms(2,3) unfolding codes_from_def code_spent_def code_key_def by (metis prod.inject)
qed

lemma code_spent_run:
  assumes "auth_run cr {h} t s t' s'" "code_spent h s"
  shows "code_spent h s'"
  using assms by (induction rule: auth_run.induct) (auto dest!: auth_at_codes intro: code_spent_step)

text \<open>The claim of an exchange that succeeds finds the code unused and leaves it used.\<close>

lemma exchange_success:
  assumes run: "exchange_device_authorization_code cr aenv env dr q t s = (Inr toks, s')"
  obtains c r where "row_at ac_code_hash (hash_credential cr (xq_code q)) (db_codes s) = Some c" "code_presented cr q t c"
    "exchange_transaction cr dr t c (env 0 s) = (Inr r, s')"
    "tokens_of_session cr aenv (random_token (dr_bytes dr)) t r = Inr toks"
  using run
  by (auto simp: exchange_device_authorization_code_def transact_def split: sum.splits option.splits if_splits prod.splits)

lemma exchange_claims:
  assumes codes: "codes_ok (db_codes s)" and env: "interferes cr t s env"
    and run: "exchange_device_authorization_code cr aenv env dr q t s = (Inr toks, s')"
  shows "x \<in> {s, env 0 s} \<Longrightarrow> \<not> code_spent (hash_credential cr (xq_code q)) x"
    and "code_spent (hash_credential cr (xq_code q)) s'"
proof -
  let ?h = "hash_credential cr (xq_code q)" and ?t = "env 0 s"
  obtain c r where c: "row_at ac_code_hash ?h (db_codes s) = Some c" and p: "code_presented cr q t c"
    and tx: "exchange_transaction cr dr t c ?t = (Inr r, s')"
    using run by (rule exchange_success)
  have cS: "c \<in> set (db_codes s)" "ac_code_hash c = ?h" using row_at_SomeD [OF c] by auto
  have step: "codes_step (drawn s) (db_codes s) (db_codes ?t)"
    by (rule auth_at_codes [of cr t]) (use env in \<open>simp add: interferes_def\<close>)
  then have codes': "codes_ok (db_codes ?t)" using codes by (simp add: codes_step_def)
  obtain s1 where u: "db_codes s' = fst (update_many (claimable_code t c s1) (\<lambda>x. x\<lparr>ac_used_at := Some t\<rparr>) (db_codes ?t))"
    "snd (update_many (claimable_code t c s1) (\<lambda>x. x\<lparr>ac_used_at := Some t\<rparr>) (db_codes ?t)) = 1"
    using tx by (rule exchange_transaction_codes)
  have "\<exists>x. row_at ac_id (ac_id c) (db_codes ?t) = Some x \<and> claimable_code t c s1 x"
    using u(2) codes' by (subst (asm) update_many_count_one [of ac_id _ _ "ac_id c"]) (auto simp: codes_ok_def claimable_code_def)
  then obtain y where y0: "row_at ac_id (ac_id c) (db_codes ?t) = Some y" and yc: "claimable_code t c s1 y" by blast
  have y: "y \<in> set (db_codes ?t)" "ac_id y = ac_id c" using row_at_SomeD [OF y0] by auto
  have "ac_id y \<in> drawn s" using y(2) cS(1) by (simp add: drawn_def)
  then obtain c0 where c0: "c0 \<in> set (db_codes s)" "code_key y = code_key c0"
    using step y(1) unfolding codes_step_def codes_from_def by blast
  then have "c0 = c" using codes cS(1) y(2) by (intro same_row [of ac_id "db_codes s"]) (auto simp: codes_ok_def code_key_def)
  then have yh: "ac_code_hash y = ?h" using c0(2) cS(2) by (simp add: code_key_def)
  have unused: "ac_used_at c = None" "ac_used_at y = None" using p yc by (simp_all add: code_presented_def claimable_code_def)
  show "\<not> code_spent ?h x" if "x \<in> {s, ?t}"
    using that unused yh y(1) cS by (auto simp: code_spent_def)
  show "code_spent ?h s'" unfolding code_spent_def
  proof (intro ballI impI)
    fix x' assume "x' \<in> set (db_codes s')" "ac_code_hash x' = ?h"
    then obtain x where x: "x \<in> set (db_codes ?t)" "x' = (if claimable_code t c s1 x then x\<lparr>ac_used_at := Some t\<rparr> else x)"
      "ac_code_hash x = ?h"
      unfolding u(1) update_many_set by (auto split: if_splits)
    have "x = y" using codes' x(1,3) y(1) yh by (intro same_row [of ac_code_hash "db_codes ?t"]) (auto simp: codes_ok_def)
    then show "ac_used_at x' \<noteq> None" using x(2) yc by simp
  qed
qed



subsection \<open>Tokens that are issued work\<close>

text \<open>What an exchange leaves behind: a session row, its device and its account.\<close>

definition signed_in :: "auth_db \<Rightarrow> time \<Rightarrow> device_session \<Rightarrow> bool" where
  "signed_in s expires r \<longleftrightarrow>
     row_at ds_id (ds_id r) (db_sessions s) = Some r \<and> row_at ds_token_hash (ds_token_hash r) (db_sessions s) = Some r \<and>
     ds_revoked_at r = None \<and> ds_replaced_by r = None \<and> ds_refresh_expires_at r = expires \<and>
     (\<exists>u. session_account s r = Some u \<and> active_user (ds_auth_version r) u) \<and>
     (\<exists>d i. ds_device r = Some i \<and> row_at md_id i (db_devices s) = Some d \<and> md_revoked_at d = None \<and>
        md_auth_version d = ds_auth_version r)"

lemma lock_active_row:
  assumes "lock_active_user now u v s = (s', 1)" "distinct (map mu_id (db_users s'))"
  shows "\<exists>x. row_at mu_id u (db_users s') = Some x \<and> active_user v x"
proof -
  have u: "db_users s' = fst (update_many (\<lambda>x. mu_id x = u \<and> active_user v x) (\<lambda>x. x\<lparr>mu_updated_at := now\<rparr>) (db_users s))"
    "snd (update_many (\<lambda>x. mu_id x = u \<and> active_user v x) (\<lambda>x. x\<lparr>mu_updated_at := now\<rparr>) (db_users s)) = 1"
    using assms(1) by (auto simp: lock_active_user_def split: prod.splits)
  have "distinct (map mu_id (db_users s))" using assms(2) by (simp add: u(1))
  then have "\<exists>y. row_at mu_id u (db_users s) = Some y \<and> mu_id y = u \<and> active_user v y"
    using u(2) by (subst (asm) update_many_count_one [of mu_id _ _ u]) auto
  then obtain y where "row_at mu_id u (db_users s) = Some y" "active_user v y" by blast
  then show ?thesis by (simp add: u(1) row_at_update_many active_user_def)
qed

lemma exchange_transaction_signed_in:
  assumes "exchange_transaction cr dr now c s = (Inr r, s')" "distinct (map mu_id (db_users s'))"
  shows "signed_in s' (now + mobile_refresh_token_ttl_ms) r \<and> ds_token_hash r = hash_credential cr (random_token (dr_bytes dr))"
  using assms(1)
proof (rule exchange_transaction_writes)
  fix s1
  assume s1: "lock_active_user now (ac_user c) (ac_auth_version c) s = (s1, 1)"
    and r: "r = new_session cr dr now c" and t: "tokens s' = (db_sessions s1 @ [r], db_devices s1 @ [new_device dr now c])" "db_users s' = db_users s1"
    and free: "row_at ds_id (ds_id r) (db_sessions s1) = None" "row_at ds_token_hash (ds_token_hash r) (db_sessions s1) = None"
    "row_at md_id (dr_device dr) (db_devices s1) = None"
  have rows: "db_sessions s' = db_sessions s1 @ [r]" "db_devices s' = db_devices s1 @ [new_device dr now c]"
    using t(1) by (simp_all add: tokens_pair)
  obtain u where "row_at mu_id (ac_user c) (db_users s1) = Some u" "active_user (ac_auth_version c) u"
    using lock_active_row [OF s1] assms(2) t(2) by auto
  then show ?thesis
    using free unfolding signed_in_def session_account_def rows t(2)
    by (simp add: row_at_append r new_session_def new_device_def)
qed

lemma signed_in_authenticates:
  assumes "signed_in s expires r" "now < expires" "pl_sub p = ds_user r" "pl_av p = ds_auth_version r" "pl_sid p = ds_id r"
    and "ds_device r = Some (pl_did p)" "parse_mobile_access_token cr rest tok aenv now = Inr p"
  shows "\<exists>s'. authenticate_mobile_access_token cr rest aenv env tok now s =
    (Inr \<lparr>mp_auth_version = pl_av p, mp_device_id = pl_did p, mp_session_id = ds_id r, mp_user_id = ds_user r\<rparr>, s')"
  using assms by (auto simp: authenticate_mobile_access_token_def signed_in_def session_grants_def truthy_def)

text \<open>A session that is live and whose account is active is refreshed, when nothing interferes.\<close>

lemma signed_in_refreshes:
  assumes ok: "token_ok now (tokens s)" and si: "signed_in s expires r" and "now < expires" and new: "fresh_draw cr s dr"
    and h: "ds_token_hash r = hash_credential cr tok" and key: "get_access_token_signing_key cr aenv = Inr key"
  shows "\<exists>toks s'. refresh_mobile_device_session cr aenv (\<lambda>n t. t) dr tok now s = (Inr toks, s') \<and>
    signed_in s' (now + mobile_refresh_token_ttl_ms) (next_session cr dr now r) \<and>
    st_refresh_token toks = random_token (rd_bytes dr) \<and> st_user_id toks = ds_user r"
proof -
  let ?nxt = "next_session cr dr now r"
  have rows: "row_at ds_id (ds_id r) (db_sessions s) = Some r" "row_at ds_token_hash (hash_credential cr tok) (db_sessions s) = Some r"
    and live: "ds_revoked_at r = None" "ds_replaced_by r = None" "ds_refresh_expires_at r = expires"
    using si h by (simp_all add: signed_in_def)
  obtain u where u: "session_account s r = Some u" "active_user (ds_auth_version r) u" using si by (auto simp: signed_in_def)
  obtain i d where d: "ds_device r = Some i" "row_at md_id i (db_devices s) = Some d" "md_revoked_at d = None" "md_auth_version d = ds_auth_version r"
    using si by (auto simp: signed_in_def)
  have rS: "r \<in> set (db_sessions s)" using row_at_SomeD [OF rows(1)] by simp
  from token_okD(2) [of now "db_sessions s" "db_devices s" r] ok rS d(1) have i: "i \<noteq> []"
    by (auto simp: tokens_pair device_of_def elim!: coveredD)
  have free: "row_at ds_id (ds_id ?nxt) (db_sessions s) = None" "row_at ds_token_hash (ds_token_hash ?nxt) (db_sessions s) = None"
    using new by (auto simp: fresh_draw_def drawn_def next_session_def row_at_None_iff)
  have uex: "user_exists s (ds_user r)" using u(1) by (simp add: user_exists_def session_account_def)
  have create: "create_session ?nxt s = Some (s\<lparr>db_sessions := db_sessions s @ [?nxt]\<rparr>)"
    using uex free d by (simp add: create_session_def next_session_def)
  have dist: "distinct (map ds_id (db_sessions s @ [?nxt]))"
    using ok free(1) by (auto simp: token_ok_def rows_ok_def tokens_pair row_at_None_iff)
  define p where "p = (\<lambda>x :: device_session. ds_id x = ds_id r \<and> now < ds_refresh_expires_at x \<and> ds_replaced_by x = None \<and> ds_revoked_at x = None)"
  define f where "f = (\<lambda>x :: device_session. x\<lparr>ds_last_used_at := now, ds_replaced_by := Some (ds_id ?nxt)\<rparr>)"
  have ne: "ds_id ?nxt \<noteq> ds_id r" using free(1) rows(1) by auto
  have one: "snd (update_many p f (db_sessions s @ [?nxt])) = 1"
    using dist rows(1) live \<open>now < expires\<close>
    by (subst update_many_count_one [of ds_id _ _ "ds_id r"]) (auto simp: p_def row_at_append)
  obtain S' n where upd: "update_many p f (db_sessions s @ [?nxt]) = (S', n)" by fastforce
  then have n: "n = 1" "S' = fst (update_many p f (db_sessions s @ [?nxt]))" using one by auto
  define g where "g = (\<lambda>x :: mobile_device. x\<lparr>md_last_used_at := now, md_refresh_expires_at := now + mobile_refresh_token_ttl_ms\<rparr>)"
  define q where "q = (\<lambda>x :: mobile_device. md_id x = i \<and> md_revoked_at x = None \<and> md_user x = ds_user r)"
  define s3 where "s3 = s\<lparr>db_sessions := S', db_devices := fst (update_many q g (db_devices s))\<rparr>"
  have "user_exists s3 (ds_user r)" using uex by (simp add: s3_def user_exists_def)
  then obtain s4 where s4: "create_event ''MOBILE_DEVICE_REFRESH_ROTATED'' [(''platform'', in_platform (ds_info r))] (ds_user r) s3 = Some s4"
    "db_sessions s4 = S'" "db_devices s4 = fst (update_many q g (db_devices s))" "db_users s4 = db_users s"
    by (auto simp: create_event_def s3_def)
  have rot: "rotate_session cr dr now r s = (Inr ?nxt, s4)"
    using upd [unfolded p_def f_def] n(1) s4(1) d(1) i
    by (simp add: rotate_session_def Let_def create s3_def q_def g_def truthy_def)
  have tx: "refresh_transaction cr (\<lambda>t. t) dr now (ds_id r) (hash_credential cr tok) s = (Inr ?nxt, s4)"
    using rows(1) h live u rot \<open>now < expires\<close> by (simp add: refresh_transaction_def truthy_def transact_def)
  obtain toks where toks: "tokens_of_session cr aenv (random_token (rd_bytes dr)) now ?nxt = Inr toks"
    "st_refresh_token toks = random_token (rd_bytes dr)" "st_user_id toks = ds_user r"
    using key d(1) i by (auto simp: tokens_of_session_def require_stable_device_id_def issue_session_tokens_def next_session_def
        create_mobile_access_token_def truthy_def Let_def)
  have "refresh_mobile_device_session cr aenv (\<lambda>n t. t) dr tok now s = (Inr toks, s4)"
    using key rows(2) u live \<open>now < expires\<close> tx toks(1)
    by (simp add: refresh_mobile_device_session_def assert_mobile_access_token_configuration_def truthy_def)
  moreover have "signed_in s4 (now + mobile_refresh_token_ttl_ms) ?nxt"
  proof -
    have np: "\<not> p ?nxt" using ne by (simp add: p_def)
    have "row_at ds_id (ds_id ?nxt) S' = Some ?nxt" "row_at ds_token_hash (ds_token_hash ?nxt) S' = Some ?nxt"
      using free np by (simp_all add: n(2) row_at_update_many row_at_append f_def)
    moreover have "ds_revoked_at ?nxt = None" "ds_replaced_by ?nxt = None" "ds_user ?nxt = ds_user r" "ds_auth_version ?nxt = ds_auth_version r"
      "ds_refresh_expires_at ?nxt = now + mobile_refresh_token_ttl_ms" "ds_device ?nxt = Some i"
      using d(1) by (simp_all add: next_session_def)
    moreover have "row_at md_id i (fst (update_many q g (db_devices s))) = Some (if q d then g d else d)"
      using d(2) by (simp add: row_at_update_many g_def)
    moreover have "md_revoked_at (if q d then g d else d) = None" "md_auth_version (if q d then g d else d) = ds_auth_version r"
      using d(3,4) by (simp_all add: g_def)
    ultimately show ?thesis
      using u unfolding signed_in_def session_account_def s4(2-4) by auto
  qed
  ultimately show ?thesis using toks by blast
qed

definition fresh_sign_in :: "crypto \<Rightarrow> auth_db \<Rightarrow> sign_in_draws \<Rightarrow> bool" where
  "fresh_sign_in cr s dr \<longleftrightarrow> hash_credential cr (random_token (dr_bytes dr)) \<notin> drawn s \<and> dr_session dr \<notin> drawn s \<and>
     dr_family dr \<notin> drawn s \<and> dr_device dr \<noteq> []"

lemma exchange_ok:
  assumes "token_ok t (tokens s)" "interferes cr t s env" "fresh_sign_in cr s dr"
  shows "token_ok t (tokens (snd (exchange_device_authorization_code cr aenv env dr q t s)))"
proof -
  have env: "env_steps (drawn s) t env" using interferes_steps [OF assms(2)] by simp
  show ?thesis
    using exchange_tokens [of cr dr "drawn s" aenv env q t s] assms(3) env_stepsD [OF env assms(1), of 0] assms(1)
    by (auto simp: fresh_sign_in_def intro: token_steps_ok)
qed

text \<open>C37: The tokens an exchange returns work: until its fifteen minutes are over the access token
  authenticates as the account and device it was issued for, and the refresh token gets new tokens
  of the same account.\<close>

theorem issued_tokens_work:
  assumes "reachable cr t s" "interferes cr t s env" "fresh_sign_in cr s dr"
    and "exchange_device_authorization_code cr aenv env dr q t s = (Inr toks, s1)"
    and "distinct (map mu_id (db_users s1))" "length (st_access_token toks) \<le> 1024"
    and "t \<le> t2" "t2 < (t div 1000 + 900) * 1000" "fresh_draw cr s1 dr2"
  shows "(\<exists>a s2. authenticate_mobile_access_token cr rest aenv env2 (st_access_token toks) t2 s1 = (Inr a, s2) \<and>
      mp_user_id a = st_user_id toks \<and> mp_device_id a = st_mobile_device_id toks) \<and>
    (\<exists>toks2 s3. refresh_mobile_device_session cr aenv (\<lambda>n x. x) dr2 (st_refresh_token toks) t2 s1 = (Inr toks2, s3) \<and>
      st_user_id toks2 = st_user_id toks)"
proof -
  obtain c r where tx: "exchange_transaction cr dr t c (env 0 s) = (Inr r, s1)"
    and toks: "tokens_of_session cr aenv (random_token (dr_bytes dr)) t r = Inr toks"
    using assms(4) by (rule exchange_success)
  note si = exchange_transaction_signed_in [OF tx assms(5)]
  have ok: "token_ok t2 (tokens s1)"
    using exchange_ok [OF reachable_ok [OF assms(1)] assms(2,3), of aenv q] assms(4,7) by (auto intro: token_ok_later)
  have exp: "t2 < t + mobile_refresh_token_ttl_ms" using assms(8) by (simp add: mobile_refresh_token_ttl_ms_def)
  obtain i where i: "ds_device r = Some i" "truthy (ds_device r)"
    using toks by (auto simp: tokens_of_session_def require_stable_device_id_def truthy_def bindR_eq_Inr split: if_splits)
  define p where "p = \<lparr>pl_av = ds_auth_version r, pl_did = i, pl_sid = ds_id r, pl_sub = ds_user r\<rparr>"
  have st: "create_mobile_access_token cr p aenv t = Inr (st_access_token toks)" "st_user_id toks = ds_user r"
    "st_mobile_device_id toks = i" "st_refresh_token toks = random_token (dr_bytes dr)"
    using toks i by (auto simp: tokens_of_session_def require_stable_device_id_def issue_session_tokens_def p_def bindR_eq_Inr)
  obtain key where key: "get_access_token_signing_key cr aenv = Inr key"
    using st(1) by (auto simp: create_mobile_access_token_def Let_def bindR_eq_Inr)
  let ?e = "base64url_of_text (json_text (token_json p t))"
  have "st_access_token toks = ''arctic-mobile-v1.'' @ ?e @ ''.'' @ token_signature cr key ?e"
    using st(1) key by (simp only: create_mobile_access_token_def Let_def bindR.simps sum.inject)
  then have "length ?e \<le> 1024" using assms(6) by simp
  then have parse: "parse_mobile_access_token cr rest (st_access_token toks) aenv t2 = Inr p"
    using access_token_round_trip [OF st(1)] assms(8) by simp
  have "\<exists>s2. authenticate_mobile_access_token cr rest aenv env2 (st_access_token toks) t2 s1 =
      (Inr \<lparr>mp_auth_version = pl_av p, mp_device_id = pl_did p, mp_session_id = ds_id r, mp_user_id = ds_user r\<rparr>, s2)"
    by (rule signed_in_authenticates [OF si [THEN conjunct1] exp _ _ _ _ parse]) (simp_all add: p_def i)
  moreover have "\<exists>toks2 s3. refresh_mobile_device_session cr aenv (\<lambda>n t. t) dr2 (st_refresh_token toks) t2 s1 = (Inr toks2, s3) \<and>
      signed_in s3 (t2 + mobile_refresh_token_ttl_ms) (next_session cr dr2 t2 r) \<and>
      st_refresh_token toks2 = random_token (rd_bytes dr2) \<and> st_user_id toks2 = ds_user r"
    by (rule signed_in_refreshes [OF ok si [THEN conjunct1] exp assms(9) _ key]) (simp add: si st(4))
  ultimately show ?thesis using st(2,3) by (fastforce simp: p_def)
qed

subsection \<open>An example\<close>

definition example_crypto :: crypto where
  "example_crypto = \<lparr>cr_sha256 = \<lambda>s. [length s], cr_hmac = \<lambda>k m. [length k]\<rparr>"

definition example_environment :: environment where
  "example_environment = [''AUTH_SECRET'' \<mapsto> ''0123456789abcdef0123456789abcdef'']"

definition example_accounts :: auth_db where
  "example_accounts = \<lparr>db_users = [\<lparr>mu_id = ''u'', mu_auth_version = 1, mu_disabled_at = None, mu_password_hash = None, mu_updated_at = 0\<rparr>],
     db_requests = [], db_codes = [], db_sessions = [], db_devices = [], db_installations = [], db_events = [],
     db_password_resets = [], db_email_verifications = [], db_deletion_confirmations = [], db_receipts = []\<rparr>"

definition example_verifier :: string where
  "example_verifier = ''0123456789abcdef0123456789abcdef0123456789a''"

definition example_device_request :: device_request where
  "example_device_request = \<lparr>dq_app_version = ''1'', dq_client_id = mobile_android_client_id,
     dq_code_challenge = base64url_encode (cr_sha256 example_crypto example_verifier), dq_code_challenge_method = ''S256'',
     dq_device_name = ''phone'', dq_nonce = ''0123456789abcdef'', dq_platform = ''android'',
     dq_redirect_uri = mobile_production_redirect_uri, dq_state = ''0123456789abcdef''\<rparr>"

definition no_interference :: interference where
  "no_interference = (\<lambda>n s. s)"

definition example_requested :: auth_db where
  "example_requested = snd (create_mobile_authorization_request example_crypto no_interference [1] ''r'' 1 ''b''
     example_device_request ''u'' 1000 example_accounts)"

definition example_approved :: auth_db where
  "example_approved = snd (approve_mobile_authorization_request example_crypto no_interference [1,2] ''c''
     (random_token [1]) ''b'' ''r'' ''u'' 1000 example_requested)"

definition example_exchange :: exchange_request where
  "example_exchange = \<lparr>xq_client_id = mobile_android_client_id, xq_code = random_token [1,2],
     xq_code_verifier = example_verifier, xq_nonce = ''0123456789abcdef'', xq_redirect_uri = mobile_production_redirect_uri\<rparr>"

definition example_draws :: sign_in_draws where
  "example_draws = \<lparr>dr_bytes = [1,2,3], dr_family = ''f'', dr_device = ''d'', dr_session = ''s1''\<rparr>"

definition example_signed_in :: "(mobile_error + session_tokens) \<times> auth_db" where
  "example_signed_in = exchange_device_authorization_code example_crypto example_environment no_interference example_draws example_exchange
     1000 example_approved"

definition example_refresh :: "refresh_draws \<Rightarrow> auth_db \<Rightarrow> (mobile_error + session_tokens) \<times> auth_db" where
  "example_refresh dr s = refresh_mobile_device_session example_crypto example_environment no_interference dr (random_token [1,2,3]) 1000 s"



lemma example_values:
  "auth_start example_accounts"
  "hash_credential example_crypto (random_token [1,2]) \<notin> {} \<union> drawn example_requested"
  "''c'' \<notin> {} \<union> drawn example_requested"
  "fresh_sign_in example_crypto example_approved example_draws"
  by code_simp+

definition example_refresh_draws :: refresh_draws where
  "example_refresh_draws = \<lparr>rd_bytes = [1,2,3,4], rd_session = ''s2''\<rparr>"

definition example_reuse_draws :: refresh_draws where
  "example_reuse_draws = \<lparr>rd_bytes = [1,2,3,4,5], rd_session = ''s3''\<rparr>"

lemma example_sign_in:
  "case example_signed_in of (r, s) \<Rightarrow>
     (case r of Inl _ \<Rightarrow> False
      | Inr toks \<Rightarrow> length (st_access_token toks) \<le> 1024 \<and> st_refresh_token toks = random_token [1,2,3]) \<and>
     distinct (map mu_id (db_users s)) \<and> fresh_draw example_crypto s example_refresh_draws"
  by code_simp

lemma example_tokens:
  obtains toks where "example_signed_in = (Inr toks, snd example_signed_in)" "fst example_signed_in = Inr toks" "length (st_access_token toks) \<le> 1024"
    "distinct (map mu_id (db_users (snd example_signed_in)))" "fresh_draw example_crypto (snd example_signed_in) example_refresh_draws"
  using example_sign_in by (cases "fst example_signed_in") (auto simp: split_beta prod_eq_iff)

lemma no_interference: "interferes cr t s no_interference"
  by (simp add: interferes_def no_interference_def auth_at.wait)

lemma no_interference_env: "auth_at cr t F s (no_interference n s)"
  by (simp add: no_interference_def auth_at.wait)

lemma example_reachable:
  "reachable example_crypto 1000 example_approved" "reachable example_crypto 1000 (snd example_signed_in)"
proof -
  have "auth_run example_crypto {} 1000 example_accounts 1000 example_requested"
    unfolding example_requested_def
    by (rule auth_run.step [OF auth_run.start order.refl auth_at.request]) (rule no_interference_env)
  then have run: "auth_run example_crypto {} 1000 example_accounts 1000 example_approved"
    unfolding example_approved_def
    by (rule auth_run.step [OF _ order.refl auth_at.approve]) (rule no_interference_env example_values)+
  then show "reachable example_crypto 1000 example_approved"
    using example_values(1) by (auto simp: reachable_def)
  have "auth_run example_crypto {} 1000 example_accounts 1000 (snd example_signed_in)"
    unfolding example_signed_in_def
    by (rule auth_run.step [OF run order.refl auth_at.exchange])
      (use example_values(4) in \<open>simp_all add: no_interference_env fresh_sign_in_def\<close>)
  then show "reachable example_crypto 1000 (snd example_signed_in)"
    using example_values(1) by (auto simp: reachable_def)
qed

definition example_rotated :: auth_db where
  "example_rotated = snd (example_refresh example_refresh_draws (snd example_signed_in))"

definition example_reused :: auth_db where
  "example_reused = snd (example_refresh example_reuse_draws example_rotated)"

lemma example_rotation:
  "case example_refresh example_refresh_draws (snd example_signed_in) of (r, s) \<Rightarrow>
     is_ok r \<and> fresh_draw example_crypto s example_reuse_draws \<and>
     fst (example_refresh example_reuse_draws s) = Inl Refresh_Reuse_Detected \<and>
     map_option ds_family (row_at ds_token_hash (hash_credential example_crypto (random_token [1,2,3])) (db_sessions s)) = Some ''f'' \<and>
     list_ex (\<lambda>r. live_session 1000 r \<and> ds_family r = ''f'') (db_sessions s) \<and>
     map_option ds_family (row_at ds_token_hash (hash_credential example_crypto (random_token [1,2,3,4]))
       (db_sessions (snd (example_refresh example_reuse_draws s)))) = Some ''f''"
  by code_simp

lemma example_rotation_facts:
  "\<exists>toks. example_refresh example_refresh_draws (snd example_signed_in) = (Inr toks, example_rotated)"
  "fresh_draw example_crypto example_rotated example_reuse_draws"
  "example_refresh example_reuse_draws example_rotated = (Inl Refresh_Reuse_Detected, example_reused)"
  "\<exists>r \<in> set (db_sessions example_rotated). live_session 1000 r \<and> ds_family r = ''f''"
  "\<exists>p. row_at ds_token_hash (hash_credential example_crypto (random_token [1,2,3])) (db_sessions example_rotated) = Some p \<and> ds_family p = ''f''"
  "\<exists>r. row_at ds_token_hash (hash_credential example_crypto (random_token [1,2,3,4])) (db_sessions example_reused) = Some r \<and> ds_family r = ''f''"
  using example_rotation
  by (auto simp: split_beta is_ok_iff example_rotated_def example_reused_def prod_eq_iff list_ex_iff)

lemma example_rotated_reachable: "reachable example_crypto 1000 example_rotated"
proof -
  obtain t0 s0 where "auth_start s0" and run: "auth_run example_crypto {} t0 s0 1000 (snd example_signed_in)"
    using example_reachable(2) by (auto simp: reachable_def)
  moreover have "auth_run example_crypto {} t0 s0 1000 example_rotated"
    unfolding example_rotated_def example_refresh_def
    by (rule auth_run.step [OF run order.refl auth_at.refresh])
      (use example_tokens in \<open>auto simp: no_interference_env fresh_draw_def\<close>)
  ultimately show ?thesis by (auto simp: reachable_def)
qed






theorem issued_tokens_work_witness:
  "\<exists>toks toks2 s3. fst example_signed_in = Inr toks \<and>
     refresh_mobile_device_session example_crypto example_environment (\<lambda>n x. x) example_refresh_draws
       (st_refresh_token toks) 2000 (snd example_signed_in) = (Inr toks2, s3) \<and> st_user_id toks2 = st_user_id toks"
proof (rule example_tokens)
  fix toks
  assume t: "example_signed_in = (Inr toks, snd example_signed_in)" "fst example_signed_in = Inr toks" "length (st_access_token toks) \<le> 1024"
    "distinct (map mu_id (db_users (snd example_signed_in)))" "fresh_draw example_crypto (snd example_signed_in) example_refresh_draws"
  from issued_tokens_work [OF example_reachable(1) no_interference example_values(4) t(1) [unfolded example_signed_in_def]
      t(4) [unfolded example_signed_in_def] t(3), of 2000 example_refresh_draws] t(5)
  show ?thesis using t(2) unfolding example_signed_in_def by auto
qed

end
