(* ===== verification/Rate_Limit.thy ===== *)
theory Rate_Limit
  imports Mobile_Token Ip_Address
begin

text \<open>
  Request limits, \<open>src/lib/rate-limit.ts\<close>: fixed windows counted in Redis. The table of rules is the
  code's; the store is the part of Redis the script uses, a map from keys to counters that expire
  (\<open>INCR\<close>, \<open>PEXPIRE\<close>, \<open>PTTL\<close>). Requests that run at the same time interleave at the script calls
  (\<open>rate_step\<close>); a script call may fail or answer with something else. SHA-256 is the parameter \<open>cr\<close>.
\<close>

datatype subject_part = Account | Ip | Room_Id | Token | User_Id

datatype rate_action =
    Account_Export
  | Account_Deletion_Confirmation
  | Account_Deletion_Handoff
  | Account_Deletion_Confirmation_Request
  | Account_Deletion_Reauthentication
  | Admin_Opml_Import
  | Ai_Digest
  | Ai_Summary
  | Story_Cluster_Analysis
  | Chat_Authorization_Failure
  | Chat_Connection
  | Chat_Message
  | Chat_Malformed_Event
  | Chat_Moderation
  | Chat_Read_Marker
  | Chat_Report
  | Chat_Room_Subscribe
  | Chat_Room_Unsubscribe
  | Chat_Session_Token
  | Csp_Report
  | Csp_Report_Log
  | Feed_Discovery
  | Feedback
  | Image_Proxy
  | Login
  | Mobile_Device_Authorization
  | Mobile_Device_Authorization_Approval
  | Mobile_Device_Authorization_Approval_Prebody
  | Mobile_Api_Read
  | Mobile_Api_Write
  | Mobile_Token_Exchange
  | Mobile_Token_Exchange_Prebody
  | Mobile_Token_Refresh
  | Mobile_Token_Refresh_Prebody
  | Opml_Import
  | Podcast_Transcript
  | Password_Reset_Complete
  | Password_Reset_Request
  | Public_Health
  | Signup
  | Story_Cluster_Control
  | Story_Cluster_Evaluation
  | Verification_Resend

record rate_input =
  ri_action :: rate_action
  ri_identifier :: "subject_part \<Rightarrow> string option"

record rate_rule =
  rr_limit :: int
  rr_scope :: string
  rr_subject :: "rate_input \<Rightarrow> string option"
  rr_window_ms :: int

datatype rejection = Identifier_Unavailable | Limited | Unavailable

datatype rate_result =
    Allowed
  | Rejected rejection "int option" "string option"

subsection \<open>Subjects and keys\<close>

definition normalize_identifier :: "string option \<Rightarrow> string option" where
  "normalize_identifier v =
     (case v of
        None \<Rightarrow> None
      | Some s \<Rightarrow> let normalized = js_lower (js_trim s) in if normalized = [] then None else Some normalized)"

definition input_subject :: "subject_part \<Rightarrow> rate_input \<Rightarrow> string option" where
  "input_subject i q = normalize_identifier (ri_identifier q i)"

definition combined_subject :: "subject_part list \<Rightarrow> rate_input \<Rightarrow> string option" where
  "combined_subject is q =
     (let values = map (\<lambda>i. normalize_identifier (ri_identifier q i)) is
      in if list_all (\<lambda>v. v \<noteq> None) values then Some (js_join CHR '':'' (map the values)) else None)"

definition new_rule :: "int \<Rightarrow> string \<Rightarrow> (rate_input \<Rightarrow> string option) \<Rightarrow> int \<Rightarrow> rate_rule" where
  "new_rule limit scope subject window =
     \<lparr>rr_limit = limit, rr_scope = scope, rr_subject = subject, rr_window_ms = window\<rparr>"

fun rate_limit_rules :: "rate_action \<Rightarrow> rate_rule list" where
  "rate_limit_rules Account_Export =
     [new_rule 3 ''user'' (input_subject User_Id) (60 * 60000),
      new_rule 20 ''ip'' (input_subject Ip) (60 * 60000)]"
| "rate_limit_rules Account_Deletion_Confirmation =
     [new_rule 5 ''user'' (input_subject User_Id) (15 * 60000),
      new_rule 5 ''user-ip'' (combined_subject [User_Id, Ip]) (15 * 60000)]"
| "rate_limit_rules Account_Deletion_Handoff =
     [new_rule 10 ''ip'' (input_subject Ip) (15 * 60000),
      new_rule 5 ''token'' (input_subject Token) (15 * 60000)]"
| "rate_limit_rules Account_Deletion_Confirmation_Request =
     [new_rule 3 ''user'' (input_subject User_Id) (60 * 60000),
      new_rule 3 ''user-ip'' (combined_subject [User_Id, Ip]) (60 * 60000)]"
| "rate_limit_rules Account_Deletion_Reauthentication =
     [new_rule 5 ''user'' (input_subject User_Id) (15 * 60000),
      new_rule 5 ''user-ip'' (combined_subject [User_Id, Ip]) (15 * 60000)]"
| "rate_limit_rules Admin_Opml_Import =
     [new_rule 3 ''user'' (input_subject User_Id) (60 * 60000)]"
| "rate_limit_rules Ai_Digest =
     [new_rule 6 ''user'' (input_subject User_Id) (60 * 60000)]"
| "rate_limit_rules Ai_Summary =
     [new_rule 30 ''user'' (input_subject User_Id) (60 * 60000)]"
| "rate_limit_rules Story_Cluster_Analysis =
     [new_rule 6 ''user'' (input_subject User_Id) (60 * 60000)]"
| "rate_limit_rules Chat_Authorization_Failure =
     [new_rule 12 ''ip'' (input_subject Ip) (5 * 60000)]"
| "rate_limit_rules Chat_Connection =
     [new_rule 30 ''ip'' (input_subject Ip) (60000)]"
| "rate_limit_rules Chat_Message =
     [new_rule 30 ''user'' (input_subject User_Id) (60000),
      new_rule 12 ''user-room'' (combined_subject [User_Id, Room_Id]) (60000)]"
| "rate_limit_rules Chat_Malformed_Event =
     [new_rule 10 ''user'' (input_subject User_Id) (60000),
      new_rule 30 ''ip'' (input_subject Ip) (60000)]"
| "rate_limit_rules Chat_Moderation =
     [new_rule 30 ''user'' (input_subject User_Id) (60000)]"
| "rate_limit_rules Chat_Read_Marker =
     [new_rule 60 ''user'' (input_subject User_Id) (60000),
      new_rule 30 ''user-room'' (combined_subject [User_Id, Room_Id]) (60000)]"
| "rate_limit_rules Chat_Report =
     [new_rule 6 ''user'' (input_subject User_Id) (60 * 60000)]"
| "rate_limit_rules Chat_Room_Subscribe =
     [new_rule 30 ''user'' (input_subject User_Id) (60000),
      new_rule 10 ''user-room'' (combined_subject [User_Id, Room_Id]) (60000)]"
| "rate_limit_rules Chat_Room_Unsubscribe =
     [new_rule 30 ''user'' (input_subject User_Id) (60000)]"
| "rate_limit_rules Chat_Session_Token =
     [new_rule 20 ''user'' (input_subject User_Id) (5 * 60000),
      new_rule 60 ''ip'' (input_subject Ip) (5 * 60000)]"
| "rate_limit_rules Csp_Report =
     [new_rule 30 ''ip'' (input_subject Ip) (60000)]"
| "rate_limit_rules Csp_Report_Log =
     [new_rule 60 ''global'' (\<lambda>q. Some ''csp-report'') (60000)]"
| "rate_limit_rules Feed_Discovery =
     [new_rule 20 ''user'' (input_subject User_Id) (60 * 60000)]"
| "rate_limit_rules Feedback =
     [new_rule 8 ''user'' (input_subject User_Id) (24 * 60 * 60000)]"
| "rate_limit_rules Image_Proxy =
     [new_rule 120 ''ip'' (input_subject Ip) (5 * 60000)]"
| "rate_limit_rules Login =
     [new_rule 25 ''ip'' (input_subject Ip) (15 * 60000),
      new_rule 12 ''account'' (input_subject Account) (15 * 60000),
      new_rule 6 ''account-ip'' (combined_subject [Account, Ip]) (15 * 60000)]"
| "rate_limit_rules Mobile_Device_Authorization =
     [new_rule 20 ''user'' (input_subject User_Id) (60 * 60000),
      new_rule 60 ''ip'' (input_subject Ip) (60 * 60000)]"
| "rate_limit_rules Mobile_Device_Authorization_Approval =
     [new_rule 20 ''user'' (input_subject User_Id) (60 * 60000),
      new_rule 60 ''ip'' (input_subject Ip) (60 * 60000)]"
| "rate_limit_rules Mobile_Device_Authorization_Approval_Prebody =
     [new_rule 60 ''ip'' (input_subject Ip) (15 * 60000)]"
| "rate_limit_rules Mobile_Api_Read =
     [new_rule 600 ''user'' (input_subject User_Id) (60000),
      new_rule 900 ''ip'' (input_subject Ip) (60000)]"
| "rate_limit_rules Mobile_Api_Write =
     [new_rule 120 ''user'' (input_subject User_Id) (60000),
      new_rule 240 ''ip'' (input_subject Ip) (60000)]"
| "rate_limit_rules Mobile_Token_Exchange =
     [new_rule 10 ''token'' (input_subject Token) (15 * 60000)]"
| "rate_limit_rules Mobile_Token_Exchange_Prebody =
     [new_rule 60 ''ip'' (input_subject Ip) (15 * 60000)]"
| "rate_limit_rules Mobile_Token_Refresh =
     [new_rule 10 ''token'' (input_subject Token) (15 * 60000)]"
| "rate_limit_rules Mobile_Token_Refresh_Prebody =
     [new_rule 120 ''ip'' (input_subject Ip) (15 * 60000)]"
| "rate_limit_rules Opml_Import =
     [new_rule 6 ''user'' (input_subject User_Id) (60 * 60000)]"
| "rate_limit_rules Podcast_Transcript =
     [new_rule 12 ''user'' (input_subject User_Id) (5 * 60000),
      new_rule 30 ''ip'' (input_subject Ip) (5 * 60000)]"
| "rate_limit_rules Password_Reset_Complete =
     [new_rule 12 ''ip'' (input_subject Ip) (60 * 60000),
      new_rule 4 ''token'' (input_subject Token) (60 * 60000)]"
| "rate_limit_rules Password_Reset_Request =
     [new_rule 10 ''ip'' (input_subject Ip) (60 * 60000),
      new_rule 4 ''account'' (input_subject Account) (60 * 60000),
      new_rule 3 ''account-ip'' (combined_subject [Account, Ip]) (60 * 60000)]"
| "rate_limit_rules Public_Health =
     [new_rule 600 ''ip'' (input_subject Ip) (60000)]"
| "rate_limit_rules Signup =
     [new_rule 6 ''ip'' (input_subject Ip) (60 * 60000),
      new_rule 3 ''account'' (input_subject Account) (60 * 60000),
      new_rule 3 ''account-ip'' (combined_subject [Account, Ip]) (60 * 60000)]"
| "rate_limit_rules Story_Cluster_Control =
     [new_rule 30 ''user'' (input_subject User_Id) (60 * 60000)]"
| "rate_limit_rules Story_Cluster_Evaluation =
     [new_rule 30 ''user'' (input_subject User_Id) (60 * 60000)]"
| "rate_limit_rules Verification_Resend =
     [new_rule 3 ''user'' (input_subject User_Id) (60 * 60000)]"

fun action_name :: "rate_action \<Rightarrow> string" where
  "action_name Account_Export = ''account_export''"
| "action_name Account_Deletion_Confirmation = ''account_deletion_confirmation''"
| "action_name Account_Deletion_Handoff = ''account_deletion_handoff''"
| "action_name Account_Deletion_Confirmation_Request = ''account_deletion_confirmation_request''"
| "action_name Account_Deletion_Reauthentication = ''account_deletion_reauthentication''"
| "action_name Admin_Opml_Import = ''admin_opml_import''"
| "action_name Ai_Digest = ''ai_digest''"
| "action_name Ai_Summary = ''ai_summary''"
| "action_name Story_Cluster_Analysis = ''story_cluster_analysis''"
| "action_name Chat_Authorization_Failure = ''chat_authorization_failure''"
| "action_name Chat_Connection = ''chat_connection''"
| "action_name Chat_Message = ''chat_message''"
| "action_name Chat_Malformed_Event = ''chat_malformed_event''"
| "action_name Chat_Moderation = ''chat_moderation''"
| "action_name Chat_Read_Marker = ''chat_read_marker''"
| "action_name Chat_Report = ''chat_report''"
| "action_name Chat_Room_Subscribe = ''chat_room_subscribe''"
| "action_name Chat_Room_Unsubscribe = ''chat_room_unsubscribe''"
| "action_name Chat_Session_Token = ''chat_session_token''"
| "action_name Csp_Report = ''csp_report''"
| "action_name Csp_Report_Log = ''csp_report_log''"
| "action_name Feed_Discovery = ''feed_discovery''"
| "action_name Feedback = ''feedback''"
| "action_name Image_Proxy = ''image_proxy''"
| "action_name Login = ''login''"
| "action_name Mobile_Device_Authorization = ''mobile_device_authorization''"
| "action_name Mobile_Device_Authorization_Approval = ''mobile_device_authorization_approval''"
| "action_name Mobile_Device_Authorization_Approval_Prebody = ''mobile_device_authorization_approval_prebody''"
| "action_name Mobile_Api_Read = ''mobile_api_read''"
| "action_name Mobile_Api_Write = ''mobile_api_write''"
| "action_name Mobile_Token_Exchange = ''mobile_token_exchange''"
| "action_name Mobile_Token_Exchange_Prebody = ''mobile_token_exchange_prebody''"
| "action_name Mobile_Token_Refresh = ''mobile_token_refresh''"
| "action_name Mobile_Token_Refresh_Prebody = ''mobile_token_refresh_prebody''"
| "action_name Opml_Import = ''opml_import''"
| "action_name Podcast_Transcript = ''podcast_transcript''"
| "action_name Password_Reset_Complete = ''password_reset_complete''"
| "action_name Password_Reset_Request = ''password_reset_request''"
| "action_name Public_Health = ''public_health''"
| "action_name Signup = ''signup''"
| "action_name Story_Cluster_Control = ''story_cluster_control''"
| "action_name Story_Cluster_Evaluation = ''story_cluster_evaluation''"
| "action_name Verification_Resend = ''verification_resend''"

definition make_rate_limit_key :: "crypto \<Rightarrow> rate_action \<Rightarrow> string \<Rightarrow> string \<Rightarrow> string" where
  "make_rate_limit_key cr a scope subject =
     ''arctic-rss:rate-limit:v1'' @ '':'' @ action_name a @ '':'' @ scope @ '':'' @ hex_text (cr_sha256 cr subject)"

definition get_trusted_client_ip :: "string option \<Rightarrow> string option" where
  "get_trusted_client_ip header =
     (case map_option js_trim header of
        None \<Rightarrow> None
      | Some v \<Rightarrow> if v = [] \<or> net_is_ip v = 0 then None else Some (js_lower v))"

subsection \<open>The counters\<close>

record counter =
  ct_count :: int
  ct_expires_at :: time

type_synonym rate_store = "string \<Rightarrow> counter option"

text \<open>A key whose time is over does not exist any more.\<close>

definition live_counter :: "time \<Rightarrow> string \<Rightarrow> rate_store \<Rightarrow> counter option" where
  "live_counter now k s = (case s k of None \<Rightarrow> None | Some c \<Rightarrow> if now < ct_expires_at c then Some c else None)"

datatype script_reply = Integers "int list" | Other_Reply

definition increment_with_expiry :: "time \<Rightarrow> string \<Rightarrow> int \<Rightarrow> rate_store \<Rightarrow> script_reply \<times> rate_store" where
  "increment_with_expiry now k window s =
     (let c = (case live_counter now k s of
                 None \<Rightarrow> \<lparr>ct_count = 1, ct_expires_at = now + window\<rparr>
               | Some c \<Rightarrow> c\<lparr>ct_count := ct_count c + 1\<rparr>)
      in (Integers [ct_count c, ct_expires_at c - now], s(k \<mapsto> c)))"

definition parse_counter_result :: "script_reply \<Rightarrow> (int \<times> int) option" where
  "parse_counter_result r = (case r of Integers [n, ttl] \<Rightarrow> Some (n, ttl) | _ \<Rightarrow> None)"

text \<open>A call that goes wrong: the connection fails before or after the script ran, or the reply is not one of the script.\<close>

datatype fault = No_Fault | Fault_Before | Fault_After | Fault_Reply

definition eval_script :: "fault \<Rightarrow> time \<Rightarrow> string \<Rightarrow> int \<Rightarrow> rate_store \<Rightarrow> script_reply option \<times> rate_store" where
  "eval_script f now k window s =
     (let (r, s') = increment_with_expiry now k window s
      in case f of
           No_Fault \<Rightarrow> (Some r, s')
         | Fault_Before \<Rightarrow> (None, s)
         | Fault_After \<Rightarrow> (None, s')
         | Fault_Reply \<Rightarrow> (Some Other_Reply, s'))"

subsection \<open>Enforcement\<close>

definition applicable_rules :: "rate_input \<Rightarrow> (rate_rule \<times> string) list" where
  "applicable_rules q =
     map (\<lambda>r. (r, the (rr_subject r q)))
       (filter (\<lambda>r. rr_subject r q \<noteq> None \<and> rr_subject r q \<noteq> Some []) (rate_limit_rules (ri_action q)))"

definition retry_after_seconds :: "int \<Rightarrow> int" where
  "retry_after_seconds ttl = max 1 (- ((- ttl) div 1000))"

text \<open>One turn of the loop: the result when it ends here.\<close>

definition check_rule ::
  "crypto \<Rightarrow> rate_action \<Rightarrow> fault \<Rightarrow> time \<Rightarrow> rate_rule \<times> string \<Rightarrow> rate_store \<Rightarrow> rate_result option \<times> rate_store" where
  "check_rule cr a f now rs s =
     (case eval_script f now (make_rate_limit_key cr a (rr_scope (fst rs)) (snd rs)) (rr_window_ms (fst rs)) s of
        (reply, s') \<Rightarrow>
          (case Option.bind reply parse_counter_result of
             None \<Rightarrow> (Some (Rejected Unavailable None None), s')
           | Some (n, ttl) \<Rightarrow>
               if rr_limit (fst rs) < n
               then (Some (Rejected Limited (Some (retry_after_seconds ttl)) (Some (rr_scope (fst rs)))), s')
               else (None, s')))"

text \<open>The \<open>n\<close>-th call happens at \<open>clock n\<close> and meets \<open>faults n\<close>.\<close>

fun check_rules ::
  "crypto \<Rightarrow> rate_action \<Rightarrow> (nat \<Rightarrow> fault) \<Rightarrow> (nat \<Rightarrow> time) \<Rightarrow> nat \<Rightarrow> (rate_rule \<times> string) list \<Rightarrow> rate_store \<Rightarrow>
   rate_result \<times> rate_store" where
  "check_rules cr a faults clock n [] s = (Allowed, s)"
| "check_rules cr a faults clock n (rs # rest) s =
     (case check_rule cr a (faults n) (clock n) rs s of
        (Some result, s') \<Rightarrow> (result, s')
      | (None, s') \<Rightarrow> check_rules cr a faults clock (n + 1) rest s')"

definition enforce_rate_limit ::
  "crypto \<Rightarrow> (nat \<Rightarrow> fault) \<Rightarrow> (nat \<Rightarrow> time) \<Rightarrow> rate_input \<Rightarrow> rate_store \<Rightarrow> rate_result \<times> rate_store" where
  "enforce_rate_limit cr faults clock q s =
     (if applicable_rules q = [] then (Rejected Identifier_Unavailable None None, s)
      else check_rules cr (ri_action q) faults clock 0 (applicable_rules q) s)"

definition all_actions :: "rate_action list" where
  "all_actions = [Account_Export,
     Account_Deletion_Confirmation,
     Account_Deletion_Handoff,
     Account_Deletion_Confirmation_Request,
     Account_Deletion_Reauthentication,
     Admin_Opml_Import,
     Ai_Digest,
     Ai_Summary,
     Story_Cluster_Analysis,
     Chat_Authorization_Failure,
     Chat_Connection,
     Chat_Message,
     Chat_Malformed_Event,
     Chat_Moderation,
     Chat_Read_Marker,
     Chat_Report,
     Chat_Room_Subscribe,
     Chat_Room_Unsubscribe,
     Chat_Session_Token,
     Csp_Report,
     Csp_Report_Log,
     Feed_Discovery,
     Feedback,
     Image_Proxy,
     Login,
     Mobile_Device_Authorization,
     Mobile_Device_Authorization_Approval,
     Mobile_Device_Authorization_Approval_Prebody,
     Mobile_Api_Read,
     Mobile_Api_Write,
     Mobile_Token_Exchange,
     Mobile_Token_Exchange_Prebody,
     Mobile_Token_Refresh,
     Mobile_Token_Refresh_Prebody,
     Opml_Import,
     Podcast_Transcript,
     Password_Reset_Complete,
     Password_Reset_Request,
     Public_Health,
     Signup,
     Story_Cluster_Control,
     Story_Cluster_Evaluation,
     Verification_Resend]"

lemma all_actions: "a \<in> set all_actions"
  by (cases a) (simp_all add: all_actions_def)

text \<open>A request without an identifier, or whose counter cannot be read, is refused.\<close>

lemma enforce_unavailable:
  "applicable_rules q = [] \<Longrightarrow> enforce_rate_limit cr faults clock q s = (Rejected Identifier_Unavailable None None, s)"
  "fst (check_rule cr a Fault_Before now rs s) = Some (Rejected Unavailable None None)"
  "fst (check_rule cr a Fault_After now rs s) = Some (Rejected Unavailable None None)"
  "fst (check_rule cr a Fault_Reply now rs s) = Some (Rejected Unavailable None None)"
  by (simp_all add: enforce_rate_limit_def check_rule_def eval_script_def split_beta parse_counter_result_def)

subsection \<open>Requests that run at the same time\<close>

text \<open>Every script call that ran: when, for which request, on which key; the count it returned and the
  time its counter started.\<close>

record rate_entry =
  re_time :: time
  re_request :: nat
  re_key :: string
  re_count :: int
  re_start :: time

record rate_state =
  rs_store :: rate_store
  rs_pending :: "nat \<Rightarrow> (rate_rule \<times> string) list"
  rs_results :: "nat \<Rightarrow> rate_result option"
  rs_log :: "rate_entry list"

definition rate_start :: "(nat \<Rightarrow> rate_input) \<Rightarrow> rate_state" where
  "rate_start inputs =
     \<lparr>rs_store = (\<lambda>k. None), rs_pending = (\<lambda>i. applicable_rules (inputs i)),
      rs_results = (\<lambda>i. if applicable_rules (inputs i) = [] then Some (Rejected Identifier_Unavailable None None) else None),
      rs_log = []\<rparr>"

definition log_entry :: "time \<Rightarrow> nat \<Rightarrow> string \<Rightarrow> int \<Rightarrow> rate_store \<Rightarrow> rate_entry" where
  "log_entry now i k window s' =
     \<lparr>re_time = now, re_request = i, re_key = k, re_count = ct_count (the (s' k)),
      re_start = ct_expires_at (the (s' k)) - window\<rparr>"

text \<open>Request \<open>i\<close> makes its next script call.\<close>

definition rate_step :: "crypto \<Rightarrow> (nat \<Rightarrow> rate_input) \<Rightarrow> time \<times> nat \<times> fault \<Rightarrow> rate_state \<Rightarrow> rate_state" where
  "rate_step cr inputs call st =
     (case call of (now, i, f) \<Rightarrow>
        (case rs_pending st i of
           [] \<Rightarrow> st
         | rs # rest \<Rightarrow>
             (case check_rule cr (ri_action (inputs i)) f now rs (rs_store st) of
                (res, s') \<Rightarrow>
                  \<lparr>rs_store = s',
                   rs_pending = (rs_pending st)(i := if res = None then rest else []),
                   rs_results = (rs_results st)(i := if res = None \<and> rest = [] then Some Allowed else res),
                   rs_log = rs_log st @ (if f = Fault_Before then [] else
                     [log_entry now i (make_rate_limit_key cr (ri_action (inputs i)) (rr_scope (fst rs)) (snd rs))
                        (rr_window_ms (fst rs)) s'])\<rparr>)))"

definition rate_run :: "crypto \<Rightarrow> (nat \<Rightarrow> rate_input) \<Rightarrow> (time \<times> nat \<times> fault) list \<Rightarrow> rate_state" where
  "rate_run cr inputs calls = fold (rate_step cr inputs) calls (rate_start inputs)"

text \<open>A request that runs alone gets what \<open>enforceRateLimit\<close> returns.\<close>

lemma rate_run_alone:
  assumes "rs_pending st i = rules" "rules \<noteq> []" "ri_action (inputs i) = a"
  shows "let st' = fold (rate_step cr inputs) (map (\<lambda>m. (clock m, i, faults m)) [n ..< n + length rules]) st
    in (the (rs_results st' i), rs_store st') = check_rules cr a faults clock n rules (rs_store st) \<and> rs_results st' i \<noteq> None"
  using assms
proof (induction rules arbitrary: st n)
  case (Cons rs rest)
  have finished: "fold (rate_step cr inputs) (map (\<lambda>m. (clock m, i, faults m)) ms) st' = st'" if "rs_pending st' i = []" for st' ms
    using that by (induction ms) (simp_all add: rate_step_def)
  obtain res s' where c: "check_rule cr a (faults n) (clock n) rs (rs_store st) = (res, s')" by fastforce
  define st1 where "st1 = rate_step cr inputs (clock n, i, faults n) st"
  have st1: "rs_store st1 = s'" "rs_pending st1 i = (if res = None then rest else [])"
    "rs_results st1 i = (if res = None \<and> rest = [] then Some Allowed else res)"
    using Cons.prems c by (simp_all add: st1_def rate_step_def)
  have upt: "[n ..< n + length (rs # rest)] = n # [Suc n ..< Suc n + length rest]" by (simp add: upt_rec)
  have fold: "fold (rate_step cr inputs) (map (\<lambda>m. (clock m, i, faults m)) [n ..< n + length (rs # rest)]) st =
    fold (rate_step cr inputs) (map (\<lambda>m. (clock m, i, faults m)) [Suc n ..< Suc n + length rest]) st1"
    unfolding upt by (simp add: st1_def)
  show ?case
  proof (cases "res = None \<and> rest \<noteq> []")
    case True
    then show ?thesis using Cons.IH [of st1 "Suc n"] st1 c Cons.prems(3) unfolding fold by simp
  next
    case False
    then have "rs_pending st1 i = []" using st1(2) by auto
    then show ?thesis using False st1 c unfolding fold finished [OF \<open>rs_pending st1 i = []\<close>] by (cases res) auto
  qed
qed simp

subsection \<open>Keys determine the rule's window\<close>

definition action_window :: "rate_action \<Rightarrow> int" where
  "action_window a = rr_window_ms (hd (rate_limit_rules a))"

lemma rule_facts: "r \<in> set (rate_limit_rules a) \<Longrightarrow> rr_window_ms r = action_window a \<and> 0 < action_window a \<and> 0 < rr_limit r"
  by (cases a) (auto simp: action_window_def new_rule_def)

lemma action_name_no_colon: "CHR '':'' \<notin> set (action_name a)"
  by (cases a) simp_all

lemma action_name_inj: "action_name a = action_name b \<Longrightarrow> a = b"
proof -
  assume eq: "action_name a = action_name b"
  have "distinct (map action_name all_actions)" by code_simp
  then show "a = b" using eq all_actions [of a] all_actions [of b] by (auto simp: distinct_map dest: inj_onD)
qed

lemma takeWhile_sep: "d \<notin> set w \<Longrightarrow> takeWhile (\<lambda>c. c \<noteq> d) (w @ d # u) = w"
  by (induction w) auto

lemma key_action:
  assumes "make_rate_limit_key cr a scope x = make_rate_limit_key cr b scope' x'"
  shows "a = b"
proof -
  have "action_name a @ CHR '':'' # scope @ '':'' @ hex_text (cr_sha256 cr x) = action_name b @ CHR '':'' # scope' @ '':'' @ hex_text (cr_sha256 cr x')"
    using assms by (simp add: make_rate_limit_key_def)
  from arg_cong [OF this, of "takeWhile (\<lambda>c. c \<noteq> CHR '':'')"] have "action_name a = action_name b"
    by (simp only: takeWhile_sep [OF action_name_no_colon])
  then show ?thesis by (rule action_name_inj)
qed

subsection \<open>The windows of one key\<close>

text \<open>What the calls on a key \<open>k\<close> with window \<open>w\<close> leave: counters start at least \<open>w\<close> apart, and no
  counter returns a number twice.\<close>

definition on_key :: "string \<Rightarrow> rate_entry list \<Rightarrow> rate_entry list" where
  "on_key k entries = filter (\<lambda>e. re_key e = k) entries"

definition windows_ok :: "int \<Rightarrow> time \<Rightarrow> rate_entry list \<Rightarrow> counter option \<Rightarrow> bool" where
  "windows_ok w now E c \<longleftrightarrow>
     distinct (map (\<lambda>e. (re_start e, re_count e)) E) \<and>
     (\<forall>e \<in> set E. 1 \<le> re_count e \<and> re_start e \<le> re_time e \<and> re_time e < re_start e + w \<and> re_time e \<le> now) \<and>
     (\<forall>e \<in> set E. \<forall>e' \<in> set E. re_start e < re_start e' \<longrightarrow> re_start e + w \<le> re_start e') \<and>
     (case c of
        None \<Rightarrow> E = []
      | Some c \<Rightarrow> 1 \<le> ct_count c \<and> ct_expires_at c - w \<le> now \<and>
          (\<forall>e \<in> set E. re_start e + w \<le> ct_expires_at c \<and> (re_start e = ct_expires_at c - w \<longrightarrow> re_count e \<le> ct_count c) \<and>
             (re_start e < ct_expires_at c - w \<longrightarrow> re_start e + w \<le> ct_expires_at c - w)))"

lemma windows_ok_later: "windows_ok w now E c \<Longrightarrow> now \<le> now' \<Longrightarrow> windows_ok w now' E c"
  unfolding windows_ok_def by (fastforce split: option.splits)

lemma windows_ok_call:
  assumes ok: "windows_ok w now E (s k)" and w: "0 < w" and s': "s' = snd (increment_with_expiry now k w s)"
    and e: "e = log_entry now i k w s'"
  shows "windows_ok w now (E @ [e]) (s' k)"
proof (cases "live_counter now k s")
  case None
  then have c: "s' k = Some \<lparr>ct_count = 1, ct_expires_at = now + w\<rparr>" using s' by (simp add: increment_with_expiry_def)
  have ends: "re_start x + w \<le> now" if "x \<in> set E" for x
    using ok that None unfolding windows_ok_def live_counter_def by (force split: option.splits if_splits)
  have en: "re_start e = now" "re_count e = 1" "re_time e = now" by (simp_all add: e log_entry_def c)
  show ?thesis using ok w ends unfolding windows_ok_def c
    by (auto simp: en) (use w in \<open>fastforce\<close>)+
next
  case (Some c0)
  then have s0: "s k = Some c0" "now < ct_expires_at c0" by (auto simp: live_counter_def split: option.splits if_splits)
  have c: "s' k = Some (c0\<lparr>ct_count := ct_count c0 + 1\<rparr>)" using s' Some by (simp add: increment_with_expiry_def)
  have en: "re_start e = ct_expires_at c0 - w" "re_count e = ct_count c0 + 1" "re_time e = now" by (simp_all add: e log_entry_def c)
  have old: "1 \<le> ct_count c0" "ct_expires_at c0 - w \<le> now"
    "x \<in> set E \<Longrightarrow> re_start x + w \<le> ct_expires_at c0 \<and> (re_start x = ct_expires_at c0 - w \<longrightarrow> re_count x \<le> ct_count c0) \<and>
       (re_start x < ct_expires_at c0 - w \<longrightarrow> re_start x + w \<le> ct_expires_at c0 - w)" for x
    using ok by (simp_all add: windows_ok_def s0(1))
  have new: "(re_start e, re_count e) \<notin> (\<lambda>x. (re_start x, re_count x)) ` set E" using old(3) en by fastforce
  have spaced: "(re_start x < re_start e \<longrightarrow> re_start x + w \<le> re_start e) \<and> \<not> re_start e < re_start x" if "x \<in> set E" for x
    using old(3) [OF that] en(1) by auto
  have E: "distinct (map (\<lambda>e. (re_start e, re_count e)) E)"
    "\<forall>x \<in> set E. 1 \<le> re_count x \<and> re_start x \<le> re_time x \<and> re_time x < re_start x + w \<and> re_time x \<le> now"
    "\<forall>x \<in> set E. \<forall>y \<in> set E. re_start x < re_start y \<longrightarrow> re_start x + w \<le> re_start y"
    using ok by (simp_all add: windows_ok_def)
  show ?thesis unfolding windows_ok_def c option.case
  proof (intro conjI)
    show "distinct (map (\<lambda>e. (re_start e, re_count e)) (E @ [e]))" using E(1) new by simp
    show "\<forall>x \<in> set (E @ [e]). 1 \<le> re_count x \<and> re_start x \<le> re_time x \<and> re_time x < re_start x + w \<and> re_time x \<le> now"
      using E(2) old(1,2) s0(2) en by simp
    show "\<forall>x \<in> set (E @ [e]). \<forall>y \<in> set (E @ [e]). re_start x < re_start y \<longrightarrow> re_start x + w \<le> re_start y"
      using E(3) spaced by simp
    show "\<forall>x \<in> set (E @ [e]). re_start x + w \<le> ct_expires_at (c0\<lparr>ct_count := ct_count c0 + 1\<rparr>) \<and>
       (re_start x = ct_expires_at (c0\<lparr>ct_count := ct_count c0 + 1\<rparr>) - w \<longrightarrow> re_count x \<le> ct_count (c0\<lparr>ct_count := ct_count c0 + 1\<rparr>)) \<and>
       (re_start x < ct_expires_at (c0\<lparr>ct_count := ct_count c0 + 1\<rparr>) - w \<longrightarrow> re_start x + w \<le> ct_expires_at (c0\<lparr>ct_count := ct_count c0 + 1\<rparr>) - w)"
      using old(3) en by fastforce
  qed (use old(1,2) in simp_all)
qed

lemma card_no_three:
  fixes A :: "int set"
  assumes "finite A" and three: "\<And>a b c. a \<in> A \<Longrightarrow> b \<in> A \<Longrightarrow> c \<in> A \<Longrightarrow> a < b \<Longrightarrow> b < c \<Longrightarrow> False"
  shows "card A \<le> 2"
proof (cases "A = {}")
  case False
  then have m: "Min A \<in> A" "Max A \<in> A" using assms(1) by simp_all
  have "x = Min A \<or> x = Max A" if "x \<in> A" for x
    using three [OF m(1) that m(2)] Min_le [OF assms(1) that] Max_ge [OF assms(1) that] by force
  then have "A \<subseteq> {Min A, Max A}" by auto
  then have "card A \<le> card {Min A, Max A}" by (intro card_mono) auto
  also have "\<dots> \<le> 2" by (simp add: card_insert_if)
  finally show ?thesis .
qed simp

lemma requests_bound:
  assumes ok: "windows_ok w now E c" and "0 \<le> L"
    and X: "X \<subseteq> {e \<in> set E. re_count e \<le> L}" and starts: "finite (re_start ` X)" "card (re_start ` X) \<le> n"
  shows "card (re_request ` X) \<le> n * nat L"
proof -
  have fin: "finite X" using X by (rule finite_subset) simp
  have inj: "inj_on (\<lambda>e. (re_start e, re_count e)) X"
    using ok X by (auto simp: windows_ok_def distinct_map elim: inj_on_subset)
  have sub: "(\<lambda>e. (re_start e, re_count e)) ` X \<subseteq> re_start ` X \<times> {1..L}"
    using ok X by (auto simp: windows_ok_def)
  have "card (re_request ` X) \<le> card X" using fin by (rule card_image_le)
  also have "\<dots> = card ((\<lambda>e. (re_start e, re_count e)) ` X)" using inj by (simp add: card_image)
  also have "\<dots> \<le> card (re_start ` X \<times> {1..L})" using sub starts(1) by (intro card_mono) auto
  also have "\<dots> = card (re_start ` X) * nat L" by (simp add: card_cartesian_product)
  also have "\<dots> \<le> n * nat L" using starts(2) by simp
  finally show ?thesis .
qed

lemma window_starts:
  assumes ok: "windows_ok w now E c"
  shows "card (re_start ` {e \<in> set E. t \<le> re_time e \<and> re_time e < t + w}) \<le> 2"
proof (rule card_no_three)
  let ?A = "re_start ` {e \<in> set E. t \<le> re_time e \<and> re_time e < t + w}"
  have range: "t - w < a \<and> a < t + w" if "a \<in> ?A" for a
    using ok that by (force simp: windows_ok_def)
  have spaced: "a + w \<le> b" if "a \<in> ?A" "b \<in> ?A" "a < b" for a b
    using ok that by (auto simp: windows_ok_def)
  show "False" if "a \<in> ?A" "b \<in> ?A" "c' \<in> ?A" "a < b" "b < c'" for a b c'
    using range [OF that(1)] range [OF that(3)] spaced [OF that(1,2,4)] spaced [OF that(2,3,5)] by linarith
qed simp

text \<open>The invariant of a run.\<close>

definition logged :: "crypto \<Rightarrow> (nat \<Rightarrow> rate_input) \<Rightarrow> rate_entry list \<Rightarrow> nat \<Rightarrow> rate_rule \<times> string \<Rightarrow> bool" where
  "logged cr inputs entries i rs \<longleftrightarrow>
     (\<exists>e \<in> set entries. re_request e = i \<and> re_count e \<le> rr_limit (fst rs) \<and>
        re_key e = make_rate_limit_key cr (ri_action (inputs i)) (rr_scope (fst rs)) (snd rs))"

definition request_ok :: "crypto \<Rightarrow> (nat \<Rightarrow> rate_input) \<Rightarrow> rate_state \<Rightarrow> nat \<Rightarrow> bool" where
  "request_ok cr inputs st i \<longleftrightarrow>
     set (rs_pending st i) \<subseteq> set (applicable_rules (inputs i)) \<and>
     (rs_pending st i \<noteq> [] \<longrightarrow> rs_results st i = None) \<and>
     (rs_results st i \<in> {None, Some Allowed} \<longrightarrow>
        (\<forall>rs \<in> set (applicable_rules (inputs i)). rs \<in> set (rs_pending st i) \<or> logged cr inputs (rs_log st) i rs)) \<and>
     (rs_results st i = Some Allowed \<longrightarrow> rs_pending st i = [])"

definition keys_ok :: "crypto \<Rightarrow> time \<Rightarrow> rate_state \<Rightarrow> bool" where
  "keys_ok cr now st \<longleftrightarrow>
     (\<forall>a scope x. windows_ok (action_window a) now (on_key (make_rate_limit_key cr a scope x) (rs_log st))
        (rs_store st (make_rate_limit_key cr a scope x)))"

lemma rate_start_ok: "request_ok cr inputs (rate_start inputs) i" "keys_ok cr now (rate_start inputs)"
  by (simp_all add: request_ok_def rate_start_def keys_ok_def windows_ok_def on_key_def)

lemma applicable_rule: "rs \<in> set (applicable_rules q) \<Longrightarrow> fst rs \<in> set (rate_limit_rules (ri_action q)) \<and> rr_subject (fst rs) q = Some (snd rs)"
  by (auto simp: applicable_rules_def)

lemma check_rule_store:
  assumes "check_rule cr a f now rs s = (res, s')"
  shows "s' = (if f = Fault_Before then s
    else snd (increment_with_expiry now (make_rate_limit_key cr a (rr_scope (fst rs)) (snd rs)) (rr_window_ms (fst rs)) s))"
  using assms by (cases f) (auto simp: check_rule_def eval_script_def split_beta split: option.splits if_splits)

lemma rate_step_keys:
  assumes "keys_ok cr now st" "request_ok cr inputs st i" "now \<le> now'"
  shows "keys_ok cr now' (rate_step cr inputs (now', i, f) st)"
proof (cases "rs_pending st i")
  case Nil
  then show ?thesis using assms(1,3) by (auto simp: rate_step_def keys_ok_def intro: windows_ok_later)
next
  case (Cons rs rest)
  obtain res s' where c: "check_rule cr (ri_action (inputs i)) f now' rs (rs_store st) = (res, s')" by fastforce
  define k where "k = make_rate_limit_key cr (ri_action (inputs i)) (rr_scope (fst rs)) (snd rs)"
  have rule: "rr_window_ms (fst rs) = action_window (ri_action (inputs i))" "0 < action_window (ri_action (inputs i))"
    using applicable_rule [of rs "inputs i"] rule_facts [of "fst rs"] assms(2) Cons by (simp_all add: request_ok_def)
  note s' = check_rule_store [OF c, folded k_def]
  show ?thesis unfolding keys_ok_def
  proof (intro allI)
    fix a scope x
    let ?k = "make_rate_limit_key cr a scope x"
    have old: "windows_ok (action_window a) now' (on_key ?k (rs_log st)) (rs_store st ?k)"
      using assms(1,3) by (auto simp: keys_ok_def intro: windows_ok_later)
    show "windows_ok (action_window a) now' (on_key ?k (rs_log (rate_step cr inputs (now', i, f) st)))
        (rs_store (rate_step cr inputs (now', i, f) st) ?k)"
    proof (cases "f = Fault_Before \<or> k \<noteq> ?k")
      case True
      then have "s' ?k = rs_store st ?k" using s' by (auto simp: increment_with_expiry_def Let_def)
      then show ?thesis using True old c Cons k_def by (auto simp: rate_step_def on_key_def log_entry_def)
    next
      case False
      then have "make_rate_limit_key cr (ri_action (inputs i)) (rr_scope (fst rs)) (snd rs) = ?k" by (simp add: k_def)
      then have "ri_action (inputs i) = a" by (rule key_action)
      then have a: "action_window a = action_window (ri_action (inputs i))" by simp
      have "windows_ok (action_window a) now' (on_key ?k (rs_log st) @ [log_entry now' i ?k (action_window a) s']) (s' ?k)"
        by (rule windows_ok_call [where s = "rs_store st"]) (use old rule False s' a in simp_all)
      then show ?thesis using False c Cons rule(1) a by (simp add: rate_step_def on_key_def log_entry_def k_def)
    qed
  qed
qed

lemma rate_step_request:
  assumes "request_ok cr inputs st j"
  shows "request_ok cr inputs (rate_step cr inputs (now, i, f) st) j"
proof (cases "rs_pending st i")
  case Nil
  then show ?thesis using assms by (simp add: rate_step_def)
next
  case (Cons rs rest)
  obtain res s' where c: "check_rule cr (ri_action (inputs i)) f now rs (rs_store st) = (res, s')" by fastforce
  define k where "k = make_rate_limit_key cr (ri_action (inputs i)) (rr_scope (fst rs)) (snd rs)"
  define st' where "st' = rate_step cr inputs (now, i, f) st"
  define new where "new = (if f = Fault_Before then [] else [log_entry now i k (rr_window_ms (fst rs)) s'])"
  have st': "rs_pending st' = (rs_pending st)(i := if res = None then rest else [])"
    "rs_results st' = (rs_results st)(i := if res = None \<and> rest = [] then Some Allowed else res)"
    "rs_log st' = rs_log st @ new"
    using Cons c by (simp_all add: st'_def rate_step_def k_def new_def)
  have mono: "logged cr inputs (rs_log st) j x \<Longrightarrow> logged cr inputs (rs_log st') j x" for x
    by (auto simp: logged_def st'(3))
  have res: "res \<noteq> Some Allowed" using c by (auto simp: check_rule_def split: prod.splits option.splits if_splits)
  show ?thesis
  proof (cases "j = i")
    case False
    then show ?thesis using assms mono unfolding st'_def [symmetric] request_ok_def st' by auto
  next
    case True
    have here: "logged cr inputs (rs_log st') i rs" if "res = None"
    proof -
      have f: "f = No_Fault" using that c by (cases f) (auto simp: check_rule_def eval_script_def parse_counter_result_def split_beta)
      obtain reply t where e: "increment_with_expiry now k (rr_window_ms (fst rs)) (rs_store st) = (reply, t)" by fastforce
      have t: "s' = t" "reply = Integers [ct_count (the (t k)), ct_expires_at (the (t k)) - now]"
        using e c f by (auto simp: check_rule_def eval_script_def increment_with_expiry_def Let_def k_def split: option.splits if_splits)
      then have "ct_count (the (s' k)) \<le> rr_limit (fst rs)"
        using c f e that by (simp add: check_rule_def eval_script_def k_def parse_counter_result_def split: if_splits)
      then show ?thesis using f by (simp add: logged_def st'(3) new_def log_entry_def k_def)
    qed
    have ok: "set (rs # rest) \<subseteq> set (applicable_rules (inputs i))" "rs_results st i = None"
      "\<forall>x \<in> set (applicable_rules (inputs i)). x \<in> set (rs # rest) \<or> logged cr inputs (rs_log st) i x"
      using assms True Cons by (simp_all add: request_ok_def)
    have "x \<in> set rest \<or> logged cr inputs (rs_log st') i x" if "res = None" "x \<in> set (applicable_rules (inputs i))" for x
    proof -
      have "x = rs \<or> x \<in> set rest \<or> logged cr inputs (rs_log st) i x" using ok(3) that(2) by auto
      then show ?thesis
      proof (elim disjE)
        assume "x = rs" then show ?thesis using here that(1) by simp
      next
        assume "x \<in> set rest" then show ?thesis ..
      next
        assume "logged cr inputs (rs_log st) i x" then show ?thesis using mono [of x] True by simp
      qed
    qed
    then show ?thesis unfolding st'_def [symmetric] request_ok_def st' using ok(1) True res by (cases res; cases rest) auto
  qed
qed

lemma rate_run_ok:
  assumes "sorted (map fst calls)" "st = rate_run cr inputs calls"
  shows "request_ok cr inputs st i \<and> (\<exists>now. keys_ok cr now st)"
proof -
  have "(\<forall>i. request_ok cr inputs (rate_run cr inputs calls) i) \<and>
    keys_ok cr (if calls = [] then 0 else fst (last calls)) (rate_run cr inputs calls)"
    using assms(1)
  proof (induction calls rule: rev_induct)
    case Nil
    then show ?case using rate_start_ok by (simp add: rate_run_def)
  next
    case (snoc c calls)
    obtain now i f where c: "c = (now, i, f)" by (cases c) auto
    define st0 where "st0 = rate_run cr inputs calls"
    have IH: "\<forall>i. request_ok cr inputs st0 i" "keys_ok cr (if calls = [] then 0 else fst (last calls)) st0"
      using snoc by (simp_all add: sorted_append st0_def)
    have run: "rate_run cr inputs (calls @ [c]) = rate_step cr inputs (now, i, f) st0" by (simp add: rate_run_def st0_def c)
    have "keys_ok cr now (rate_step cr inputs (now, i, f) st0)"
    proof (cases "calls = []")
      case True
      then have "st0 = rate_start inputs" by (simp add: st0_def rate_run_def)
      then show ?thesis using rate_step_keys [of cr now st0 inputs i now f] rate_start_ok IH(1) by simp
    next
      case False
      then have "fst (last calls) \<le> now" using snoc.prems c by (simp add: sorted_append)
      then show ?thesis using rate_step_keys [of cr "fst (last calls)" st0 inputs i now f] IH False by simp
    qed
    moreover have "request_ok cr inputs (rate_step cr inputs (now, i, f) st0) j" for j
      by (rule rate_step_request [OF IH(1) [rule_format]])
    ultimately show ?case unfolding run by (simp add: c)
  qed
  then show ?thesis using assms(2) by blast
qed

subsection \<open>The limit\<close>

definition requests_admitted ::
  "crypto \<Rightarrow> (nat \<Rightarrow> rate_input) \<Rightarrow> rate_state \<Rightarrow> rate_action \<Rightarrow> rate_rule \<Rightarrow> string \<Rightarrow> (rate_entry \<Rightarrow> bool) \<Rightarrow> nat set" where
  "requests_admitted cr inputs st a r x p =
     {i. rs_results st i = Some Allowed \<and> ri_action (inputs i) = a \<and> rr_subject r (inputs i) = Some x \<and>
        (\<forall>e \<in> set (rs_log st). re_request e = i \<and> re_key e = make_rate_limit_key cr a (rr_scope r) x \<longrightarrow> p e)}"

lemma admitted_bound:
  assumes run: "sorted (map fst calls)" "st = rate_run cr inputs calls"
    and r: "r \<in> set (rate_limit_rules a)" "x \<noteq> []"
    and starts: "\<And>now E c. windows_ok (action_window a) now E c \<Longrightarrow> card (re_start ` {e \<in> set E. p e}) \<le> n"
  shows "finite (requests_admitted cr inputs st a r x p)"
    "card (requests_admitted cr inputs st a r x p) \<le> n * nat (rr_limit r)"
proof -
  let ?k = "make_rate_limit_key cr a (rr_scope r) x"
  define X where "X = {e \<in> set (on_key ?k (rs_log st)). re_count e \<le> rr_limit r \<and> p e}"
  obtain now where keys: "keys_ok cr now st" using rate_run_ok [OF run] by blast
  have ok: "windows_ok (action_window a) now (on_key ?k (rs_log st)) (rs_store st ?k)" using keys by (simp add: keys_ok_def)
  have "requests_admitted cr inputs st a r x p \<subseteq> re_request ` X"
  proof
    fix i assume i: "i \<in> requests_admitted cr inputs st a r x p"
    then have q: "rs_results st i = Some Allowed" "ri_action (inputs i) = a" "rr_subject r (inputs i) = Some x" by (simp_all add: requests_admitted_def)
    then have app: "(r, x) \<in> set (applicable_rules (inputs i))" using r by (force simp: applicable_rules_def)
    have rq: "request_ok cr inputs st i" using rate_run_ok [OF run] by blast
    then have "logged cr inputs (rs_log st) i (r, x)" using q(1) app by (auto simp: request_ok_def)
    then obtain e where e: "e \<in> set (rs_log st)" "re_request e = i" "re_count e \<le> rr_limit r" "re_key e = ?k"
      using q(2) by (auto simp: logged_def)
    then have "p e" using i by (simp add: requests_admitted_def)
    then show "i \<in> re_request ` X" using e by (force simp: X_def on_key_def)
  qed
  moreover have X: "finite X" by (simp add: X_def)
  ultimately have "card (requests_admitted cr inputs st a r x p) \<le> card (re_request ` X)"
    and fin: "finite (requests_admitted cr inputs st a r x p)"
    by (auto intro: card_mono finite_subset)
  note this(1)
  also have "card (re_request ` X) \<le> n * nat (rr_limit r)"
  proof (rule requests_bound [OF ok])
    show "0 \<le> rr_limit r" using rule_facts [OF r(1)] by simp
    show "X \<subseteq> {e \<in> set (on_key ?k (rs_log st)). re_count e \<le> rr_limit r}" by (auto simp: X_def)
    have "re_start ` X \<subseteq> re_start ` {e \<in> set (on_key ?k (rs_log st)). p e}" by (auto simp: X_def)
    then show "card (re_start ` X) \<le> n"
      using card_mono [of "re_start ` {e \<in> set (on_key ?k (rs_log st)). p e}" "re_start ` X"] starts [OF ok] by simp
  qed (simp add: X_def)
  finally show "card (requests_admitted cr inputs st a r x p) \<le> n * nat (rr_limit r)" .
  show "finite (requests_admitted cr inputs st a r x p)" by (rule fin)
qed

text \<open>C18: However the script calls of concurrent requests interleave and whichever of them fail, a rule with
  limit \<open>n\<close> admits at most \<open>n\<close> requests of one subject in one period of its counter, and at most \<open>2 * n\<close>
  whose calls fall in any interval as long as the window.\<close>

theorem rate_limit_window:
  assumes "sorted (map fst calls)" "st = rate_run cr inputs calls" "r \<in> set (rate_limit_rules a)" "x \<noteq> []"
  shows "finite (requests_admitted cr inputs st a r x (\<lambda>e. t \<le> re_time e \<and> re_time e < t + rr_window_ms r)) \<and>
    card (requests_admitted cr inputs st a r x (\<lambda>e. re_start e = t)) \<le> nat (rr_limit r) \<and>
    card (requests_admitted cr inputs st a r x (\<lambda>e. t \<le> re_time e \<and> re_time e < t + rr_window_ms r)) \<le> 2 * nat (rr_limit r)"
proof -
  have one: "card (re_start ` {e \<in> set E. re_start e = t}) \<le> 1" for E
    using card_mono [of "{t}" "re_start ` {e \<in> set E. re_start e = t}"] by auto
  have two: "card (re_start ` {e \<in> set E. t \<le> re_time e \<and> re_time e < t + rr_window_ms r}) \<le> 2"
    if "windows_ok (action_window a) now E c" for now E c
    using window_starts [OF that] rule_facts [OF assms(3)] by simp
  have "card (requests_admitted cr inputs st a r x (\<lambda>e. re_start e = t)) \<le> 1 * nat (rr_limit r)"
    by (rule admitted_bound(2) [OF assms one])
  then show ?thesis using admitted_bound [OF assms two] by simp
qed

definition resend_crypto :: crypto where
  "resend_crypto = \<lparr>cr_sha256 = (\<lambda>s. [length s]), cr_hmac = (\<lambda>k s. [length s])\<rparr>"

definition resend_input :: "nat \<Rightarrow> rate_input" where
  "resend_input i = \<lparr>ri_action = Verification_Resend, ri_identifier = (\<lambda>p. if p = User_Id then Some ''u'' else None)\<rparr>"

theorem rate_limit_window_witness:
  "(let st = rate_run resend_crypto resend_input [(0, 0, No_Fault), (1, 1, Fault_After), (2, 2, No_Fault), (5, 3, No_Fault)];
      r = hd (rate_limit_rules Verification_Resend);
      q = (\<lambda>e. 0 \<le> re_time e \<and> re_time e < 0 + rr_window_ms r)
    in map (rs_results st) [0, 1, 2, 3] =
         [Some Allowed, Some (Rejected Unavailable None None), Some Allowed,
          Some (Rejected Limited (Some 3600) (Some ''user''))] \<and>
       finite (requests_admitted resend_crypto resend_input st Verification_Resend r ''u'' q) \<and>
       card (requests_admitted resend_crypto resend_input st Verification_Resend r ''u'' (\<lambda>e. re_start e = 0)) \<le> nat (rr_limit r) \<and>
       card (requests_admitted resend_crypto resend_input st Verification_Resend r ''u'' q) \<le> 2 * nat (rr_limit r))"
proof -
  let ?calls = "[(0, 0, No_Fault), (1, 1, Fault_After), (2, 2, No_Fault), (5, 3, No_Fault)] :: (time \<times> nat \<times> fault) list"
  have "map (rs_results (rate_run resend_crypto resend_input ?calls)) [0, 1, 2, 3] =
         [Some Allowed, Some (Rejected Unavailable None None), Some Allowed,
          Some (Rejected Limited (Some 3600) (Some ''user''))]"
    by code_simp
  then show ?thesis
    using rate_limit_window [of ?calls _ resend_crypto resend_input "hd (rate_limit_rules Verification_Resend)" Verification_Resend "''u''" 0]
    by (simp add: Let_def)
qed

end
