(* ===== verification/Sync_Event.thy ===== *)
theory Sync_Event
  imports Reader_Articles Iso_Date Json
begin

text \<open>
  Events of the sync journal: the row a change leaves (\<open>UserSyncEvent\<close>), the shapes
  \<open>packages/api-contract/src/sync.ts\<close> allows, and \<open>src/lib/mobile-sync-event.ts\<close>, which turns a row
  into a response or throws when the row does not have an allowed shape. \<open>dt\<close> is the library's test
  of a timestamp text (\<open>z.string().datetime()\<close>). A schema is a function from the value to the value
  it returns, \<open>None\<close> where it throws; the numbers in payloads are integer columns.
\<close>

record sync_event =
  se_sequence :: int
  se_user :: string
  se_resource_type :: string
  se_resource_id :: string
  se_action :: string
  se_version :: string
  se_payload :: json
  se_occurred_at :: time

record wire_event =
  we_action :: string
  we_occurred_at :: string
  we_payload :: json
  we_resource_id :: string
  we_resource_type :: string
  we_version :: string
  we_sequence :: string

type_synonym schema = "json \<Rightarrow> json option"

subsection \<open>Schemas\<close>

definition identifier_char :: "char \<Rightarrow> bool" where
  "identifier_char c \<longleftrightarrow> is_alnum c \<or> c = CHR ''_'' \<or> c = CHR ''-''"

definition api_v1_identifier :: "string \<Rightarrow> string option" where
  "api_v1_identifier s =
     (let t = js_trim s
      in if 1 \<le> length t \<and> length t \<le> 128 \<and> list_all identifier_char t then Some t else None)"

definition identifier_schema :: schema where
  "identifier_schema v = (case v of JStr s \<Rightarrow> map_option JStr (api_v1_identifier s) | _ \<Rightarrow> None)"

definition timestamp_schema :: "(string \<Rightarrow> bool) \<Rightarrow> schema" where
  "timestamp_schema dt v = (case v of JStr s \<Rightarrow> if dt s then Some v else None | _ \<Rightarrow> None)"

definition nullable :: "schema \<Rightarrow> schema" where
  "nullable f v = (if v = JNull then Some JNull else f v)"

definition boolean_schema :: schema where
  "boolean_schema v = (case v of JBool b \<Rightarrow> Some v | _ \<Rightarrow> None)"

definition nonnegative_schema :: schema where
  "nonnegative_schema v =
     (case v of JNum t \<Rightarrow> (case js_integer t of Some n \<Rightarrow> if 0 \<le> n then Some v else None | None \<Rightarrow> None) | _ \<Rightarrow> None)"

definition text_schema :: "nat \<Rightarrow> nat \<Rightarrow> schema" where
  "text_schema lo hi v = (case v of JStr s \<Rightarrow> if lo \<le> length s \<and> length s \<le> hi then Some v else None | _ \<Rightarrow> None)"

definition enum_schema :: "string list \<Rightarrow> schema" where
  "enum_schema values v = (case v of JStr s \<Rightarrow> if s \<in> set values then Some v else None | _ \<Rightarrow> None)"

text \<open>A strict object: no other members; \<open>True\<close> marks a member that may be absent.\<close>

fun object_members :: "(string \<times> bool \<times> schema) list \<Rightarrow> json \<Rightarrow> (string \<times> json) list option" where
  "object_members [] v = Some []"
| "object_members ((k, absent_ok, f) # members) v =
     (case json_field k v of
        None \<Rightarrow> if absent_ok then object_members members v else None
      | Some x \<Rightarrow>
          (case f x of
             None \<Rightarrow> None
           | Some y \<Rightarrow> map_option (\<lambda>ms. (k, y) # ms) (object_members members v)))"

definition strict_object :: "(string \<times> bool \<times> schema) list \<Rightarrow> schema" where
  "strict_object members v =
     (case v of
        JObj ms \<Rightarrow>
          if list_all (\<lambda>m. fst m \<in> set (map fst members)) ms then map_option JObj (object_members members v) else None
      | _ \<Rightarrow> None)"

definition notification_channels :: "string list" where
  "notification_channels = [''IN_APP'', ''EMAIL'', ''MOBILE_PUSH'', ''DISABLED'']"

definition notification_topics :: "string list" where
  "notification_topics = [''SECURITY_ALERTS'', ''SAVED_MONITOR_MATCHES'', ''SMART_DIGEST_COMPLETION'', ''CHAT_MENTIONS'']"

definition article_state_payload :: "(string \<Rightarrow> bool) \<Rightarrow> schema" where
  "article_state_payload dt = strict_object
     [(''archivedAt'', False, nullable (timestamp_schema dt)), (''articleId'', False, identifier_schema),
      (''isRead'', False, boolean_schema), (''isStarred'', False, boolean_schema),
      (''readAt'', False, nullable (timestamp_schema dt)), (''starredAt'', False, nullable (timestamp_schema dt))]"

definition collection_item_payload :: schema where
  "collection_item_payload v =
     (case strict_object
        [(''articleId'', True, identifier_schema), (''collectionId'', False, identifier_schema),
         (''itemId'', False, identifier_schema), (''podcastEpisodeId'', True, identifier_schema)] v of
        None \<Rightarrow> None
      | Some p \<Rightarrow>
          if json_field ''articleId'' p \<noteq> None \<or> json_field ''podcastEpisodeId'' p \<noteq> None then Some p else None)"

definition podcast_episode_state_payload :: "(string \<Rightarrow> bool) \<Rightarrow> schema" where
  "podcast_episode_state_payload dt = strict_object
     [(''episodeId'', False, identifier_schema), (''isPlayed'', False, boolean_schema), (''isStarred'', False, boolean_schema),
      (''playedAt'', False, nullable (timestamp_schema dt)), (''playbackPositionSeconds'', False, nonnegative_schema),
      (''starredAt'', False, nullable (timestamp_schema dt))]"

definition collection_payload :: schema where
  "collection_payload = strict_object
     [(''collectionId'', False, identifier_schema), (''name'', False, text_schema 1 80), (''sortOrder'', False, nonnegative_schema)]"

definition identifiers_payload :: "string list \<Rightarrow> schema" where
  "identifiers_payload names = strict_object (map (\<lambda>k. (k, False, identifier_schema)) names)"

definition notification_preference_payload :: schema where
  "notification_preference_payload = strict_object
     [(''channel'', False, enum_schema notification_channels), (''topic'', False, enum_schema notification_topics)]"

text \<open>The union of the event schemas, by resource type and action.\<close>

definition payload_schemas :: "(string \<Rightarrow> bool) \<Rightarrow> ((string \<times> string) \<times> schema) list" where
  "payload_schemas dt =
     [((''article-state'', ''UPSERT''), article_state_payload dt),
      ((''article-state'', ''TOMBSTONE''), identifiers_payload [''articleId'']),
      ((''collection'', ''UPSERT''), collection_payload),
      ((''collection'', ''TOMBSTONE''), identifiers_payload [''collectionId'']),
      ((''collection-item'', ''UPSERT''), collection_item_payload),
      ((''collection-item'', ''TOMBSTONE''), collection_item_payload),
      ((''podcast-episode-state'', ''UPSERT''), podcast_episode_state_payload dt),
      ((''podcast-episode-state'', ''TOMBSTONE''), identifiers_payload [''episodeId'']),
      ((''saved-view'', ''UPSERT''), identifiers_payload [''id'']),
      ((''saved-view'', ''TOMBSTONE''), identifiers_payload [''id'']),
      ((''feed-subscription'', ''UPSERT''), identifiers_payload [''feedId'', ''subscriptionId'']),
      ((''feed-subscription'', ''TOMBSTONE''), identifiers_payload [''feedId'', ''subscriptionId'']),
      ((''podcast-subscription'', ''UPSERT''), identifiers_payload [''podcastId'', ''subscriptionId'']),
      ((''podcast-subscription'', ''TOMBSTONE''), identifiers_payload [''podcastId'', ''subscriptionId'']),
      ((''briefing'', ''UPSERT''), identifiers_payload [''id'']),
      ((''briefing'', ''TOMBSTONE''), identifiers_payload [''id'']),
      ((''notification-preference'', ''UPSERT''), notification_preference_payload),
      ((''notification-preference'', ''TOMBSTONE''), notification_preference_payload)]"

definition sync_cursor_ok :: "string \<Rightarrow> bool" where
  "sync_cursor_ok s \<longleftrightarrow> s \<noteq> [] \<and> list_all is_digit s \<and> length s \<le> 32"

definition to_mobile_sync_event :: "(string \<Rightarrow> bool) \<Rightarrow> sync_event \<Rightarrow> wire_event option" where
  "to_mobile_sync_event dt e =
     (let occurred = to_iso_string (se_occurred_at e); sequence = int_text (se_sequence e)
      in case map_of (payload_schemas dt) (se_resource_type e, se_action e) of
           None \<Rightarrow> None
         | Some payload \<Rightarrow>
             (case (payload (se_payload e), api_v1_identifier (se_resource_id e)) of
                (Some p, Some i) \<Rightarrow>
                  if dt occurred \<and> 1 \<le> length (se_version e) \<and> length (se_version e) \<le> 64 \<and> sync_cursor_ok sequence
                  then Some \<lparr>we_action = se_action e, we_occurred_at = occurred, we_payload = p, we_resource_id = i,
                         we_resource_type = se_resource_type e, we_version = se_version e, we_sequence = sequence\<rparr>
                  else None
              | _ \<Rightarrow> None))"

subsection \<open>The row a change of an article state leaves\<close>

text \<open>
  \<open>prisma/migrations/20260810120000_add_mobile_sync_foundations\<close>: the trigger on \<open>ArticleState\<close>. The
  columns are timestamps without a time zone, which \<open>jsonb_build_object\<close> prints in ISO 8601 without
  a designator and without trailing zeros of the fraction.
\<close>

definition pg_fraction :: "nat \<Rightarrow> string" where
  "pg_fraction ms =
     (if ms = 0 then [] else CHR ''.'' # rev (dropWhile (\<lambda>c. c = CHR ''0'') (rev (pad 3 ms))))"

definition pg_timestamp :: "time \<Rightarrow> string" where
  "pg_timestamp t = take 19 (to_iso_string t) @ pg_fraction (nat (t mod 1000))"

definition pg_json_timestamp :: "time option \<Rightarrow> json" where
  "pg_json_timestamp x = (case x of None \<Rightarrow> JNull | Some t \<Rightarrow> JStr (pg_timestamp t))"

definition sync_article_state_change :: "int \<Rightarrow> time \<Rightarrow> string \<Rightarrow> article_state \<Rightarrow> sync_event" where
  "sync_article_state_change sequence now version st =
     \<lparr>se_sequence = sequence, se_user = as_user st, se_resource_type = ''article-state'', se_resource_id = as_article st,
      se_action = ''UPSERT'', se_version = version,
      se_payload = JObj [(''archivedAt'', pg_json_timestamp (as_archived_at st)), (''articleId'', JStr (as_article st)),
        (''isRead'', JBool (as_read st)), (''isStarred'', JBool (as_starred st)),
        (''readAt'', pg_json_timestamp (as_read_at st)), (''starredAt'', pg_json_timestamp (as_starred_at st))],
      se_occurred_at = now\<rparr>"

lemma pg_fraction_chars: "c \<in> set (pg_fraction n) \<Longrightarrow> c = CHR ''.'' \<or> is_digit c"
  by (auto simp: pg_fraction_def dest!: set_dropWhileD pad_chars split: if_splits)

lemma pg_timestamp_no_zone:
  assumes "four_digit_year t"
  shows "CHR ''Z'' \<notin> set (pg_timestamp t)"
proof -
  have "take 19 (to_iso_string t) =
      (let p = utc_parts t in pad 4 (nat (p_year p)) @ ''-'' @ pad 2 (nat (p_month p)) @ ''-'' @ pad 2 (nat (p_day p)) @ ''T'' @
        pad 2 (nat (p_hour p)) @ '':'' @ pad 2 (nat (p_minute p)) @ '':'' @ pad 2 (nat (p_second p)))"
    using assms by (simp add: to_iso_string_def Let_def four_digit_year_def)
  moreover have "\<not> is_digit (CHR ''Z'')" by (simp add: js_defs)
  ultimately show ?thesis
    by (auto simp: pg_timestamp_def Let_def dest: pad_chars pg_fraction_chars)
qed

end
