(* ===== verification/Sync_Journal.thy ===== *)
theory Sync_Journal
  imports Sync_Event Mobile_Auth
begin

text \<open>
  The change journal of mobile sync: \<open>listMobileSync\<close> and \<open>getMobileSyncBootstrap\<close> of
  \<open>src/lib/mobile-sync.ts\<close>, the trigger function that appends to the journal
  (\<open>prisma/migrations/20260811140000_move_mobile_sync_retention_to_maintenance\<close>) and its retention,
  \<open>src/lib/mobile-sync-retention.ts\<close>. The sequence of an event is drawn when its transaction writes
  it, the event becomes visible when the transaction commits (\<open>Begin\<close>, \<open>Commit\<close>); the listing reads
  the floor and the events in two statements (\<open>Read_Floor\<close>, \<open>Read_Events\<close>).
\<close>

record sync_db =
  sy_events :: "sync_event list"
  sy_floors :: "string \<Rightarrow> int option"
  sy_devices :: "mobile_device list"

datatype sync_error = Full_Resync_Required | Invalid_Event

record sync_page =
  sp_events :: "wire_event list"
  sp_has_more :: bool
  sp_next_cursor :: "string option"

definition mobile_sync_retention_days :: int where
  "mobile_sync_retention_days = 180"

subsection \<open>Reading the journal\<close>

text \<open>\<open>BigInt\<close> of a text the query schema lets through: digits only.\<close>

definition big_int :: "string \<Rightarrow> int" where
  "big_int s = int (of_base 10 s)"

definition minimum_sequence :: "sync_db \<Rightarrow> string \<Rightarrow> int" where
  "minimum_sequence s u = (case sy_floors s u of None \<Rightarrow> 0 | Some f \<Rightarrow> f)"

definition events_after :: "sync_db \<Rightarrow> int option \<Rightarrow> string \<Rightarrow> sync_event list" where
  "events_after s requested u =
     sort_key se_sequence
       (filter (\<lambda>e. se_user e = u \<and> (case requested of None \<Rightarrow> True | Some c \<Rightarrow> c < se_sequence e)) (sy_events s))"

text \<open>The floor is read from \<open>s1\<close>, the events from the later \<open>s2\<close>.\<close>

definition list_mobile_sync ::
  "(string \<Rightarrow> bool) \<Rightarrow> sync_db \<Rightarrow> sync_db \<Rightarrow> string option \<Rightarrow> nat \<Rightarrow> string \<Rightarrow> sync_error + sync_page" where
  "list_mobile_sync dt s1 s2 cursor limit u =
     (let requested = (if truthy cursor then Some (big_int (the cursor)) else None)
      in if (case requested of None \<Rightarrow> False | Some c \<Rightarrow> c < minimum_sequence s1 u - 1)
         then Inl Full_Resync_Required
         else let events = take (limit + 1) (events_after s2 requested u);
                  has_more = limit < length events;
                  page = (if has_more then take limit events else events)
              in case those (map (to_mobile_sync_event dt) page) of
                   None \<Rightarrow> Inl Invalid_Event
                 | Some wire \<Rightarrow>
                     Inr \<lparr>sp_events = wire, sp_has_more = has_more,
                       sp_next_cursor = (if page = [] then cursor else Some (int_text (se_sequence (last page))))\<rparr>)"

definition get_mobile_sync_bootstrap :: "sync_db \<Rightarrow> string \<Rightarrow> string option" where
  "get_mobile_sync_bootstrap s u =
     map_option (\<lambda>e. int_text (se_sequence e))
       (least_by (\<lambda>e. - se_sequence e) (filter (\<lambda>e. se_user e = u) (sy_events s)))"

subsection \<open>Retention\<close>

definition sync_retention_batch :: "int \<Rightarrow> nat" where
  "sync_retention_batch v = (if v < 1 then 250 else nat (min v 1000))"

definition floors_for :: "sync_event list \<Rightarrow> string \<Rightarrow> int option" where
  "floors_for events =
     fold (\<lambda>e floors.
         let minimum = se_sequence e + 1
         in case floors (se_user e) of
              None \<Rightarrow> floors(se_user e \<mapsto> minimum)
            | Some current \<Rightarrow> if current = 0 \<or> current < minimum then floors(se_user e \<mapsto> minimum) else floors)
       events (\<lambda>u. None)"

definition raise_floors :: "(string \<Rightarrow> int option) \<Rightarrow> (string \<Rightarrow> int option) \<Rightarrow> string \<Rightarrow> int option" where
  "raise_floors new floors u =
     (case new u of
        None \<Rightarrow> floors u
      | Some m \<Rightarrow> (case floors u of None \<Rightarrow> Some m | Some f \<Rightarrow> Some (max f m)))"

record retention_summary =
  sm_active_devices :: nat
  sm_cutoff_at :: string
  sm_more_eligible :: bool
  sm_oldest_age_ms :: "int option"
  sm_oldest_at :: "string option"
  sm_retained :: nat
  sm_rows_pruned :: nat
  sm_users_requiring_pruning :: nat

definition retention_summary :: "time \<Rightarrow> time \<Rightarrow> nat \<Rightarrow> sync_db \<Rightarrow> retention_summary" where
  "retention_summary now cutoff pruned s =
     (let users = length (remdups (map se_user (filter (\<lambda>e. se_occurred_at e < cutoff) (sy_events s))));
          oldest = map_option se_occurred_at (least_by se_occurred_at (sy_events s))
      in \<lparr>sm_active_devices = length (filter (\<lambda>d. now < md_refresh_expires_at d \<and> md_revoked_at d = None) (sy_devices s)),
          sm_cutoff_at = to_iso_string cutoff, sm_more_eligible = (0 < users),
          sm_oldest_age_ms = map_option (\<lambda>t. max 0 (now - t)) oldest,
          sm_oldest_at = map_option to_iso_string oldest,
          sm_retained = length (sy_events s), sm_rows_pruned = pruned, sm_users_requiring_pruning = users\<rparr>)"

definition prune_candidates :: "int \<Rightarrow> time \<Rightarrow> sync_db \<Rightarrow> sync_event list" where
  "prune_candidates batch_size cutoff s =
     take (sync_retention_batch batch_size)
       (sort_key se_occurred_at (sort_key se_sequence (filter (\<lambda>e. se_occurred_at e < cutoff) (sy_events s))))"

definition prune_mobile_sync_events :: "int \<Rightarrow> time \<Rightarrow> sync_db \<Rightarrow> retention_summary \<times> sync_db" where
  "prune_mobile_sync_events batch_size now s =
     (let cutoff = now - mobile_sync_retention_days * 24 * 60 * 60 * 1000;
          candidates = prune_candidates batch_size cutoff s;
          expired = (\<lambda>e. se_occurred_at e < cutoff \<and> se_sequence e \<in> set (map se_sequence candidates));
          s' = s\<lparr>sy_events := filter (\<lambda>e. \<not> expired e) (sy_events s),
                 sy_floors := raise_floors (floors_for candidates) (sy_floors s)\<rparr>
      in if candidates = [] then (retention_summary now cutoff 0 s, s)
         else (retention_summary now cutoff (length (filter expired (sy_events s))) s', s'))"

subsection \<open>Writers, the retention job and one device\<close>

record sync_world =
  sw_db :: sync_db
  sw_counter :: int
  sw_open :: "sync_event list"
  sw_history :: "sync_event list"
  sw_cursor :: "string option"
  sw_start :: "int option"
  sw_seen :: "sync_db option"
  sw_received :: "wire_event list"
  sw_more :: bool

text \<open>
  \<open>Write\<close> is a transaction that commits before the next one of the schedule starts; \<open>Begin\<close> only draws
  the sequence. \<open>sw_history\<close> is every event ever committed, \<open>sw_start\<close> where the device began.
\<close>

datatype sync_step =
    Write sync_event
  | Begin sync_event
  | Commit nat
  | Roll_Back nat
  | Prune int time
  | Bootstrap
  | Read_Floor
  | Read_Events nat

definition append_user_sync_event :: "sync_event \<Rightarrow> sync_world \<Rightarrow> sync_world" where
  "append_user_sync_event e w =
     w\<lparr>sw_open := sw_open w @ [e\<lparr>se_sequence := sw_counter w\<rparr>], sw_counter := sw_counter w + 1\<rparr>"

definition drop_nth :: "nat \<Rightarrow> 'a list \<Rightarrow> 'a list" where
  "drop_nth n xs = take n xs @ drop (Suc n) xs"

definition commit_event :: "nat \<Rightarrow> sync_world \<Rightarrow> sync_world" where
  "commit_event n w =
     (if n < length (sw_open w)
      then w\<lparr>sw_open := drop_nth n (sw_open w), sw_history := sw_history w @ [sw_open w ! n],
             sw_db := (sw_db w)\<lparr>sy_events := sy_events (sw_db w) @ [sw_open w ! n]\<rparr>\<rparr>
      else w)"

fun sync_at :: "(string \<Rightarrow> bool) \<Rightarrow> string \<Rightarrow> sync_step \<Rightarrow> sync_world \<Rightarrow> sync_world" where
  "sync_at dt u (Begin e) w = append_user_sync_event e w"
| "sync_at dt u (Write e) w = commit_event (length (sw_open w)) (append_user_sync_event e w)"
| "sync_at dt u (Commit n) w = commit_event n w"
| "sync_at dt u (Roll_Back n) w = w\<lparr>sw_open := drop_nth n (sw_open w)\<rparr>"
| "sync_at dt u (Prune batch_size now) w = w\<lparr>sw_db := snd (prune_mobile_sync_events batch_size now (sw_db w))\<rparr>"
| "sync_at dt u Bootstrap w =
     (let c = get_mobile_sync_bootstrap (sw_db w) u
      in w\<lparr>sw_cursor := c, sw_start := map_option big_int c, sw_seen := None, sw_received := [], sw_more := False\<rparr>)"
| "sync_at dt u Read_Floor w = w\<lparr>sw_seen := Some (sw_db w)\<rparr>"
| "sync_at dt u (Read_Events limit) w =
     (case sw_seen w of
        None \<Rightarrow> w
      | Some s1 \<Rightarrow>
          (case list_mobile_sync dt s1 (sw_db w) (sw_cursor w) limit u of
             Inl e \<Rightarrow> w\<lparr>sw_seen := None\<rparr>
           | Inr p \<Rightarrow>
               w\<lparr>sw_seen := None, sw_cursor := sp_next_cursor p, sw_received := sw_received w @ sp_events p,
                 sw_more := sp_has_more p\<rparr>))"

definition sync_run :: "(string \<Rightarrow> bool) \<Rightarrow> string \<Rightarrow> sync_step list \<Rightarrow> sync_world \<Rightarrow> sync_world" where
  "sync_run dt u steps w = fold (sync_at dt u) steps w"

definition sync_start :: "int \<Rightarrow> sync_world" where
  "sync_start c =
     \<lparr>sw_db = \<lparr>sy_events = [], sy_floors = (\<lambda>u. None), sy_devices = []\<rparr>, sw_counter = 1, sw_open = [], sw_history = [],
      sw_cursor = Some (int_text c), sw_start = Some c, sw_seen = None, sw_received = [], sw_more = False\<rparr>"

text \<open>No two writes of the account overlap, and no retention run falls between the two reads of a listing.\<close>

fun undisturbed :: "string \<Rightarrow> bool \<Rightarrow> sync_step list \<Rightarrow> bool" where
  "undisturbed u reading [] \<longleftrightarrow> True"
| "undisturbed u reading (Begin e # steps) \<longleftrightarrow> se_user e \<noteq> u \<and> undisturbed u reading steps"
| "undisturbed u reading (Prune b t # steps) \<longleftrightarrow> \<not> reading \<and> undisturbed u reading steps"
| "undisturbed u reading (Bootstrap # steps) \<longleftrightarrow> undisturbed u False steps"
| "undisturbed u reading (Read_Floor # steps) \<longleftrightarrow> undisturbed u True steps"
| "undisturbed u reading (Read_Events n # steps) \<longleftrightarrow> undisturbed u False steps"
| "undisturbed u reading (step # steps) \<longleftrightarrow> undisturbed u reading steps"

end
