(* ===== verification/Sync_Safety.thy ===== *)
theory Sync_Safety
  imports Sync_Journal
begin

text \<open>
  What a device that follows the journal receives. The invariant relates the rows left in the journal
  and the floors to everything ever committed, and the device's cursor to what it has received.
\<close>

subsection \<open>Sorted lists\<close>

lemma sorted_split:
  fixes f :: "'a \<Rightarrow> int"
  assumes "sorted_wrt (\<lambda>x y. f x < f y) L"
  shows "L = filter (\<lambda>x. f x \<le> c) L @ filter (\<lambda>x. c < f x) L"
  using assms
proof (induction L)
  case (Cons x L)
  then show ?case
  proof (cases "f x \<le> c")
    case False
    then have "\<forall>y \<in> set L. c < f y" using Cons.prems by auto
    then have "filter (\<lambda>y. f y \<le> c) L = []" "filter (\<lambda>y. c < f y) L = L" by (auto simp: filter_empty_conv not_le)
    then show ?thesis using False by simp
  qed simp
qed simp

lemma sorted_page:
  fixes f :: "'a \<Rightarrow> int"
  assumes sorted: "sorted_wrt (\<lambda>x y. f x < f y) L" and page: "page = take n (filter (\<lambda>x. c < f x) L)"
    and c': "c' = (if page = [] then c else f (last page))" and "a \<le> c"
  shows "filter (\<lambda>x. a < f x \<and> f x \<le> c') L = filter (\<lambda>x. a < f x \<and> f x \<le> c) L @ page"
    "filter (\<lambda>x. c' < f x) L = drop n (filter (\<lambda>x. c < f x) L)" "c \<le> c'"
proof -
  define M where "M = filter (\<lambda>x. c < f x) L"
  define rest where "rest = drop n M"
  have L: "L = filter (\<lambda>x. f x \<le> c) L @ M" using sorted_split [OF sorted] by (simp add: M_def)
  have cut: "filter P L = filter P (filter (\<lambda>x. f x \<le> c) L) @ filter P M" for P
    using arg_cong [OF L, of "filter P"] by (simp only: filter_append)
  have M: "M = page @ rest" by (simp add: page rest_def M_def)
  have sM: "sorted_wrt (\<lambda>x y. f x < f y) (page @ rest)" using sorted unfolding M [symmetric] M_def by (rule sorted_wrt_filter)
  have above: "c < f x" if "x \<in> set page \<or> x \<in> set rest" for x
  proof -
    have "x \<in> set M" using that M by auto
    then show ?thesis by (simp add: M_def)
  qed
  show le: "c \<le> c'" using c' above by (auto simp: less_imp_le)
  have below: "f x \<le> c'" if "x \<in> set page" for x
  proof -
    obtain ps z where ps: "page = ps @ [z]" using \<open>x \<in> set page\<close> by (cases page rule: rev_cases) auto
    show ?thesis using c' that sM unfolding ps by (auto simp: sorted_wrt_append)
  qed
  have over: "c' < f x" if "x \<in> set rest" for x
    using that sM c' above by (cases "page = []") (auto simp: sorted_wrt_append)
  have "filter (\<lambda>x. a < f x \<and> f x \<le> c') page = page"
    by (rule filter_True) (use below above \<open>a \<le> c\<close> in force)
  moreover have "filter (\<lambda>x. a < f x \<and> f x \<le> c') rest = []" by (rule filter_False) (use over in force)
  ultimately have "filter (\<lambda>x. a < f x \<and> f x \<le> c') M = page" unfolding M by simp
  moreover have "filter (\<lambda>x. a < f x \<and> f x \<le> c) M = []" by (auto simp: M_def filter_empty_conv)
  moreover have "filter (\<lambda>x. a < f x \<and> f x \<le> c') (filter (\<lambda>x. f x \<le> c) L) = filter (\<lambda>x. a < f x \<and> f x \<le> c) (filter (\<lambda>x. f x \<le> c) L)"
    using le by (auto intro: filter_cong)
  ultimately show "filter (\<lambda>x. a < f x \<and> f x \<le> c') L = filter (\<lambda>x. a < f x \<and> f x \<le> c) L @ page"
    using cut [of "\<lambda>x. a < f x \<and> f x \<le> c'"] cut [of "\<lambda>x. a < f x \<and> f x \<le> c"] by simp
  have "filter (\<lambda>x. c' < f x) page = []" by (rule filter_False) (use below in force)
  moreover have "filter (\<lambda>x. c' < f x) rest = rest" by (rule filter_True) (use over in force)
  ultimately have "filter (\<lambda>x. c' < f x) M = rest" unfolding M by simp
  moreover have "filter (\<lambda>x. c' < f x) (filter (\<lambda>x. f x \<le> c) L) = []" using le by (auto simp: filter_empty_conv)
  ultimately show "filter (\<lambda>x. c' < f x) L = drop n (filter (\<lambda>x. c < f x) L)"
    using cut [of "\<lambda>x. c' < f x"] unfolding rest_def M_def by simp
qed

lemma drop_nth_simps [simp]:
  "drop_nth n [] = []" "drop_nth 0 (x # xs) = xs" "drop_nth (Suc n) (x # xs) = x # drop_nth n xs"
  by (simp_all add: drop_nth_def)

lemma drop_nth_set: "x \<in> set (drop_nth n xs) \<Longrightarrow> x \<in> set xs"
  by (auto simp: drop_nth_def dest: in_set_takeD in_set_dropD)

lemma distinct_drop_nth: "distinct (map f xs) \<Longrightarrow> distinct (map f (drop_nth n xs))"
proof (induction xs arbitrary: n)
  case (Cons x xs)
  then show ?case by (cases n) (auto dest: drop_nth_set)
qed simp

lemma drop_nth_other:
  "distinct (map f xs) \<Longrightarrow> n < length xs \<Longrightarrow> x \<in> set (drop_nth n xs) \<Longrightarrow> f x \<noteq> f (xs ! n)"
proof (induction xs arbitrary: n)
  case (Cons y xs)
  then show ?case by (cases n) (auto dest: drop_nth_set simp: image_iff)
qed simp

lemma drop_nth_last [simp]: "drop_nth (length xs) (xs @ [x]) = xs"
  by (simp add: drop_nth_def)


subsection \<open>The invariant\<close>

lemma big_int_text [simp]: "0 \<le> c \<Longrightarrow> big_int (int_text c) = c"
  by (simp add: big_int_def int_text_def of_to_base)

lemma truthy_int_text [simp]: "truthy (Some (int_text c))"
  by (simp add: truthy_def int_text_def)

definition own :: "string \<Rightarrow> sync_event list \<Rightarrow> sync_event list" where
  "own u es = filter (\<lambda>e. se_user e = u) es"

definition journal_ok :: "sync_world \<Rightarrow> bool" where
  "journal_ok w \<longleftrightarrow>
     0 < sw_counter w \<and> distinct (map se_sequence (sw_history w)) \<and> distinct (map se_sequence (sw_open w)) \<and>
     se_sequence ` set (sw_history w) \<inter> se_sequence ` set (sw_open w) = {} \<and>
     (\<forall>e \<in> set (sw_history w) \<union> set (sw_open w). 0 < se_sequence e \<and> se_sequence e < sw_counter w) \<and>
     sy_events (sw_db w) = filter (\<lambda>e. e \<in> set (sy_events (sw_db w))) (sw_history w) \<and>
     (\<forall>e \<in> set (sw_history w) - set (sy_events (sw_db w)). se_sequence e < minimum_sequence (sw_db w) (se_user e))"

definition serial_ok :: "string \<Rightarrow> sync_world \<Rightarrow> bool" where
  "serial_ok u w \<longleftrightarrow>
     sorted_wrt (\<lambda>a b. se_sequence a < se_sequence b) (own u (sw_history w)) \<and> own u (sw_open w) = []"

definition device_ok :: "(string \<Rightarrow> bool) \<Rightarrow> string \<Rightarrow> sync_world \<Rightarrow> bool" where
  "device_ok dt u w \<longleftrightarrow>
     (\<forall>a. sw_start w = Some a \<longrightarrow>
        (\<exists>c. sw_cursor w = Some (int_text c) \<and> 0 \<le> a \<and> a \<le> c \<and> (c = a \<or> c \<in> se_sequence ` set (own u (sw_history w))) \<and>
           map Some (sw_received w) =
             map (to_mobile_sync_event dt) (filter (\<lambda>e. a < se_sequence e \<and> se_sequence e \<le> c) (own u (sw_history w)))))"

definition seen_ok :: "string \<Rightarrow> sync_world \<Rightarrow> bool" where
  "seen_ok u w \<longleftrightarrow>
     (\<forall>s e. sw_seen w = Some s \<and> e \<in> set (own u (sw_history w)) \<and> e \<notin> set (sy_events (sw_db w)) \<longrightarrow>
        se_sequence e < minimum_sequence s u)"

lemma own_append [simp]: "own u (xs @ ys) = own u xs @ own u ys"
  by (simp add: own_def)

lemma own_Cons [simp]: "own u (x # xs) = (if se_user x = u then x # own u xs else own u xs)"
  by (simp add: own_def)

lemma own_Nil [simp]: "own u [] = []"
  by (simp add: own_def)

lemma set_own [simp]: "set (own u xs) = {e \<in> set xs. se_user e = u}"
  by (auto simp: own_def)

lemma own_empty_iff: "own u xs = [] \<longleftrightarrow> (\<forall>e \<in> set xs. se_user e \<noteq> u)"
  by (auto simp: own_def filter_empty_conv)

subsection \<open>Retention keeps the floor above what it removes\<close>

lemma floors_for_Nil [simp]: "floors_for [] = (\<lambda>u. None)"
  by (simp add: floors_for_def)

lemma floors_for_snoc:
  "floors_for (es @ [x]) =
    (case floors_for es (se_user x) of
       None \<Rightarrow> (floors_for es)(se_user x \<mapsto> se_sequence x + 1)
     | Some current \<Rightarrow> if current = 0 \<or> current < se_sequence x + 1
         then (floors_for es)(se_user x \<mapsto> se_sequence x + 1) else floors_for es)"
  unfolding floors_for_def Let_def by simp

lemma floors_for_above:
  assumes "\<forall>e \<in> set es. 0 < se_sequence e" "e \<in> set es"
  shows "\<exists>m. floors_for es (se_user e) = Some m \<and> se_sequence e < m"
  using assms
proof (induction es rule: rev_induct)
  case (snoc x es)
  show ?case
  proof (cases "e \<in> set es")
    case True
    then obtain m where "floors_for es (se_user e) = Some m" "se_sequence e < m" "0 < se_sequence e"
      using snoc by auto
    then show ?thesis unfolding floors_for_snoc by (auto split: option.split)
  next
    case False
    then have "e = x" using snoc.prems by auto
    then show ?thesis unfolding floors_for_snoc by (auto split: option.split)
  qed
qed simp

lemma prune_cases:
  assumes positive: "\<forall>e \<in> set (sy_events s). 0 < se_sequence e" and distinct: "distinct (map se_sequence (sy_events s))"
    and s': "s' = snd (prune_mobile_sync_events b now s)"
  shows "sy_events s' = filter (\<lambda>e. e \<in> set (sy_events s')) (sy_events s)"
    "e \<in> set (sy_events s) \<Longrightarrow> e \<notin> set (sy_events s') \<Longrightarrow> se_sequence e < minimum_sequence s' (se_user e)"
    "0 < n \<Longrightarrow> n < minimum_sequence s u \<Longrightarrow> n < minimum_sequence s' u"
proof -
  define cutoff where "cutoff = now - mobile_sync_retention_days * 24 * 60 * 60 * 1000"
  define cs where "cs = prune_candidates b cutoff s"
  have s'_eq: "s' = (if cs = [] then s else
      s\<lparr>sy_events := filter (\<lambda>e. \<not> (se_occurred_at e < cutoff \<and> se_sequence e \<in> se_sequence ` set cs)) (sy_events s),
        sy_floors := raise_floors (floors_for cs) (sy_floors s)\<rparr>)"
    unfolding s' prune_mobile_sync_events_def Let_def cutoff_def cs_def by simp
  have cs: "set cs \<subseteq> set (sy_events s)" by (auto simp: cs_def prune_candidates_def dest: in_set_takeD)
  show "sy_events s' = filter (\<lambda>e. e \<in> set (sy_events s')) (sy_events s)"
    unfolding s'_eq by (auto intro!: filter_cong)
  have above: "\<exists>m. floors_for cs (se_user e) = Some m \<and> se_sequence e < m" if "e \<in> set cs" for e
    by (rule floors_for_above) (use positive cs that in auto)
  show "se_sequence e < minimum_sequence s' (se_user e)" if "e \<in> set (sy_events s)" "e \<notin> set (sy_events s')"
  proof -
    have "cs \<noteq> []" "se_sequence e \<in> se_sequence ` set cs" using that by (auto simp: s'_eq split: if_splits)
    moreover then have "e \<in> set cs" using that(1) cs distinct by (auto simp: distinct_map inj_on_def)
    ultimately obtain m where "cs \<noteq> []" "floors_for cs (se_user e) = Some m" "se_sequence e < m" using above by blast
    then show ?thesis by (auto simp: s'_eq minimum_sequence_def raise_floors_def split: option.split)
  qed
  show "n < minimum_sequence s' u" if "0 < n" "n < minimum_sequence s u"
    using that by (auto simp: s'_eq minimum_sequence_def raise_floors_def split: option.splits if_splits)
qed


subsection \<open>Every step keeps the invariant\<close>

definition sync_inv :: "(string \<Rightarrow> bool) \<Rightarrow> string \<Rightarrow> sync_world \<Rightarrow> bool" where
  "sync_inv dt u w \<longleftrightarrow> journal_ok w \<and> serial_ok u w \<and> device_ok dt u w \<and> seen_ok u w"

lemma journal_okD:
  assumes "journal_ok w"
  shows "0 < sw_counter w" "distinct (map se_sequence (sw_history w))" "distinct (map se_sequence (sw_open w))"
    "e \<in> set (sw_history w) \<Longrightarrow> e' \<in> set (sw_open w) \<Longrightarrow> se_sequence e \<noteq> se_sequence e'"
    "e \<in> set (sw_history w) \<Longrightarrow> 0 < se_sequence e \<and> se_sequence e < sw_counter w"
    "e \<in> set (sw_open w) \<Longrightarrow> 0 < se_sequence e \<and> se_sequence e < sw_counter w"
    "sy_events (sw_db w) = filter (\<lambda>e. e \<in> set (sy_events (sw_db w))) (sw_history w)"
    "e \<in> set (sw_history w) \<Longrightarrow> e \<notin> set (sy_events (sw_db w)) \<Longrightarrow>
      se_sequence e < minimum_sequence (sw_db w) (se_user e)"
    "e \<in> set (sy_events (sw_db w)) \<Longrightarrow> e \<in> set (sw_history w)"
proof -
  show "e \<in> set (sw_history w)" if "e \<in> set (sy_events (sw_db w))"
  proof -
    have "sy_events (sw_db w) = filter (\<lambda>e. e \<in> set (sy_events (sw_db w))) (sw_history w)"
      using assms by (simp add: journal_ok_def)
    then have "e \<in> set (filter (\<lambda>e. e \<in> set (sy_events (sw_db w))) (sw_history w))" using that by simp
    then show ?thesis by simp
  qed
qed (use assms in \<open>auto simp: journal_ok_def\<close>)

lemma journal_ok_append:
  assumes "journal_ok w"
  shows "journal_ok (append_user_sync_event e w)"
proof -
  have fresh: "se_sequence x \<noteq> sw_counter w" if "x \<in> set (sw_history w) \<or> x \<in> set (sw_open w)" for x
    using that journal_okD(5,6) [OF assms] by force
  have bound: "se_sequence x < sw_counter w + 1" if "x \<in> set (sw_history w) \<or> x \<in> set (sw_open w)" for x
    using that journal_okD(5,6) [OF assms] by force
  have "sw_counter w \<notin> se_sequence ` set (sw_history w)" "sw_counter w \<notin> se_sequence ` set (sw_open w)"
    using fresh by force+
  then show ?thesis
    using assms bound unfolding journal_ok_def append_user_sync_event_def by simp
qed

lemma journal_ok_commit:
  assumes "journal_ok w"
  shows "journal_ok (commit_event n w)"
proof (cases "n < length (sw_open w)")
  case True
  define x where "x = sw_open w ! n"
  have x: "x \<in> set (sw_open w)" using True by (simp add: x_def)
  have w': "sw_history (commit_event n w) = sw_history w @ [x]" "sw_open (commit_event n w) = drop_nth n (sw_open w)"
    "sw_counter (commit_event n w) = sw_counter w" "sy_events (sw_db (commit_event n w)) = sy_events (sw_db w) @ [x]"
    "minimum_sequence (sw_db (commit_event n w)) u = minimum_sequence (sw_db w) u" for u
    using True by (simp_all add: commit_event_def x_def minimum_sequence_def)
  note ok = journal_okD [OF assms]
  have new: "x \<notin> set (sw_history w)" "se_sequence x \<notin> se_sequence ` set (sw_history w)" using ok(4) x by force+
  have rest: "e \<in> set (sw_open w) \<and> se_sequence e \<noteq> se_sequence x" if "e \<in> set (drop_nth n (sw_open w))" for e
    using drop_nth_other [OF ok(3) True that] drop_nth_set [OF that] by (simp add: x_def)
  have "filter (\<lambda>e. e \<in> set (sy_events (sw_db w) @ [x])) (sw_history w @ [x]) =
      filter (\<lambda>e. e \<in> set (sy_events (sw_db w))) (sw_history w) @ [x]"
    using new(1) by (auto intro: filter_cong)
  then have events: "sy_events (sw_db w) @ [x] = filter (\<lambda>e. e \<in> set (sy_events (sw_db w) @ [x])) (sw_history w @ [x])"
    using ok(7) by simp
  have apart: "se_sequence ` set (sw_history w @ [x]) \<inter> se_sequence ` set (drop_nth n (sw_open w)) = {}"
    using ok(4) rest by force
  show ?thesis
    unfolding journal_ok_def w' using ok(1,2,5,6,8) new(2) distinct_drop_nth [OF ok(3), of n] apart events rest x
    by auto
qed (use assms in \<open>simp add: commit_event_def\<close>)

lemma journal_ok_drop:
  "journal_ok w \<Longrightarrow> journal_ok (w\<lparr>sw_open := drop_nth n (sw_open w)\<rparr>)"
  using journal_okD(4) [of w] unfolding journal_ok_def by (auto simp: distinct_drop_nth dest!: drop_nth_set)

lemma journal_ok_db:
  "journal_ok w \<Longrightarrow> sw_db w' = sw_db w \<Longrightarrow> sw_history w' = sw_history w \<Longrightarrow> sw_open w' = sw_open w \<Longrightarrow>
   sw_counter w' = sw_counter w \<Longrightarrow> journal_ok w'"
  by (simp add: journal_ok_def)

lemma journal_ok_prune:
  assumes "journal_ok w"
  shows "journal_ok (w\<lparr>sw_db := snd (prune_mobile_sync_events b now (sw_db w))\<rparr>)"
proof -
  note ok = journal_okD [OF assms]
  let ?s' = "snd (prune_mobile_sync_events b now (sw_db w))"
  have positive: "\<forall>e \<in> set (sy_events (sw_db w)). 0 < se_sequence e" using ok(5,9) by blast
  have "distinct (map se_sequence (sy_events (sw_db w)))"
    using ok(2) by (subst ok(7)) (simp add: distinct_map_filter)
  note p = prune_cases [OF positive this refl, where b = b and now = now]
  have "sy_events ?s' = filter (\<lambda>e. e \<in> set (sy_events ?s')) (filter (\<lambda>e. e \<in> set (sy_events (sw_db w))) (sw_history w))"
    using p(1) ok(7) by simp
  also have "\<dots> = filter (\<lambda>e. e \<in> set (sy_events ?s')) (sw_history w)"
  proof -
    have "e \<in> set (sy_events (sw_db w))" if "e \<in> set (sy_events ?s')" for e
    proof -
      have "e \<in> set (filter (\<lambda>e. e \<in> set (sy_events ?s')) (sy_events (sw_db w)))" using that p(1) by simp
      then show ?thesis by simp
    qed
    then show ?thesis by (auto intro: filter_cong)
  qed
  finally have events: "sy_events ?s' = filter (\<lambda>e. e \<in> set (sy_events ?s')) (sw_history w)" .
  have "se_sequence e < minimum_sequence ?s' (se_user e)" if "e \<in> set (sw_history w)" "e \<notin> set (sy_events ?s')" for e
  proof (cases "e \<in> set (sy_events (sw_db w))")
    case True
    then show ?thesis using p(2) that(2) by blast
  next
    case False
    then show ?thesis using p(3) ok(5,8) that(1) by blast
  qed
  then show ?thesis using assms events unfolding journal_ok_def by auto
qed

lemma sync_at_journal: "journal_ok w \<Longrightarrow> journal_ok (sync_at dt u step w)"
proof (cases step)
  case (Read_Events n)
  then show "journal_ok w \<Longrightarrow> journal_ok (sync_at dt u step w)"
    by (auto intro: journal_ok_db split: option.split sum.split)
qed (auto simp: Let_def intro: journal_ok_append journal_ok_commit journal_ok_drop journal_ok_prune journal_ok_db)


text \<open>A committed event whose sequence is above all of the account's.\<close>

definition newest :: "string \<Rightarrow> sync_event \<Rightarrow> sync_world \<Rightarrow> bool" where
  "newest u x w \<longleftrightarrow> (se_user x = u \<longrightarrow> (\<forall>e \<in> set (own u (sw_history w)). se_sequence e < se_sequence x))"

lemma device_ok_commit:
  assumes ok: "device_ok dt u w" and x: "newest u x w" and h: "sw_history w' = sw_history w @ [x]"
    and same: "sw_start w' = sw_start w" "sw_cursor w' = sw_cursor w" "sw_received w' = sw_received w"
  shows "device_ok dt u w'"
  unfolding device_ok_def same
proof (intro allI impI)
  fix a assume "sw_start w = Some a"
  then obtain c where c: "sw_cursor w = Some (int_text c)" "0 \<le> a" "a \<le> c" "c = a \<or> c \<in> se_sequence ` set (own u (sw_history w))"
    "map Some (sw_received w) =
      map (to_mobile_sync_event dt) (filter (\<lambda>e. a < se_sequence e \<and> se_sequence e \<le> c) (own u (sw_history w)))"
    using ok by (auto simp: device_ok_def)
  have "\<not> (a < se_sequence x \<and> se_sequence x \<le> c)" if "se_user x = u"
    using c(4) x that by (auto simp: newest_def)
  then show "\<exists>c. sw_cursor w = Some (int_text c) \<and> 0 \<le> a \<and> a \<le> c \<and> (c = a \<or> c \<in> se_sequence ` set (own u (sw_history w'))) \<and>
      map Some (sw_received w) =
        map (to_mobile_sync_event dt) (filter (\<lambda>e. a < se_sequence e \<and> se_sequence e \<le> c) (own u (sw_history w')))"
    using c by (intro exI [of _ c]) (auto simp: h)
qed

lemma seen_ok_commit:
  "seen_ok u w \<Longrightarrow> sw_history w' = sw_history w @ [x] \<Longrightarrow> sy_events (sw_db w') = sy_events (sw_db w) @ [x] \<Longrightarrow>
   sw_seen w' = sw_seen w \<Longrightarrow> seen_ok u w'"
  by (auto simp: seen_ok_def)

lemma serial_ok_commit:
  "serial_ok u w \<Longrightarrow> newest u x w \<Longrightarrow> sw_history w' = sw_history w @ [x] \<Longrightarrow> own u (sw_open w') = [] \<Longrightarrow> serial_ok u w'"
  by (auto simp: serial_ok_def newest_def sorted_wrt_append)

lemma write_eq:
  "sync_at dt u (Write e) w =
    w\<lparr>sw_counter := sw_counter w + 1, sw_history := sw_history w @ [e\<lparr>se_sequence := sw_counter w\<rparr>],
      sw_db := (sw_db w)\<lparr>sy_events := sy_events (sw_db w) @ [e\<lparr>se_sequence := sw_counter w\<rparr>]\<rparr>\<rparr>"
  by (cases w) (simp add: commit_event_def append_user_sync_event_def)

lemma inv_commit:
  assumes inv: "sync_inv dt u w" and x: "newest u x w"
    and w': "sw_history w' = sw_history w @ [x]" "sy_events (sw_db w') = sy_events (sw_db w) @ [x]" "own u (sw_open w') = []"
      "sw_start w' = sw_start w" "sw_cursor w' = sw_cursor w" "sw_received w' = sw_received w" "sw_seen w' = sw_seen w"
    and journal: "journal_ok w'"
  shows "sync_inv dt u w'"
  using inv device_ok_commit [OF _ x w'(1,4,5,6)] seen_ok_commit [OF _ w'(1,2,7)] serial_ok_commit [OF _ x w'(1,3)] journal
  by (simp add: sync_inv_def)

lemma inv_other:
  assumes inv: "sync_inv dt u w" and w': "sw_history w' = sw_history w" "own u (sw_open w') = []"
      "sw_start w' = sw_start w" "sw_cursor w' = sw_cursor w" "sw_received w' = sw_received w"
    and journal: "journal_ok w'" and seen: "seen_ok u w'"
  shows "sync_inv dt u w'"
  using inv w' journal seen by (simp add: sync_inv_def serial_ok_def device_ok_def)

lemma seen_ok_fresh:
  assumes "journal_ok w"
  shows "seen_ok u (w\<lparr>sw_seen := Some (sw_db w)\<rparr>)"
  using journal_okD(8) [OF assms] by (auto simp: seen_ok_def)

subsection \<open>One listing\<close>

text \<open>Behind a passed floor check the journal still holds every event the listing looks for.\<close>

lemma events_after_own:
  assumes inv: "sync_inv dt u w" and seen: "sw_seen w = Some s" and check: "\<not> c < minimum_sequence s u - 1"
  shows "events_after (sw_db w) (Some c) u = filter (\<lambda>e. c < se_sequence e) (own u (sw_history w))"
proof -
  let ?own = "own u (sw_history w)"
  have kept: "e \<in> set (sy_events (sw_db w))" if "e \<in> set ?own" "c < se_sequence e" for e
    using that inv seen check unfolding sync_inv_def seen_ok_def by force
  have "filter (\<lambda>e. se_user e = u \<and> c < se_sequence e) (sy_events (sw_db w)) =
      filter (\<lambda>e. se_user e = u \<and> c < se_sequence e) (filter (\<lambda>e. e \<in> set (sy_events (sw_db w))) (sw_history w))"
    using inv journal_okD(7) by (simp add: sync_inv_def)
  also have "\<dots> = filter (\<lambda>e. c < se_sequence e) ?own"
    using kept by (auto simp: own_def intro!: filter_cong)
  finally have events: "filter (\<lambda>e. se_user e = u \<and> c < se_sequence e) (sy_events (sw_db w)) = filter (\<lambda>e. c < se_sequence e) ?own" .
  have "sorted_wrt (\<lambda>a b. se_sequence a < se_sequence b) (filter (\<lambda>e. c < se_sequence e) ?own)"
    using inv by (auto simp: sync_inv_def serial_ok_def intro: sorted_wrt_filter)
  then have "sorted (map se_sequence (filter (\<lambda>e. c < se_sequence e) ?own))"
    by (auto simp: sorted_map elim: sorted_wrt_mono_rel [rotated])
  then show ?thesis by (simp add: events_after_def events sorted_sort_id sort_key_id_if_sorted)
qed


lemma list_mobile_sync_at:
  assumes "0 \<le> c"
  shows "list_mobile_sync dt s1 s2 (Some (int_text c)) limit u =
    (if c < minimum_sequence s1 u - 1 then Inl Full_Resync_Required
     else let rows = events_after s2 (Some c) u; page = take limit rows
       in case those (map (to_mobile_sync_event dt) page) of
            None \<Rightarrow> Inl Invalid_Event
          | Some wire \<Rightarrow> Inr \<lparr>sp_events = wire, sp_has_more = (limit < length rows),
              sp_next_cursor = Some (int_text (if page = [] then c else se_sequence (last page)))\<rparr>)"
proof -
  define rows where "rows = events_after s2 (Some c) u"
  have more: "limit < length (take (limit + 1) rows) \<longleftrightarrow> limit < length rows" by auto
  have page: "(if limit < length (take (limit + 1) rows) then take limit (take (limit + 1) rows) else take (limit + 1) rows) = take limit rows"
    by (auto simp: min_def not_less)
  show ?thesis
    unfolding list_mobile_sync_def
    by (simp only: Let_def truthy_int_text if_True option.sel option.case big_int_text [OF assms] rows_def [symmetric] page more)
      (auto split: option.split)
qed

lemma those_SomeD: "those xs = Some ys \<Longrightarrow> map Some ys = xs"
  by (induction xs arbitrary: ys) (auto split: option.splits)

lemma those_None_iff: "those xs = None \<longleftrightarrow> None \<in> set xs"
  by (induction xs) (auto split: option.splits)

lemma inv_read:
  assumes inv: "sync_inv dt u w" and seen: "sw_seen w = Some s"
  shows "sync_inv dt u (sync_at dt u (Read_Events limit) w)"
proof (cases "sw_start w")
  case None
  then show ?thesis
    using inv seen journal_ok_db [of w "sync_at dt u (Read_Events limit) w"]
    by (auto simp: sync_inv_def serial_ok_def device_ok_def seen_ok_def split: sum.split)
next
  case (Some a)
  then obtain c where c: "sw_cursor w = Some (int_text c)" "0 \<le> a" "a \<le> c" "c = a \<or> c \<in> se_sequence ` set (own u (sw_history w))"
    "map Some (sw_received w) =
      map (to_mobile_sync_event dt) (filter (\<lambda>e. a < se_sequence e \<and> se_sequence e \<le> c) (own u (sw_history w)))"
    using inv by (auto simp: sync_inv_def device_ok_def)
  have c0: "0 \<le> c" using c by simp
  have journal: "journal_ok w" "own u (sw_open w) = []" using inv by (simp_all add: sync_inv_def serial_ok_def)
  show ?thesis
  proof (cases "list_mobile_sync dt s (sw_db w) (sw_cursor w) limit u")
    case (Inl e)
    then have "sync_at dt u (Read_Events limit) w = w\<lparr>sw_seen := None\<rparr>" by (simp add: seen)
    moreover have "sync_inv dt u (w\<lparr>sw_seen := None\<rparr>)"
      by (rule inv_other [OF inv]) (use journal in \<open>auto simp: seen_ok_def intro: journal_ok_db\<close>)
    ultimately show ?thesis by simp
  next
    case (Inr p)
    then have check: "\<not> c < minimum_sequence s u - 1"
      using c(1) by (auto simp: list_mobile_sync_at [OF c0] split: if_splits)
    define rows where "rows = filter (\<lambda>e. c < se_sequence e) (own u (sw_history w))"
    define page where "page = take limit rows"
    define c' where "c' = (if page = [] then c else se_sequence (last page))"
    have rows: "events_after (sw_db w) (Some c) u = rows" unfolding rows_def by (rule events_after_own [OF inv seen check])
    obtain wire where wire: "those (map (to_mobile_sync_event dt) page) = Some wire" "sp_events p = wire" "sp_next_cursor p = Some (int_text c')"
      using Inr c(1) check by (auto simp: list_mobile_sync_at [OF c0] rows page_def [symmetric] c'_def Let_def split: option.splits)
    have sorted: "sorted_wrt (\<lambda>a b. se_sequence a < se_sequence b) (own u (sw_history w))"
      using inv by (simp add: sync_inv_def serial_ok_def)
    note moved = sorted_page [OF sorted page_def [unfolded rows_def] c'_def c(3)]
    let ?w' = "w\<lparr>sw_seen := None, sw_cursor := Some (int_text c'), sw_received := sw_received w @ wire, sw_more := sp_has_more p\<rparr>"
    have "c' = a \<or> c' \<in> se_sequence ` set (own u (sw_history w))"
    proof (cases "page = []")
      case True
      then show ?thesis using c(4) by (simp add: c'_def)
    next
      case False
      then have "last page \<in> set (own u (sw_history w))"
        using in_set_takeD [of "last page" limit rows] by (auto simp: page_def rows_def simp del: set_own)
      then show ?thesis using False by (simp add: c'_def del: set_own)
    qed
    moreover have "map Some (sw_received w @ wire) =
        map (to_mobile_sync_event dt) (filter (\<lambda>e. a < se_sequence e \<and> se_sequence e \<le> c') (own u (sw_history w)))"
      using c(5) those_SomeD [OF wire(1)] moved(1) by simp
    ultimately have "device_ok dt u ?w'"
      using Some c(2,3) moved(3) unfolding device_ok_def by (auto simp del: set_own intro!: exI [of _ c'])
    moreover have "journal_ok ?w'" by (rule journal_ok_db [OF journal(1)]) simp_all
    ultimately have "sync_inv dt u ?w'" using inv by (simp add: sync_inv_def serial_ok_def seen_ok_def)
    then show ?thesis using Inr wire(2,3) by (simp add: seen)
  qed
qed

lemma inv_bootstrap:
  assumes inv: "sync_inv dt u w"
  shows "sync_inv dt u (sync_at dt u Bootstrap w)"
proof -
  have ok: "journal_ok w" using inv by (simp add: sync_inv_def)
  define newest where "newest = least_by (\<lambda>e. - se_sequence e) (filter (\<lambda>e. se_user e = u) (sy_events (sw_db w)))"
  have c: "get_mobile_sync_bootstrap (sw_db w) u = map_option (\<lambda>e. int_text (se_sequence e)) newest"
    by (simp add: get_mobile_sync_bootstrap_def newest_def)
  have known: "0 < se_sequence e" if "newest = Some e" for e
  proof -
    have "e \<in> set (sy_events (sw_db w))" using least_by_Some that unfolding newest_def by fastforce
    then show ?thesis using journal_okD(5,9) [OF ok] by blast
  qed
  have "device_ok dt u (sync_at dt u Bootstrap w)"
  proof (cases newest)
    case None
    then show ?thesis by (simp add: device_ok_def c)
  next
    case (Some e)
    then show ?thesis using known [OF Some]
      by (auto simp: device_ok_def c filter_empty_conv intro!: exI [of _ "se_sequence e"])
  qed
  moreover have "journal_ok (sync_at dt u Bootstrap w)" by (rule sync_at_journal [OF ok])
  ultimately show ?thesis using inv by (simp add: sync_inv_def serial_ok_def seen_ok_def Let_def)
qed

lemma sync_run_inv:
  assumes "sync_inv dt u w" "undisturbed u reading steps" "sw_seen w \<noteq> None \<Longrightarrow> reading"
  shows "sync_inv dt u (sync_run dt u steps w)"
  using assms
proof (induction steps arbitrary: w reading)
  case Nil
  then show ?case by (simp add: sync_run_def)
next
  case (Cons step steps)
  have inv: "sync_inv dt u w" and journal: "journal_ok w" "own u (sw_open w) = []" and seen: "seen_ok u w"
    using Cons.prems(1) by (simp_all add: sync_inv_def serial_ok_def)
  note journal' = sync_at_journal [OF journal(1), of dt u step]
  have fresh: "se_sequence e < sw_counter w" if "e \<in> set (sw_history w)" for e using that journal_okD(5) [OF journal(1)] by blast
  have "sync_inv dt u (sync_at dt u step w)"
  proof (cases step)
    case (Write e)
    show ?thesis unfolding Write
      by (rule inv_commit [OF inv, where x = "e\<lparr>se_sequence := sw_counter w\<rparr>"])
        (use fresh journal journal' Write in \<open>simp_all only: write_eq, auto simp: newest_def\<close>)
  next
    case (Begin e)
    then show ?thesis using Cons.prems(2) journal journal' seen
      by (intro inv_other [OF inv]) (simp_all add: append_user_sync_event_def seen_ok_def)
  next
    case (Commit n)
    show ?thesis
    proof (cases "n < length (sw_open w)")
      case True
      then have "se_user (sw_open w ! n) \<noteq> u" using journal(2) by (simp add: own_empty_iff)
      moreover have "own u (drop_nth n (sw_open w)) = []" using journal(2) by (auto simp: own_empty_iff dest: drop_nth_set)
      ultimately show ?thesis using True Commit journal'
        by (intro inv_commit [OF inv, where x = "sw_open w ! n"]) (simp_all add: commit_event_def newest_def)
    next
      case False
      then show ?thesis using Commit inv by (simp add: commit_event_def)
    qed
  next
    case (Roll_Back n)
    then show ?thesis using journal journal' seen
      by (intro inv_other [OF inv]) (auto simp: own_empty_iff seen_ok_def dest: drop_nth_set)
  next
    case (Prune b t)
    then have "sw_seen w = None" using Cons.prems(2,3) by (cases "sw_seen w") auto
    then show ?thesis using Prune journal journal' by (intro inv_other [OF inv]) (simp_all add: seen_ok_def)
  next
    case Bootstrap
    then show ?thesis using inv_bootstrap [OF inv] by simp
  next
    case Read_Floor
    then show ?thesis using journal journal' seen_ok_fresh [OF journal(1)] by (intro inv_other [OF inv]) simp_all
  next
    case (Read_Events n)
    then show ?thesis using inv_read [OF inv] inv by (cases "sw_seen w") simp_all
  qed
  moreover have "\<exists>reading'. undisturbed u reading' steps \<and> (sw_seen (sync_at dt u step w) \<noteq> None \<longrightarrow> reading')"
  proof (cases step)
    case (Read_Events n)
    then show ?thesis using Cons.prems(2,3) by (intro exI [of _ False]) (auto split: option.split sum.split)
  qed (use Cons.prems(2,3) in \<open>auto simp: append_user_sync_event_def commit_event_def Let_def\<close>)
  ultimately show ?case using Cons.IH by (auto simp: sync_run_def)
qed

lemma sync_start_inv: "0 \<le> c \<Longrightarrow> sync_inv dt u (sync_start c)"
  by (simp add: sync_inv_def journal_ok_def serial_ok_def device_ok_def seen_ok_def sync_start_def filter_empty_conv)


subsection \<open>Catching up\<close>

lemma read_round:
  assumes inv: "sync_inv dt u w" and at_c: "sw_start w = Some a" "sw_cursor w = Some (int_text c)" "0 \<le> c"
    and check: "minimum_sequence (sw_db w) u - 1 \<le> c"
    and conform: "\<forall>e \<in> set (own u (sw_history w)). to_mobile_sync_event dt e \<noteq> None"
    and w': "w' = sync_run dt u [Read_Floor, Read_Events limit] w"
    and rows: "rows = filter (\<lambda>e. c < se_sequence e) (own u (sw_history w))"
  shows "sync_inv dt u w'" "sw_start w' = Some a" "sw_db w' = sw_db w" "sw_history w' = sw_history w"
    "\<exists>c' \<ge> c. sw_cursor w' = Some (int_text c') \<and> filter (\<lambda>e. c' < se_sequence e) (own u (sw_history w)) = drop limit rows"
    "sw_more w' = (limit < length rows)"
proof -
  define w1 where "w1 = sync_at dt u Read_Floor w"
  have run: "w' = sync_at dt u (Read_Events limit) w1" by (simp add: w' sync_run_def w1_def)
  have inv1: "sync_inv dt u w1" using sync_run_inv [OF inv, of True "[Read_Floor]"] by (simp add: sync_run_def w1_def)
  have seen1: "sw_seen w1 = Some (sw_db w)" by (simp add: w1_def)
  define page where "page = take limit rows"
  define c' where "c' = (if page = [] then c else se_sequence (last page))"
  have after: "events_after (sw_db w1) (Some c) u = rows"
    using events_after_own [OF inv1 seen1, of c] check by (simp add: rows w1_def)
  have sorted: "sorted_wrt (\<lambda>a b. se_sequence a < se_sequence b) (own u (sw_history w))"
    using inv by (simp add: sync_inv_def serial_ok_def)
  note moved = sorted_page [OF sorted page_def [unfolded rows] c'_def order_refl]
  have "set page \<subseteq> set (own u (sw_history w))" by (auto simp: page_def rows dest: in_set_takeD)
  then have "None \<notin> set (map (to_mobile_sync_event dt) page)" using conform by (metis (no_types, lifting) imageE list.set_map subsetD)
  then obtain wire where wire: "those (map (to_mobile_sync_event dt) page) = Some wire" using those_None_iff by fastforce
  have list: "list_mobile_sync dt (sw_db w) (sw_db w) (Some (int_text c)) limit u =
      Inr \<lparr>sp_events = wire, sp_has_more = (limit < length rows), sp_next_cursor = Some (int_text c')\<rparr>"
    using after check wire by (simp add: list_mobile_sync_at [OF at_c(3)] w1_def page_def [symmetric] c'_def Let_def)
  have w'_eq: "w' = w\<lparr>sw_seen := None, sw_cursor := Some (int_text c'), sw_received := sw_received w @ wire, sw_more := limit < length rows\<rparr>"
    using list at_c(2) by (simp add: run w1_def)
  show "sw_start w' = Some a" "sw_db w' = sw_db w" "sw_history w' = sw_history w" "sw_more w' = (limit < length rows)"
    using at_c(1) by (simp_all add: w'_eq)
  show "sync_inv dt u w'" unfolding run by (rule inv_read [OF inv1 seen1])
  show "\<exists>c' \<ge> c. sw_cursor w' = Some (int_text c') \<and> filter (\<lambda>e. c' < se_sequence e) (own u (sw_history w)) = drop limit rows"
    using moved(2,3) by (intro exI [of _ c']) (simp add: w'_eq rows)
qed

definition listings :: "nat \<Rightarrow> nat \<Rightarrow> sync_step list" where
  "listings n limit = concat (replicate n [Read_Floor, Read_Events limit])"

lemma catch_up:
  assumes "sync_inv dt u w" "sw_start w = Some a" "sw_cursor w = Some (int_text c)" "0 \<le> c"
    "minimum_sequence (sw_db w) u - 1 \<le> c" "\<forall>e \<in> set (own u (sw_history w)). to_mobile_sync_event dt e \<noteq> None"
    "length (filter (\<lambda>e. c < se_sequence e) (own u (sw_history w))) \<le> n * limit" "0 < n"
  shows "let w' = sync_run dt u (listings n limit) w
    in sync_inv dt u w' \<and> sw_start w' = Some a \<and> sw_history w' = sw_history w \<and> \<not> sw_more w' \<and>
       (\<exists>c'. sw_cursor w' = Some (int_text c') \<and> filter (\<lambda>e. c' < se_sequence e) (own u (sw_history w)) = [])"
  using assms
proof (induction n arbitrary: w c)
  case (Suc n)
  define w1 where "w1 = sync_run dt u [Read_Floor, Read_Events limit] w"
  note round = read_round [OF Suc.prems(1-6) w1_def refl]
  obtain c1 where c1: "c \<le> c1" "sw_cursor w1 = Some (int_text c1)"
    "filter (\<lambda>e. c1 < se_sequence e) (own u (sw_history w)) = drop limit (filter (\<lambda>e. c < se_sequence e) (own u (sw_history w)))"
    using round(5) by blast
  have split: "sync_run dt u (listings (Suc n) limit) w = sync_run dt u (listings n limit) w1"
    by (simp add: listings_def sync_run_def w1_def)
  show ?case
  proof (cases "n = 0")
    case True
    then have "sync_run dt u (listings (Suc n) limit) w = w1" unfolding split by (simp add: listings_def sync_run_def)
    then show ?thesis using round c1 Suc.prems(7) True by (auto simp: Let_def)
  next
    case False
    have "let w' = sync_run dt u (listings n limit) w1
      in sync_inv dt u w' \<and> sw_start w' = Some a \<and> sw_history w' = sw_history w1 \<and> \<not> sw_more w' \<and>
         (\<exists>c'. sw_cursor w' = Some (int_text c') \<and> filter (\<lambda>e. c' < se_sequence e) (own u (sw_history w1)) = [])"
    proof (rule Suc.IH [OF round(1,2) c1(2)])
      show "length (filter (\<lambda>e. c1 < se_sequence e) (own u (sw_history w1))) \<le> n * limit"
        using c1(3) Suc.prems(7) round(4) by simp
    qed (use Suc.prems(4-6) round(3,4) c1(1) False in simp_all)
    then show ?thesis unfolding split using round(4) by simp
  qed
qed simp

subsection \<open>Events below the cursor\<close>

lemma int_text_inject [simp]: "int_text m = int_text n \<longleftrightarrow> m = n"
  by (metis js_integer_text option.inject)

definition past :: "int \<Rightarrow> nat \<Rightarrow> sync_world \<Rightarrow> bool" where
  "past c n w \<longleftrightarrow> n \<le> length (sw_received w) \<and> (\<exists>c' \<ge> c. sw_cursor w = Some (int_text c')) \<and>
     (\<forall>x \<in> set (drop n (sw_received w)). \<exists>m > c. we_sequence x = int_text m)"

lemma wire_sequence: "to_mobile_sync_event dt e = Some x \<Longrightarrow> we_sequence x = int_text (se_sequence e)"
  by (auto simp: to_mobile_sync_event_def Let_def split: option.splits if_splits)

lemma past_step:
  assumes "past c n w" "0 \<le> c" "step \<noteq> Bootstrap"
  shows "past c n (sync_at dt u step w) \<and> set (sw_history w) \<subseteq> set (sw_history (sync_at dt u step w))"
proof (cases step)
  case (Read_Events limit)
  show ?thesis
  proof (cases "sw_seen w")
    case (Some s)
    obtain c1 where c1: "c \<le> c1" "sw_cursor w = Some (int_text c1)" using assms(1) by (auto simp: past_def)
    show ?thesis
    proof (cases "list_mobile_sync dt s (sw_db w) (sw_cursor w) limit u")
      case (Inl e)
      then show ?thesis using assms(1) Read_Events Some by (simp add: past_def)
    next
      case (Inr p)
      define page where "page = take limit (events_after (sw_db w) (Some c1) u)"
      have above: "c1 < se_sequence e" if "e \<in> set page" for e
        using that by (auto simp: page_def events_after_def dest: in_set_takeD)
      have p: "those (map (to_mobile_sync_event dt) page) = Some (sp_events p)"
        "sp_next_cursor p = Some (int_text (if page = [] then c1 else se_sequence (last page)))"
        using Inr c1 assms(2) by (auto simp: list_mobile_sync_at page_def Let_def split: if_splits option.splits)
      have "\<exists>m > c. we_sequence x = int_text m" if x: "x \<in> set (sp_events p)" for x
      proof -
        have "Some x \<in> set (map (to_mobile_sync_event dt) page)" using those_SomeD [OF p(1)] x by (metis image_eqI set_map)
        then obtain e where "e \<in> set page" "to_mobile_sync_event dt e = Some x" by auto
        then show ?thesis using above c1(1) wire_sequence by fastforce
      qed
      moreover have "c \<le> (if page = [] then c1 else se_sequence (last page))" using c1(1) above [of "last page"] by auto
      ultimately show ?thesis using assms(1) Read_Events Some Inr p(2) by (auto simp: past_def)
    qed
  qed (use assms(1) Read_Events in \<open>simp add: past_def\<close>)
qed (use assms in \<open>auto simp: past_def append_user_sync_event_def commit_event_def\<close>)

lemma past_run:
  assumes "past c n w" "0 \<le> c" "Bootstrap \<notin> set steps"
  shows "past c n (sync_run dt u steps w) \<and> set (sw_history w) \<subseteq> set (sw_history (sync_run dt u steps w))"
  using assms
proof (induction steps arbitrary: w)
  case Nil
  then show ?case by (simp add: sync_run_def)
next
  case (Cons step steps)
  have one: "past c n (sync_at dt u step w) \<and> set (sw_history w) \<subseteq> set (sw_history (sync_at dt u step w))"
    using Cons.prems by (intro past_step) auto
  have "past c n (sync_run dt u steps (sync_at dt u step w)) \<and>
      set (sw_history (sync_at dt u step w)) \<subseteq> set (sw_history (sync_run dt u steps (sync_at dt u step w)))"
    by (rule Cons.IH) (use one Cons.prems in auto)
  then show ?case using one by (auto simp: sync_run_def)
qed


subsection \<open>Properties\<close>

text \<open>C15: While no two writes of an account overlap and no retention run falls between the two reads of a
  listing, a device that follows the journal has received, in order and without repetition, exactly the
  events of its account between where it began and its cursor, whatever else is committed, rolled back
  or pruned meanwhile.\<close>

theorem sync_never_skips:
  assumes "0 \<le> c0" "undisturbed u False steps" "w = sync_run dt u steps (sync_start c0)" "sw_start w = Some a"
  shows "\<exists>c. sw_cursor w = Some (int_text c) \<and>
    map Some (sw_received w) =
      map (to_mobile_sync_event dt) (filter (\<lambda>e. se_user e = u \<and> a < se_sequence e \<and> se_sequence e \<le> c) (sw_history w))"
proof -
  have "sync_inv dt u w"
    using sync_run_inv [OF sync_start_inv [OF assms(1)] assms(2)] assms(3) by (simp add: sync_start_def)
  then obtain c where "sw_cursor w = Some (int_text c)"
    "map Some (sw_received w) =
      map (to_mobile_sync_event dt) (filter (\<lambda>e. a < se_sequence e \<and> se_sequence e \<le> c) (own u (sw_history w)))"
    using assms(4) by (auto simp: sync_inv_def device_ok_def)
  then show ?thesis by (intro exI [of _ c]) (simp add: own_def conj_ac)
qed

definition zulu :: "string \<Rightarrow> bool" where
  "zulu s \<longleftrightarrow> s \<noteq> [] \<and> last s = CHR ''Z''"

definition view_event :: "string \<Rightarrow> time \<Rightarrow> sync_event" where
  "view_event u now =
     \<lparr>se_sequence = 0, se_user = u, se_resource_type = ''saved-view'', se_resource_id = ''v'', se_action = ''UPSERT'',
      se_version = ''1'', se_payload = JObj [(''id'', JStr ''v'')], se_occurred_at = now\<rparr>"

definition example_steps :: "sync_step list" where
  "example_steps =
     [Write (view_event ''u'' 0), Begin (view_event ''x'' 1), Write (view_event ''u'' 2), Read_Floor, Read_Events 1,
      Prune 1 20000000000, Commit 0, Write (view_event ''u'' 20000000001)]"

definition one_listed :: "sync_world \<Rightarrow> bool" where
  "one_listed w \<longleftrightarrow> length (sw_received w) = 1 \<and> length (sy_events (sw_db w)) = 3 \<and> sw_start w = Some 0"

theorem sync_never_skips_witness:
  "case sync_run zulu ''u'' example_steps (sync_start 0) of w \<Rightarrow>
     length (sw_received w) = 1 \<and> length (sy_events (sw_db w)) = 3 \<and>
     (\<exists>c. sw_cursor w = Some (int_text c) \<and>
        map Some (sw_received w) =
          map (to_mobile_sync_event zulu) (filter (\<lambda>e. se_user e = ''u'' \<and> 0 < se_sequence e \<and> se_sequence e \<le> c) (sw_history w)))"
proof -
  have "one_listed (sync_run zulu ''u'' example_steps (sync_start 0))" by code_simp
  moreover have "undisturbed ''u'' False example_steps" by code_simp
  ultimately show ?thesis
    using sync_never_skips [OF _ _ refl, of 0 "''u''" example_steps zulu 0] by (simp add: one_listed_def)
qed


lemma no_None_map: "None \<notin> set (map f xs) \<longleftrightarrow> (\<forall>x \<in> set xs. f x \<noteq> None)"
  by (induction xs) auto

definition short_steps :: "sync_step list" where
  "short_steps = [Write (view_event ''u'' 0), Write (view_event ''u'' 2), Read_Floor, Read_Events 1]"

definition behind_by_one :: "sync_world \<Rightarrow> bool" where
  "behind_by_one w \<longleftrightarrow>
     sw_start w = Some 0 \<and> sw_cursor w = Some (int_text 1) \<and> minimum_sequence (sw_db w) ''u'' - 1 \<le> 1 \<and>
     None \<notin> set (map (to_mobile_sync_event zulu) (own ''u'' (sw_history w))) \<and>
     length (filter (\<lambda>e. se_user e = ''u'' \<and> 1 < se_sequence e) (sw_history w)) \<le> 1 \<and>
     sw_more w \<and> length (sw_received (sync_run zulu ''u'' (listings 1 1) w)) = 2"


lemma start_at: "sw_cursor (sync_start c) = Some (int_text c)"
  by (simp add: sync_start_def)

lemma overlapping_writes:
  assumes "se_user e1 = u" "se_user e2 = u" "to_mobile_sync_event dt (e2\<lparr>se_sequence := 2\<rparr>) = Some x" "1 \<le> limit"
    and w: "w = sync_run dt u [Begin e1, Write e2, Read_Floor, Read_Events limit, Commit 0] (sync_start 0)"
  shows "past 1 0 w \<and> e1\<lparr>se_sequence := 1\<rparr> \<in> set (sw_history w)"
proof -
  define w1 where "w1 = sync_run dt u [Begin e1, Write e2, Read_Floor] (sync_start 0)"
  have w1: "w1 = (sync_start 0)\<lparr>sw_counter := 3, sw_open := [e1\<lparr>se_sequence := 1\<rparr>], sw_history := [e2\<lparr>se_sequence := 2\<rparr>],
      sw_db := (sw_db (sync_start 0))\<lparr>sy_events := [e2\<lparr>se_sequence := 2\<rparr>]\<rparr>,
      sw_seen := Some ((sw_db (sync_start 0))\<lparr>sy_events := [e2\<lparr>se_sequence := 2\<rparr>]\<rparr>)\<rparr>"
    by (simp add: w1_def sync_run_def write_eq sync_start_def append_user_sync_event_def del: sync_at.simps(2))
  have "events_after (sw_db w1) (Some 0) u = [e2\<lparr>se_sequence := 2\<rparr>]"
    using assms(2) by (simp add: w1 events_after_def)
  then have "list_mobile_sync dt (the (sw_seen w1)) (sw_db w1) (Some (int_text 0)) limit u =
      Inr \<lparr>sp_events = [x], sp_has_more = False, sp_next_cursor = Some (int_text 2)\<rparr>"
    using assms(3,4) by (cases limit) (simp_all add: list_mobile_sync_at w1 sync_start_def minimum_sequence_def Let_def)
  then have "sync_at dt u (Read_Events limit) w1 =
      w1\<lparr>sw_seen := None, sw_cursor := Some (int_text 2), sw_received := [x], sw_more := False\<rparr>"
    by (simp add: w1 start_at) (simp add: sync_start_def)
  then have "w = commit_event 0 (w1\<lparr>sw_seen := None, sw_cursor := Some (int_text 2), sw_received := [x], sw_more := False\<rparr>)"
    by (simp add: w w1_def sync_run_def)
  then show ?thesis using wire_sequence [OF assms(3)] by (auto simp: past_def commit_event_def w1)
qed

lemma pruned_between:
  assumes "se_user e1 = u" "se_user e2 = u" "to_mobile_sync_event dt (e2\<lparr>se_sequence := 2\<rparr>) = Some x" "1 \<le> limit"
    and "se_occurred_at e1 < now - 180 * 24 * 60 * 60 * 1000" "now - 180 * 24 * 60 * 60 * 1000 \<le> se_occurred_at e2"
    and w: "w = sync_run dt u [Write e1, Write e2, Read_Floor, Prune 250 now, Read_Events limit] (sync_start 0)"
  shows "past 1 0 w \<and> e1\<lparr>se_sequence := 1\<rparr> \<in> set (sw_history w)"
proof -
  define w1 where "w1 = sync_run dt u [Write e1, Write e2, Read_Floor] (sync_start 0)"
  define s where "s = (sw_db (sync_start 0))\<lparr>sy_events := [e1\<lparr>se_sequence := 1\<rparr>, e2\<lparr>se_sequence := 2\<rparr>]\<rparr>"
  have w1: "w1 = (sync_start 0)\<lparr>sw_counter := 3, sw_history := [e1\<lparr>se_sequence := 1\<rparr>, e2\<lparr>se_sequence := 2\<rparr>],
      sw_db := s, sw_seen := Some s\<rparr>"
    by (simp add: w1_def sync_run_def write_eq sync_start_def s_def del: sync_at.simps(2))
  define s' where "s' = snd (prune_mobile_sync_events 250 now s)"
  have "prune_candidates 250 (now - mobile_sync_retention_days * 24 * 60 * 60 * 1000) s = [e1\<lparr>se_sequence := 1\<rparr>]"
    using assms(5,6) by (simp add: prune_candidates_def s_def mobile_sync_retention_days_def sync_retention_batch_def)
  then have "sy_events s' = [e2\<lparr>se_sequence := 2\<rparr>]"
    using assms(5,6) by (simp add: s'_def prune_mobile_sync_events_def Let_def s_def mobile_sync_retention_days_def)
  then have "events_after s' (Some 0) u = [e2\<lparr>se_sequence := 2\<rparr>]" using assms(2) by (simp add: events_after_def)
  then have "list_mobile_sync dt s s' (Some (int_text 0)) limit u =
      Inr \<lparr>sp_events = [x], sp_has_more = False, sp_next_cursor = Some (int_text 2)\<rparr>"
    using assms(3,4) by (cases limit) (simp_all add: list_mobile_sync_at s_def sync_start_def minimum_sequence_def Let_def)
  then have "w = w1\<lparr>sw_db := s', sw_seen := None, sw_cursor := Some (int_text 2), sw_received := [x], sw_more := False\<rparr>"
    unfolding w s'_def w1_def sync_run_def
    by (simp add: w1 [unfolded w1_def sync_run_def, simplified] start_at) (simp add: sync_start_def)
  then show ?thesis using wire_sequence [OF assms(3)] by (auto simp: past_def w1)
qed

text \<open>C38: Both conditions are needed. When two writes of the account overlap and the one that drew its
  sequence first commits last, a listing in between moves the device past it; when a retention run
  falls between the two reads of a listing, the listing misses what it removed. In both cases the
  event is committed and no later listing delivers it.\<close>

theorem sync_skips_when_disturbed:
  assumes "se_user e1 = u" "se_user e2 = u" "to_mobile_sync_event dt (e2\<lparr>se_sequence := 2\<rparr>) \<noteq> None" "1 \<le> limit"
    and "se_occurred_at e1 < now - 180 * 24 * 60 * 60 * 1000" "now - 180 * 24 * 60 * 60 * 1000 \<le> se_occurred_at e2"
    and "first \<in> {[Begin e1, Write e2, Read_Floor, Read_Events limit, Commit 0],
      [Write e1, Write e2, Read_Floor, Prune 250 now, Read_Events limit]}" "Bootstrap \<notin> set steps"
  shows "let w = sync_run dt u (first @ steps) (sync_start 0)
    in e1\<lparr>se_sequence := 1\<rparr> \<in> set (sw_history w) \<and> ''1'' \<notin> we_sequence ` set (sw_received w)"
proof -
  obtain x where x: "to_mobile_sync_event dt (e2\<lparr>se_sequence := 2\<rparr>) = Some x" using assms(3) by blast
  define w where "w = sync_run dt u first (sync_start 0)"
  have "past 1 0 w \<and> e1\<lparr>se_sequence := 1\<rparr> \<in> set (sw_history w)"
    using assms(7) overlapping_writes [OF assms(1,2) x assms(4)] pruned_between [OF assms(1,2) x assms(4-6)]
    unfolding w_def by blast
  then have "past 1 0 (sync_run dt u steps w)" "e1\<lparr>se_sequence := 1\<rparr> \<in> set (sw_history (sync_run dt u steps w))"
    using past_run [of 1 0 w steps dt u] assms(8) by auto
  moreover have "int_text 1 = ''1''" by code_simp
  ultimately show ?thesis by (auto simp: Let_def w_def sync_run_def past_def)
qed

theorem sync_skips_when_disturbed_witness:
  "let w = sync_run zulu ''u'' ([Begin (view_event ''u'' 0), Write (view_event ''u'' 20000000001), Read_Floor, Read_Events 5, Commit 0] @
       [Read_Floor, Read_Events 5]) (sync_start 0)
    in (view_event ''u'' 0)\<lparr>se_sequence := 1\<rparr> \<in> set (sw_history w) \<and> ''1'' \<notin> we_sequence ` set (sw_received w)"
proof (rule sync_skips_when_disturbed [where ?e2.0 = "view_event ''u'' 20000000001" and limit = 5 and now = 20000000000])
  show "to_mobile_sync_event zulu (view_event ''u'' 20000000001\<lparr>se_sequence := 2\<rparr>) \<noteq> None" by code_simp
qed (simp_all add: view_event_def)

text \<open>C39: The journal row of an article that was read cannot be delivered: its times come from columns
  without a time zone, so their texts lack the designator that the response schema asks for, and every
  listing whose page contains the row throws.\<close>

theorem sync_read_article_stuck:
  assumes dt: "\<And>s. dt s \<Longrightarrow> s \<noteq> [] \<and> last s = CHR ''Z''"
    and e: "e = sync_article_state_change sequence now version st" "as_read_at st = Some t" "four_digit_year t"
    and page: "0 \<le> c" "e \<in> set (take limit (events_after s2 (Some c) u))" "minimum_sequence s1 u - 1 \<le> c"
  shows "list_mobile_sync dt s1 s2 (Some (int_text c)) limit u = Inl Invalid_Event"
proof -
  have "pg_timestamp t \<noteq> [] \<longrightarrow> last (pg_timestamp t) \<noteq> CHR ''Z''"
    using pg_timestamp_no_zone [OF e(3)] last_in_set by metis
  then have "\<not> dt (pg_timestamp t)" using dt by blast
  then have "to_mobile_sync_event dt e = None"
    using e(2) unfolding e(1) sync_article_state_change_def to_mobile_sync_event_def payload_schemas_def article_state_payload_def
    by (auto simp: strict_object_def json_field_def nullable_def timestamp_schema_def pg_json_timestamp_def Let_def split: option.split)
  then have "those (map (to_mobile_sync_event dt) (take limit (events_after s2 (Some c) u))) = None"
    unfolding those_None_iff using page(2) by (metis image_eqI set_map)
  then show ?thesis using page(3) by (simp add: list_mobile_sync_at [OF page(1)] Let_def)
qed


definition read_state :: article_state where
  "read_state =
     \<lparr>as_user = ''u'', as_article = ''a'', as_read = True, as_read_at = Some 1000, as_starred = False, as_starred_at = None,
      as_archived_at = None\<rparr>"

definition read_journal :: sync_db where
  "read_journal =
     \<lparr>sy_events = [sync_article_state_change 1 1000 ''1'' read_state], sy_floors = (\<lambda>u. None), sy_devices = []\<rparr>"

theorem sync_read_article_stuck_witness:
  "list_mobile_sync zulu read_journal read_journal (Some (int_text 0)) 100 ''u'' = Inl Invalid_Event"
proof (rule sync_read_article_stuck [where st = read_state and t = 1000])
  show "sync_article_state_change 1 1000 ''1'' read_state \<in> set (take 100 (events_after read_journal (Some 0) ''u''))"
    by (simp add: events_after_def read_journal_def) (simp add: sync_article_state_change_def read_state_def)
  show "four_digit_year 1000" by code_simp
qed (simp_all add: zulu_def read_state_def minimum_sequence_def read_journal_def)

end
