(* ===== verification/Mobile_Mutations.thy ===== *)
theory Mobile_Mutations
  imports Sync_Event Mobile_Auth
begin

text \<open>
  The mutations of a mobile device, \<open>src/lib/mobile-sync.ts\<close>: each carries an idempotency key, and a
  receipt in the same transaction keeps its result for a repeated request. The transaction is split
  where others can commit: it looks for the receipt (\<open>begin_mutation\<close>), then applies the change and
  writes the receipt (\<open>finish_mutation\<close>), where the unique index on device and key decides between
  overlapping requests. Texts of JSON follow \<open>stableJson\<close>; the order of \<open>localeCompare\<close> is the rank
  \<open>rank\<close> of a key.
\<close>

datatype mutation_error =
    Collection_Not_Found
  | Idempotency_Conflict
  | Installation_Conflict
  | Resource_Not_Found
  | Result_Too_Large
  | Constraint_Failed

record mutation_row =
  mw_id :: string
  mw_session :: "string option"
  mw_device :: string
  mw_key_hash :: string
  mw_operation :: string
  mw_request_hash :: string
  mw_reference :: "string option"
  mw_result :: "(string \<times> json) list"

record push_installation =
  pi_id :: string
  pi_session :: "string option"
  pi_device :: string
  pi_platform :: string
  pi_environment :: string
  pi_token_hash :: string
  pi_last_seen_at :: time
  pi_disabled_at :: "time option"
  pi_unregistered_at :: "time option"

record episode_state =
  es_user :: string
  es_episode :: string
  es_played :: bool
  es_starred :: bool
  es_position :: int
  es_played_at :: "time option"
  es_starred_at :: "time option"

record notification_preference =
  np_user :: string
  np_topic :: string
  np_channel :: string
  np_updated_at :: time

record mutation_db =
  mt_sessions :: "device_session list"
  mt_devices :: "mobile_device list"
  mt_receipts :: "mutation_row list"
  mt_installations :: "push_installation list"
  mt_reader :: reader_db
  mt_collections :: "(string \<times> string) list"
  mt_episodes :: "(string \<times> string) list"
  mt_podcast_subscriptions :: "(string \<times> string) list"
  mt_episode_states :: "episode_state list"
  mt_preferences :: "notification_preference list"

type_synonym mutation_result = "(string \<times> json) list"
type_synonym 'a mutation_action = "mutation_db \<Rightarrow> (mutation_error + 'a) \<times> mutation_db"

datatype environment_name = Development | Preview | Production

datatype mutation =
    Article_State string "bool option" "bool option" "bool option"
  | Collection_Add string string
  | Collection_Remove string string
  | Podcast_Progress string int
  | Podcast_State string "bool option" "bool option"
  | Preference string string
  | Register environment_name string
  | Unregister string

subsection \<open>Texts\<close>

definition hash_mobile_value :: "crypto \<Rightarrow> string \<Rightarrow> string \<Rightarrow> string" where
  "hash_mobile_value cr context_name v =
     hex_text (cr_sha256 cr (''arctic-rss-mobile:'' @ context_name @ '':'' @ v))"

fun stable_json :: "(string \<Rightarrow> nat) \<Rightarrow> json \<Rightarrow> string"
  and stable_items :: "(string \<Rightarrow> nat) \<Rightarrow> json list \<Rightarrow> string list"
  and stable_members :: "(string \<Rightarrow> nat) \<Rightarrow> (string \<times> json) list \<Rightarrow> (string \<times> string) list" where
  "stable_json rank (JArr xs) = ''['' @ js_join CHR '','' (stable_items rank xs) @ '']''"
| "stable_json rank (JObj ms) =
     ''{'' @ js_join CHR '','' (map (\<lambda>m. quote_text (fst m) @ '':'' @ snd m)
       (sort_key (\<lambda>m. rank (fst m)) (stable_members rank ms))) @ ''}''"
| "stable_json rank v = json_text v"
| "stable_items rank [] = []"
| "stable_items rank (x # xs) = stable_json rank x # stable_items rank xs"
| "stable_members rank [] = []"
| "stable_members rank ((k, x) # ms) = (k, stable_json rank x) # stable_members rank ms"

definition iso :: "time option \<Rightarrow> json" where
  "iso t = (case t of None \<Rightarrow> JNull | Some t \<Rightarrow> JStr (to_iso_string t))"

definition article_state_result :: "article_state \<Rightarrow> mutation_result" where
  "article_state_result r =
     [(''archivedAt'', iso (as_archived_at r)), (''articleId'', JStr (as_article r)), (''isRead'', JBool (as_read r)),
      (''isStarred'', JBool (as_starred r)), (''readAt'', iso (as_read_at r)), (''starredAt'', iso (as_starred_at r))]"

definition podcast_state_result :: "episode_state \<Rightarrow> mutation_result" where
  "podcast_state_result r =
     [(''episodeId'', JStr (es_episode r)), (''isPlayed'', JBool (es_played r)), (''isStarred'', JBool (es_starred r)),
      (''playedAt'', iso (es_played_at r)), (''playbackPositionSeconds'', JNum (int_text (es_position r))),
      (''starredAt'', iso (es_starred_at r))]"

definition notification_preference_result :: "notification_preference \<Rightarrow> mutation_result" where
  "notification_preference_result r =
     [(''channel'', JStr (np_channel r)), (''topic'', JStr (np_topic r)), (''updatedAt'', JStr (to_iso_string (np_updated_at r)))]"

definition installation_result :: "push_installation \<Rightarrow> string \<Rightarrow> mutation_result" where
  "installation_result i status =
     [(''installationId'', JStr (pi_id i)), (''lastSeenAt'', JStr (to_iso_string (pi_last_seen_at i))), (''status'', JStr status)]"

definition collection_result :: "string \<Rightarrow> string \<Rightarrow> bool \<Rightarrow> mutation_result" where
  "collection_result article collection removed =
     [(''articleId'', JStr article), (''collectionId'', JStr collection), (''removed'', JBool removed)]"

subsection \<open>The changes\<close>

definition upsert :: "('r \<Rightarrow> bool) \<Rightarrow> 'r \<Rightarrow> ('r \<Rightarrow> 'r) \<Rightarrow> 'r list \<Rightarrow> 'r list" where
  "upsert p row f t = (if list_ex p t then map (\<lambda>r. if p r then f r else r) t else t @ [row])"

definition accessible_article :: "mutation_db \<Rightarrow> string \<Rightarrow> string \<Rightarrow> article option" where
  "accessible_article s u i =
     List.find (\<lambda>a. article_access_where (mt_reader s) u a \<and> ra_id a = i) (rd_articles (mt_reader s))"

definition changed_article_state ::
  "time \<Rightarrow> bool option \<Rightarrow> bool option \<Rightarrow> bool option \<Rightarrow> article_state \<Rightarrow> article_state" where
  "changed_article_state now is_archived is_read is_starred previous =
     (let r1 = (case is_read of None \<Rightarrow> previous
            | Some b \<Rightarrow> previous\<lparr>as_read := b, as_read_at := (if b then Some now else None)\<rparr>);
          r2 = (case is_starred of None \<Rightarrow> r1
            | Some b \<Rightarrow> r1\<lparr>as_starred := b, as_starred_at := (if b then Some now else None)\<rparr>)
      in case is_archived of None \<Rightarrow> r2
         | Some b \<Rightarrow> if b then r2\<lparr>as_archived_at := Some now, as_read := True, as_read_at := Some now\<rparr>
             else r2\<lparr>as_archived_at := None\<rparr>)"

definition update_mobile_article_state ::
  "string \<Rightarrow> time \<Rightarrow> string \<Rightarrow> bool option \<Rightarrow> bool option \<Rightarrow> bool option \<Rightarrow> mutation_result mutation_action" where
  "update_mobile_article_state u now article_id is_archived is_read is_starred s =
     (case accessible_article s u article_id of
        None \<Rightarrow> (Inl Resource_Not_Found, s)
      | Some a \<Rightarrow>
          let rd = mt_reader s;
              previous = (case List.find (is_state_of u (ra_id a)) (rd_states rd) of
                None \<Rightarrow> new_state u (ra_id a) | Some r \<Rightarrow> r);
              r = changed_article_state now is_archived is_read is_starred previous
          in (Inr (article_state_result r),
              s\<lparr>mt_reader := rd\<lparr>rd_states := upsert (is_state_of u (ra_id a)) r (\<lambda>x. r) (rd_states rd)\<rparr>\<rparr>))"

definition own_collection :: "mutation_db \<Rightarrow> string \<Rightarrow> string \<Rightarrow> bool" where
  "own_collection s u c \<longleftrightarrow> (c, u) \<in> set (mt_collections s)"

definition is_item :: "string \<Rightarrow> string \<Rightarrow> collection_item \<Rightarrow> bool" where
  "is_item collection article i \<longleftrightarrow> ci_collection i = collection \<and> ci_article i = article"

definition add_mobile_collection_item :: "string \<Rightarrow> string \<Rightarrow> string \<Rightarrow> mutation_result mutation_action" where
  "add_mobile_collection_item u article_id collection_id s =
     (case accessible_article s u article_id of
        None \<Rightarrow> (Inl Resource_Not_Found, s)
      | Some a \<Rightarrow>
          if \<not> own_collection s u collection_id then (Inl Collection_Not_Found, s)
          else (Inr (collection_result (ra_id a) collection_id False),
                s\<lparr>mt_reader := (mt_reader s)\<lparr>rd_items := upsert (is_item collection_id (ra_id a))
                  \<lparr>ci_collection = collection_id, ci_owner = u, ci_article = ra_id a\<rparr> (\<lambda>x. x) (rd_items (mt_reader s))\<rparr>\<rparr>))"

definition remove_mobile_collection_item :: "string \<Rightarrow> string \<Rightarrow> string \<Rightarrow> mutation_result mutation_action" where
  "remove_mobile_collection_item u article_id collection_id s =
     (if \<not> own_collection s u collection_id then (Inl Collection_Not_Found, s)
      else let items = rd_items (mt_reader s)
        in (Inr (collection_result article_id collection_id (list_ex (is_item collection_id article_id) items)),
            s\<lparr>mt_reader := (mt_reader s)\<lparr>rd_items := filter (\<lambda>i. \<not> is_item collection_id article_id i) items\<rparr>\<rparr>))"

definition is_episode_state :: "string \<Rightarrow> string \<Rightarrow> episode_state \<Rightarrow> bool" where
  "is_episode_state u e r \<longleftrightarrow> es_user r = u \<and> es_episode r = e"

definition accessible_episode :: "mutation_db \<Rightarrow> string \<Rightarrow> string \<Rightarrow> bool" where
  "accessible_episode s u e \<longleftrightarrow>
     list_ex (\<lambda>x. fst x = e \<and> (u, snd x) \<in> set (mt_podcast_subscriptions s)) (mt_episodes s)"

definition new_episode_state :: "string \<Rightarrow> string \<Rightarrow> episode_state" where
  "new_episode_state u e =
     \<lparr>es_user = u, es_episode = e, es_played = False, es_starred = False, es_position = 0, es_played_at = None, es_starred_at = None\<rparr>"

definition update_mobile_podcast_state ::
  "string \<Rightarrow> string \<Rightarrow> (episode_state \<Rightarrow> episode_state) \<Rightarrow> mutation_result mutation_action" where
  "update_mobile_podcast_state u episode_id change s =
     (if \<not> accessible_episode s u episode_id then (Inl Resource_Not_Found, s)
      else let previous = (case List.find (is_episode_state u episode_id) (mt_episode_states s) of
                 None \<Rightarrow> new_episode_state u episode_id | Some r \<Rightarrow> r);
               r = change previous
        in (Inr (podcast_state_result r),
            s\<lparr>mt_episode_states := upsert (is_episode_state u episode_id) r (\<lambda>x. r) (mt_episode_states s)\<rparr>))"

definition played_state :: "time \<Rightarrow> bool option \<Rightarrow> bool option \<Rightarrow> episode_state \<Rightarrow> episode_state" where
  "played_state now is_played is_starred previous =
     (let r = (case is_played of None \<Rightarrow> previous
            | Some b \<Rightarrow> previous\<lparr>es_played := b, es_played_at := (if b then Some now else None)\<rparr>)
      in case is_starred of None \<Rightarrow> r
         | Some b \<Rightarrow> r\<lparr>es_starred := b, es_starred_at := (if b then Some now else None)\<rparr>)"

definition is_preference :: "string \<Rightarrow> string \<Rightarrow> notification_preference \<Rightarrow> bool" where
  "is_preference u topic r \<longleftrightarrow> np_user r = u \<and> np_topic r = topic"

definition upsert_preference :: "string \<Rightarrow> time \<Rightarrow> string \<Rightarrow> string \<Rightarrow> mutation_result mutation_action" where
  "upsert_preference u now topic channel s =
     (let r = \<lparr>np_user = u, np_topic = topic, np_channel = channel, np_updated_at = now\<rparr>
      in (Inr (notification_preference_result r),
          s\<lparr>mt_preferences := upsert (is_preference u topic) r (\<lambda>x. r) (mt_preferences s)\<rparr>))"

definition list_mobile_notification_preferences :: "string \<Rightarrow> time \<Rightarrow> mutation_db \<Rightarrow> mutation_result list \<times> mutation_db" where
  "list_mobile_notification_preferences u now s =
     (let missing = filter (\<lambda>topic. \<not> list_ex (is_preference u topic) (mt_preferences s)) notification_topics;
          rows = mt_preferences s @
            map (\<lambda>topic. \<lparr>np_user = u, np_topic = topic, np_channel = ''IN_APP'', np_updated_at = now\<rparr>) missing
      in (map notification_preference_result (sort_key np_topic (filter (\<lambda>r. np_user r = u) rows)), s\<lparr>mt_preferences := rows\<rparr>))"

fun environment_text :: "environment_name \<Rightarrow> string" where
  "environment_text Development = ''development''"
| "environment_text Preview = ''preview''"
| "environment_text Production = ''production''"

definition register_mobile_device_installation ::
  "crypto \<Rightarrow> string \<Rightarrow> string \<Rightarrow> string \<Rightarrow> string \<Rightarrow> time \<Rightarrow> environment_name \<Rightarrow> string \<Rightarrow> mutation_result mutation_action" where
  "register_mobile_device_installation cr u device session new_id now environment push_token s =
     (let token_hash = hash_mobile_value cr ''installation-token'' push_token;
          existing = row_at pi_token_hash token_hash (mt_installations s);
          foreign = (case existing of None \<Rightarrow> False
            | Some i \<Rightarrow> \<not> list_ex (\<lambda>d. md_id d = pi_device i \<and> md_user d = u) (mt_devices s));
          row = \<lparr>pi_id = (case existing of None \<Rightarrow> new_id | Some i \<Rightarrow> pi_id i), pi_session = Some session, pi_device = device,
            pi_platform = ''android'', pi_environment = environment_text environment, pi_token_hash = token_hash,
            pi_last_seen_at = now, pi_disabled_at = None, pi_unregistered_at = None\<rparr>
      in if foreign then (Inl Installation_Conflict, s)
         else if device \<notin> md_id ` set (mt_devices s) \<or> session \<notin> ds_id ` set (mt_sessions s) \<or>
             (existing = None \<and> new_id \<in> pi_id ` set (mt_installations s)) then (Inl Constraint_Failed, s)
         else (Inr (installation_result row ''ACTIVE''),
               s\<lparr>mt_installations := upsert (\<lambda>i. pi_token_hash i = token_hash) row (\<lambda>x. row) (mt_installations s)\<rparr>))"

definition unregister_mobile_device_installation ::
  "crypto \<Rightarrow> string \<Rightarrow> time \<Rightarrow> string \<Rightarrow> mutation_result mutation_action" where
  "unregister_mobile_device_installation cr device now push_token s =
     (let token_hash = hash_mobile_value cr ''installation-token'' push_token
      in case List.find (\<lambda>i. pi_device i = device \<and> pi_token_hash i = token_hash) (mt_installations s) of
           None \<Rightarrow> (Inl Resource_Not_Found, s)
         | Some i \<Rightarrow>
             (Inr (installation_result i ''DISABLED''),
              s\<lparr>mt_installations := fst (update_many (\<lambda>x. pi_id x = pi_id i)
                (\<lambda>x. x\<lparr>pi_disabled_at := Some now, pi_unregistered_at := Some now\<rparr>) (mt_installations s))\<rparr>))"

definition disable_mobile_device_installations :: "string \<Rightarrow> time \<Rightarrow> mutation_db \<Rightarrow> mutation_db" where
  "disable_mobile_device_installations device now s =
     s\<lparr>mt_installations := fst (update_many (\<lambda>i. pi_device i = device \<and> pi_disabled_at i = None)
       (\<lambda>i. i\<lparr>pi_disabled_at := Some now, pi_unregistered_at := Some now\<rparr>) (mt_installations s))\<rparr>"

subsection \<open>One request\<close>

record mutation_request =
  mq_device :: string
  mq_session :: string
  mq_user :: string
  mq_key :: string
  mq_mutation :: mutation
  mq_receipt_id :: string
  mq_installation_id :: string
  mq_now :: time

definition optional_flag :: "string \<Rightarrow> bool option \<Rightarrow> (string \<times> json) list" where
  "optional_flag k b = (case b of None \<Rightarrow> [] | Some x \<Rightarrow> [(k, JBool x)])"

fun mutation_input :: "mutation \<Rightarrow> json" where
  "mutation_input (Article_State a archived rd starred) =
     JObj ((''articleId'', JStr a) # optional_flag ''isArchived'' archived @ optional_flag ''isRead'' rd @ optional_flag ''isStarred'' starred)"
| "mutation_input (Collection_Add a c) = JObj [(''articleId'', JStr a), (''collectionId'', JStr c)]"
| "mutation_input (Collection_Remove a c) = JObj [(''articleId'', JStr a), (''collectionId'', JStr c)]"
| "mutation_input (Podcast_Progress e n) = JObj [(''playbackPositionSeconds'', JNum (int_text n)), (''episodeId'', JStr e)]"
| "mutation_input (Podcast_State e played starred) =
     JObj (optional_flag ''isPlayed'' played @ optional_flag ''isStarred'' starred @ [(''episodeId'', JStr e)])"
| "mutation_input (Preference topic channel) = JObj [(''channel'', JStr channel), (''topic'', JStr topic)]"
| "mutation_input (Register env t) = JObj [(''environment'', JStr (environment_text env)), (''pushToken'', JStr t)]"
| "mutation_input (Unregister t) = JObj [(''pushToken'', JStr t)]"

fun mutation_operation :: "mutation \<Rightarrow> string" where
  "mutation_operation (Article_State a x y z) = ''ARTICLE_STATE_UPDATE''"
| "mutation_operation (Collection_Add a c) = ''COLLECTION_ITEM_ADD''"
| "mutation_operation (Collection_Remove a c) = ''COLLECTION_ITEM_REMOVE''"
| "mutation_operation (Podcast_Progress e n) = ''PODCAST_EPISODE_PROGRESS_UPDATE''"
| "mutation_operation (Podcast_State e x y) = ''PODCAST_EPISODE_STATE_UPDATE''"
| "mutation_operation (Preference t c) = ''NOTIFICATION_PREFERENCE_UPDATE''"
| "mutation_operation (Register env t) = ''DEVICE_INSTALLATION_REGISTER''"
| "mutation_operation (Unregister t) = ''DEVICE_INSTALLATION_UNREGISTER''"

fun mutation_reference :: "mutation \<Rightarrow> string option" where
  "mutation_reference (Article_State a archived x y) = (if archived = None then None else Some ''article-state'')"
| "mutation_reference (Collection_Add a c) = Some c"
| "mutation_reference (Collection_Remove a c) = Some c"
| "mutation_reference (Podcast_Progress e n) = Some e"
| "mutation_reference (Podcast_State e x y) = Some e"
| "mutation_reference (Preference t c) = Some t"
| "mutation_reference (Register env t) = None"
| "mutation_reference (Unregister t) = None"

definition run_mutation :: "crypto \<Rightarrow> mutation_request \<Rightarrow> mutation_result mutation_action" where
  "run_mutation cr q =
     (let u = mq_user q; now = mq_now q
      in case mq_mutation q of
           Article_State a archived rd starred \<Rightarrow> update_mobile_article_state u now a archived rd starred
         | Collection_Add a c \<Rightarrow> add_mobile_collection_item u a c
         | Collection_Remove a c \<Rightarrow> remove_mobile_collection_item u a c
         | Podcast_Progress e n \<Rightarrow> update_mobile_podcast_state u e (\<lambda>r. r\<lparr>es_position := n\<rparr>)
         | Podcast_State e played starred \<Rightarrow> update_mobile_podcast_state u e (played_state now played starred)
         | Preference topic channel \<Rightarrow> upsert_preference u now topic channel
         | Register env t \<Rightarrow>
             register_mobile_device_installation cr u (mq_device q) (mq_session q) (mq_installation_id q) now env t
         | Unregister t \<Rightarrow> unregister_mobile_device_installation cr (mq_device q) now t)"

definition request_hash :: "crypto \<Rightarrow> (string \<Rightarrow> nat) \<Rightarrow> mutation_request \<Rightarrow> string" where
  "request_hash cr rank q =
     hash_mobile_value cr ''mutation-request''
       (stable_json rank (JObj [(''input'', mutation_input (mq_mutation q)), (''operation'', JStr (mutation_operation (mq_mutation q)))]))"

definition key_hash :: "crypto \<Rightarrow> mutation_request \<Rightarrow> string" where
  "key_hash cr q = hash_mobile_value cr ''idempotency-key'' (mq_key q)"

definition find_receipt :: "crypto \<Rightarrow> mutation_request \<Rightarrow> mutation_db \<Rightarrow> mutation_row option" where
  "find_receipt cr q s = List.find (\<lambda>r. mw_device r = mq_device q \<and> mw_key_hash r = key_hash cr q) (mt_receipts s)"

definition replay_receipt ::
  "crypto \<Rightarrow> (string \<Rightarrow> nat) \<Rightarrow> mutation_request \<Rightarrow> mutation_row \<Rightarrow> mutation_error + mutation_result \<times> bool" where
  "replay_receipt cr rank q r =
     (if mw_operation r \<noteq> mutation_operation (mq_mutation q) \<or> mw_request_hash r \<noteq> request_hash cr rank q
      then Inl Idempotency_Conflict else Inr (mw_result r, True))"

definition bounded_result :: "mutation_result \<Rightarrow> bool" where
  "bounded_result r \<longleftrightarrow> utf8_length (json_text (JObj r)) \<le> 4096"

text \<open>The first statements of the transaction: the outcome when it ends with them.\<close>

definition begin_mutation ::
  "crypto \<Rightarrow> (string \<Rightarrow> nat) \<Rightarrow> mutation_request \<Rightarrow> mutation_db \<Rightarrow> (mutation_error + mutation_result \<times> bool) option" where
  "begin_mutation cr rank q s =
     (if \<not> list_ex (\<lambda>x. ds_id x = mq_session q \<and> ds_device x = Some (mq_device q)) (mt_sessions s) \<or> mq_device q = []
      then Some (Inl Resource_Not_Found)
      else map_option (replay_receipt cr rank q) (find_receipt cr q s))"

definition receipt_row :: "crypto \<Rightarrow> (string \<Rightarrow> nat) \<Rightarrow> mutation_request \<Rightarrow> mutation_result \<Rightarrow> mutation_row" where
  "receipt_row cr rank q result =
     \<lparr>mw_id = mq_receipt_id q, mw_session = Some (mq_session q), mw_device = mq_device q, mw_key_hash = key_hash cr q,
      mw_operation = mutation_operation (mq_mutation q), mw_request_hash = request_hash cr rank q,
      mw_reference = mutation_reference (mq_mutation q), mw_result = result\<rparr>"

text \<open>The rest of it. A receipt that another transaction committed meanwhile undoes the change and is replayed.\<close>

definition finish_mutation ::
  "crypto \<Rightarrow> (string \<Rightarrow> nat) \<Rightarrow> mutation_request \<Rightarrow> mutation_db \<Rightarrow> (mutation_error + mutation_result \<times> bool) \<times> mutation_db" where
  "finish_mutation cr rank q s =
     (case run_mutation cr q s of
        (Inl e, s') \<Rightarrow> (Inl e, s)
      | (Inr result, s') \<Rightarrow>
          if \<not> bounded_result result then (Inl Result_Too_Large, s)
          else (case find_receipt cr q s of
              Some r \<Rightarrow> (replay_receipt cr rank q r, s)
            | None \<Rightarrow>
                if mq_session q \<notin> ds_id ` set (mt_sessions s) \<or> mq_device q \<notin> md_id ` set (mt_devices s) \<or>
                    mq_receipt_id q \<in> mw_id ` set (mt_receipts s)
                then (Inl Constraint_Failed, s)
                else (Inr (result, False), s'\<lparr>mt_receipts := mt_receipts s' @ [receipt_row cr rank q result]\<rparr>)))"

definition run_idempotent_mobile_mutation ::
  "crypto \<Rightarrow> (string \<Rightarrow> nat) \<Rightarrow> (mutation_db \<Rightarrow> mutation_db) \<Rightarrow> mutation_request \<Rightarrow> mutation_db \<Rightarrow>
   (mutation_error + mutation_result \<times> bool) \<times> mutation_db" where
  "run_idempotent_mobile_mutation cr rank env q s =
     (case begin_mutation cr rank q s of
        Some outcome \<Rightarrow> (outcome, s)
      | None \<Rightarrow> finish_mutation cr rank q (env s))"

end
