(* ===== verification/Mutation_Safety.thy ===== *)
theory Mutation_Safety
  imports Mobile_Mutations
begin

text \<open>
  Idempotent mutations: overlapping requests with one key are applied once and all get the same
  result, and a mutation touches no row of another account.
\<close>

record mutation_world =
  mx_db :: mutation_db
  mx_open :: "nat \<Rightarrow> bool"
  mx_results :: "nat \<Rightarrow> (mutation_error + mutation_result \<times> bool) option"

text \<open>Request \<open>i\<close> of the schedule begins or finishes; or others write.\<close>

datatype mutation_step =
    Begin_Request nat
  | Finish_Request nat
  | Others "mutation_db \<Rightarrow> mutation_db"

fun mutation_at ::
  "crypto \<Rightarrow> (string \<Rightarrow> nat) \<Rightarrow> (nat \<Rightarrow> mutation_request) \<Rightarrow> mutation_step \<Rightarrow> mutation_world \<Rightarrow> mutation_world" where
  "mutation_at cr rank qs (Begin_Request i) w =
     (if mx_open w i \<or> mx_results w i \<noteq> None then w
      else case begin_mutation cr rank (qs i) (mx_db w) of
             None \<Rightarrow> w\<lparr>mx_open := (mx_open w)(i := True)\<rparr>
           | Some outcome \<Rightarrow> w\<lparr>mx_results := (mx_results w)(i \<mapsto> outcome)\<rparr>)"
| "mutation_at cr rank qs (Finish_Request i) w =
     (if \<not> mx_open w i then w
      else case finish_mutation cr rank (qs i) (mx_db w) of
             (outcome, s) \<Rightarrow>
               w\<lparr>mx_db := s, mx_open := (mx_open w)(i := False), mx_results := (mx_results w)(i \<mapsto> outcome)\<rparr>)"
| "mutation_at cr rank qs (Others f) w = w\<lparr>mx_db := f (mx_db w)\<rparr>"

definition mutation_run ::
  "crypto \<Rightarrow> (string \<Rightarrow> nat) \<Rightarrow> (nat \<Rightarrow> mutation_request) \<Rightarrow> mutation_step list \<Rightarrow> mutation_db \<Rightarrow> mutation_world" where
  "mutation_run cr rank qs steps s =
     fold (mutation_at cr rank qs) steps \<lparr>mx_db = s, mx_open = (\<lambda>i. False), mx_results = (\<lambda>i. None)\<rparr>"

text \<open>A request that runs alone is the function of the source.\<close>

lemma mutation_run_alone:
  "mutation_run cr rank qs [Begin_Request i, Others env, Finish_Request i] s = w \<Longrightarrow>
   mx_results w i = Some (fst (run_idempotent_mobile_mutation cr rank env (qs i) s)) \<and>
   (begin_mutation cr rank (qs i) s = None \<longrightarrow> mx_db w = snd (run_idempotent_mobile_mutation cr rank env (qs i) s))"
  by (auto simp: mutation_run_def run_idempotent_mobile_mutation_def split: option.splits prod.splits)

subsection \<open>Receipts\<close>

lemma run_mutation_receipts:
  assumes "run_mutation cr q s = (res, s')"
  shows "mt_receipts s' = mt_receipts s"
  using assms
  by (auto simp: run_mutation_def update_mobile_article_state_def add_mobile_collection_item_def
      remove_mobile_collection_item_def update_mobile_podcast_state_def upsert_preference_def
      register_mobile_device_installation_def unregister_mobile_device_installation_def Let_def
      split: mutation.splits option.splits if_splits)

lemma find_append_Some: "List.find P xs = Some x \<Longrightarrow> List.find P (xs @ ys) = Some x"
  by (induction xs) (auto split: if_splits)

lemma find_append_None: "List.find P xs = None \<Longrightarrow> List.find P (xs @ ys) = List.find P ys"
  by (induction xs) (auto split: if_splits)

text \<open>What a successful outcome says about the receipts after it.\<close>

definition recorded ::
  "crypto \<Rightarrow> (string \<Rightarrow> nat) \<Rightarrow> mutation_request \<Rightarrow> mutation_result \<Rightarrow> mutation_db \<Rightarrow> bool" where
  "recorded cr rank q result s \<longleftrightarrow>
     (\<exists>row. find_receipt cr q s = Some row \<and> mw_operation row = mutation_operation (mq_mutation q) \<and>
        mw_request_hash row = request_hash cr rank q \<and> mw_result row = result)"

lemma replay_recorded:
  "replay_receipt cr rank q row = Inr (result, b) \<Longrightarrow> find_receipt cr q s = Some row \<Longrightarrow> b \<and> recorded cr rank q result s"
  by (auto simp: replay_receipt_def recorded_def split: if_splits)

lemma begin_recorded:
  "begin_mutation cr rank q s = Some (Inr (result, b)) \<Longrightarrow> b \<and> recorded cr rank q result s"
  by (auto simp: begin_mutation_def split: if_splits dest: replay_recorded)

lemma finish_cases:
  assumes "finish_mutation cr rank q s = (outcome, s')"
  obtains (applied) result where "outcome = Inr (result, False)" "find_receipt cr q s = None"
      "mt_receipts s' = mt_receipts s @ [receipt_row cr rank q result]"
      "s' = (snd (run_mutation cr q s))\<lparr>mt_receipts := mt_receipts s'\<rparr>" "fst (run_mutation cr q s) = Inr result"
    | (replayed) result where "outcome = Inr (result, True)" "recorded cr rank q result s" "s' = s"
    | (failed) e where "outcome = Inl e" "s' = s"
proof (cases "run_mutation cr q s")
  case (Pair res t)
  show thesis
  proof (cases res)
    case (Inl e)
    then have "outcome = Inl e" "s' = s" using assms Pair by (simp_all add: finish_mutation_def)
    then show thesis by (rule failed)
  next
    case (Inr result)
    show thesis
    proof (cases "bounded_result result")
      case False
      then have "outcome = Inl Result_Too_Large" "s' = s" using assms Pair Inr by (simp_all add: finish_mutation_def)
      then show thesis by (rule failed)
    next
      case bounded: True
      show thesis
      proof (cases "find_receipt cr q s")
        case (Some row)
        then have "outcome = replay_receipt cr rank q row" "s' = s"
          using assms Pair Inr bounded by (simp_all add: finish_mutation_def)
        then show thesis using Some failed replayed replay_recorded [of cr rank q row _ _ s]
          by (cases outcome) (auto simp: replay_receipt_def split: if_splits)
      next
        case None
        then show thesis using assms Pair Inr bounded failed applied run_mutation_receipts [OF Pair]
          by (auto simp: finish_mutation_def split: if_splits)
      qed
    qed
  qed
qed

lemma recorded_append:
  "recorded cr rank q result s \<Longrightarrow> mt_receipts s' = mt_receipts s @ rows \<Longrightarrow> recorded cr rank q result s'"
  by (auto simp: recorded_def find_receipt_def dest: find_append_Some)

lemma recorded_row:
  assumes "find_receipt cr q s = None" "mt_receipts s' = mt_receipts s @ [receipt_row cr rank q result]"
  shows "recorded cr rank q result s'"
  using assms find_append_None [of _ "mt_receipts s"]
  by (simp add: recorded_def find_receipt_def receipt_row_def)

subsection \<open>The invariant\<close>

definition same_key :: "mutation_request \<Rightarrow> mutation_request \<Rightarrow> bool" where
  "same_key q q' \<longleftrightarrow> mq_device q = mq_device q' \<and> mq_key q = mq_key q'"

lemma same_key_find: "same_key q q' \<Longrightarrow> find_receipt cr q s = find_receipt cr q' s"
  by (simp add: same_key_def find_receipt_def key_hash_def)

definition mutation_inv ::
  "crypto \<Rightarrow> (string \<Rightarrow> nat) \<Rightarrow> (nat \<Rightarrow> mutation_request) \<Rightarrow> mutation_world \<Rightarrow> bool" where
  "mutation_inv cr rank qs w \<longleftrightarrow>
     (\<forall>i result b. mx_results w i = Some (Inr (result, b)) \<longrightarrow> recorded cr rank (qs i) result (mx_db w)) \<and>
     (\<forall>i j result result'. mx_results w i = Some (Inr (result, False)) \<and> mx_results w j = Some (Inr (result', False)) \<and>
        same_key (qs i) (qs j) \<longrightarrow> i = j) \<and>
     (\<forall>i. mx_open w i \<longrightarrow> mx_results w i = None)"

lemma mutation_at_inv:
  assumes inv: "mutation_inv cr rank qs w" and others: "\<And>f s. step = Others f \<Longrightarrow> mt_receipts (f s) = mt_receipts s"
  shows "mutation_inv cr rank qs (mutation_at cr rank qs step w)"
proof (cases step)
  case (Begin_Request i)
  show ?thesis
  proof (cases "mx_open w i \<or> mx_results w i \<noteq> None")
    case True
    then show ?thesis using inv Begin_Request by auto
  next
    case False
    show ?thesis
    proof (cases "begin_mutation cr rank (qs i) (mx_db w)")
      case None
      then show ?thesis using inv Begin_Request False by (auto simp: mutation_inv_def)
    next
      case (Some outcome)
      have "recorded cr rank (qs i) result (mx_db w) \<and> b" if "outcome = Inr (result, b)" for result b
        using begin_recorded Some that by blast
      then show ?thesis using inv Begin_Request False Some unfolding mutation_inv_def by auto
    qed
  qed
next
  case (Finish_Request i)
  show ?thesis
  proof (cases "mx_open w i")
    case False
    then show ?thesis using inv Finish_Request by simp
  next
    case True
    obtain outcome s' where f: "finish_mutation cr rank (qs i) (mx_db w) = (outcome, s')" by fastforce
    have w': "mutation_at cr rank qs step w =
        w\<lparr>mx_db := s', mx_open := (mx_open w)(i := False), mx_results := (mx_results w)(i \<mapsto> outcome)\<rparr>"
      using Finish_Request True f by simp
    from f show ?thesis
    proof (cases rule: finish_cases)
      case (applied result)
      have kept: "recorded cr rank q r s'" if "recorded cr rank q r (mx_db w)" for q r
        using recorded_append [OF that applied(3)] .
      have now: "recorded cr rank (qs i) result s'" by (rule recorded_row [OF applied(2,3)])
      have none: "\<not> same_key (qs i) (qs j)" if "mx_results w j = Some (Inr (r, b))" for j r b
      proof
        assume "same_key (qs i) (qs j)"
        then have "find_receipt cr (qs j) (mx_db w) = None" using same_key_find applied(2) by metis
        moreover have "recorded cr rank (qs j) r (mx_db w)" using inv that unfolding mutation_inv_def by blast
        ultimately show False by (simp add: recorded_def)
      qed
      have none': "\<not> same_key (qs j) (qs i)" if "mx_results w j = Some (Inr (r, b))" for j r b
        using none [OF that] by (auto simp: same_key_def)
      show ?thesis using inv kept now none none' unfolding w' mutation_inv_def applied(1)
        by (simp split: if_splits) blast
    next
      case (replayed result)
      then show ?thesis using inv unfolding w' mutation_inv_def by (simp split: if_splits)
    next
      case (failed e)
      then show ?thesis using inv unfolding w' mutation_inv_def by (simp split: if_splits)
    qed
  qed
next
  case (Others f)
  have "recorded cr rank q r (f (mx_db w))" if "recorded cr rank q r (mx_db w)" for q r
    by (rule recorded_append [OF that, of _ "[]"]) (simp add: others [OF Others])
  then show ?thesis using inv Others unfolding mutation_inv_def by auto
qed

lemma mutation_run_inv:
  assumes "\<And>f s. Others f \<in> set steps \<Longrightarrow> mt_receipts (f s) = mt_receipts s"
  shows "mutation_inv cr rank qs (mutation_run cr rank qs steps s)"
proof -
  have "mutation_inv cr rank qs (fold (mutation_at cr rank qs) steps w)" if "mutation_inv cr rank qs w" for w
    using assms that
  proof (induction steps arbitrary: w)
    case (Cons step steps)
    have "mutation_inv cr rank qs (mutation_at cr rank qs step w)"
      by (rule mutation_at_inv [OF Cons.prems(2)]) (use Cons.prems(1) in simp)
    then show ?case using Cons.IH Cons.prems(1) by simp
  qed simp
  moreover have "mutation_inv cr rank qs \<lparr>mx_db = s, mx_open = (\<lambda>i. False), mx_results = (\<lambda>i. None)\<rparr>"
    by (simp add: mutation_inv_def)
  ultimately show ?thesis unfolding mutation_run_def by blast
qed


subsection \<open>Rows of other accounts\<close>

definition owns_device :: "mutation_db \<Rightarrow> string \<Rightarrow> string \<Rightarrow> bool" where
  "owns_device s u d \<longleftrightarrow> list_ex (\<lambda>x. md_id x = d \<and> md_user x = u) (mt_devices s)"

text \<open>The rows of \<open>s\<close> that do not belong to \<open>u\<close>.\<close>

definition others_rows :: "string \<Rightarrow> mutation_db \<Rightarrow> mutation_db" where
  "others_rows u s =
     s\<lparr>mt_receipts := filter (\<lambda>r. \<not> owns_device s u (mw_device r)) (mt_receipts s),
       mt_installations := filter (\<lambda>i. \<not> owns_device s u (pi_device i)) (mt_installations s),
       mt_reader := (mt_reader s)\<lparr>rd_states := filter (\<lambda>r. as_user r \<noteq> u) (rd_states (mt_reader s)),
         rd_items := filter (\<lambda>i. \<not> own_collection s u (ci_collection i)) (rd_items (mt_reader s))\<rparr>,
       mt_episode_states := filter (\<lambda>r. es_user r \<noteq> u) (mt_episode_states s),
       mt_preferences := filter (\<lambda>r. np_user r \<noteq> u) (mt_preferences s)\<rparr>"

definition mutation_keys :: "mutation_db \<Rightarrow> bool" where
  "mutation_keys s \<longleftrightarrow>
     distinct (map pi_id (mt_installations s)) \<and> distinct (map pi_token_hash (mt_installations s))"

lemma others_receipts:
  assumes "s' = t\<lparr>mt_receipts := rs\<rparr>"
    "filter (\<lambda>r. \<not> owns_device t u (mw_device r)) rs = filter (\<lambda>r. \<not> owns_device t u (mw_device r)) (mt_receipts t)"
  shows "others_rows u s' = others_rows u t"
  using assms by (simp add: others_rows_def owns_device_def own_collection_def)

lemma filter_upsert:
  assumes "\<And>r. r \<in> set t \<Longrightarrow> p r \<Longrightarrow> \<not> Q r \<and> \<not> Q (f r)" "\<not> Q row"
  shows "filter Q (upsert p row f t) = filter Q t"
proof -
  have "filter Q (map (\<lambda>r. if p r then f r else r) t) = filter Q t"
    using assms(1) by (induction t) auto
  then show ?thesis using assms(2) by (simp add: upsert_def)
qed

lemma filter_update_many:
  assumes "\<And>r. r \<in> set t \<Longrightarrow> p r \<Longrightarrow> \<not> Q r \<and> \<not> Q (f r)"
  shows "filter Q (fst (update_many p f t)) = filter Q t"
  using assms by (induction t) (auto simp: update_many_def)

lemma others_states:
  assumes "rd = mt_reader s"
    "s' = s\<lparr>mt_reader := rd\<lparr>rd_states := upsert (is_state_of u i) r (\<lambda>x. r) (rd_states rd)\<rparr>\<rparr>" "as_user r = u"
  shows "others_rows u s' = others_rows u s"
proof -
  have "filter (\<lambda>r. as_user r \<noteq> u) (upsert (is_state_of u i) r (\<lambda>x. r) (rd_states rd)) = filter (\<lambda>r. as_user r \<noteq> u) (rd_states rd)"
    by (rule filter_upsert) (use assms(3) in \<open>auto simp: is_state_of_def\<close>)
  then show ?thesis using assms(1,2) by (simp add: others_rows_def owns_device_def own_collection_def)
qed

lemma changed_state_user: "as_user (changed_article_state now a b c r) = as_user r"
  by (simp add: changed_article_state_def Let_def split: option.split)

lemma find_Some: "List.find P xs = Some x \<Longrightarrow> P x \<and> x \<in> set xs"
  by (auto simp: find_Some_iff)

lemma article_state_others:
  assumes "update_mobile_article_state u now i a b c s = (res, s')"
  shows "others_rows u s' = others_rows u s"
proof (cases "accessible_article s u i")
  case None
  then show ?thesis using assms by (simp add: update_mobile_article_state_def)
next
  case (Some x)
  define previous where "previous = (case List.find (is_state_of u (ra_id x)) (rd_states (mt_reader s)) of
    None \<Rightarrow> new_state u (ra_id x) | Some r \<Rightarrow> r)"
  define r where "r = changed_article_state now a b c previous"
  have "as_user previous = u"
    by (auto simp: previous_def new_state_def is_state_of_def dest: find_Some split: option.split)
  then have "as_user r = u" by (simp add: r_def changed_state_user)
  moreover have "s' = s\<lparr>mt_reader := (mt_reader s)\<lparr>rd_states := upsert (is_state_of u (ra_id x)) r (\<lambda>x. r) (rd_states (mt_reader s))\<rparr>\<rparr>"
    using assms Some unfolding r_def previous_def by (simp add: update_mobile_article_state_def Let_def)
  ultimately show ?thesis by (intro others_states [OF refl])
qed

lemma collection_add_others:
  assumes "add_mobile_collection_item u i c s = (res, s')"
  shows "others_rows u s' = others_rows u s"
proof (cases "accessible_article s u i = None \<or> \<not> own_collection s u c")
  case True
  then show ?thesis using assms by (auto simp: add_mobile_collection_item_def split: option.splits)
next
  case False
  then obtain a where a: "accessible_article s u i = Some a" "own_collection s u c" by auto
  let ?row = "\<lparr>ci_collection = c, ci_owner = u, ci_article = ra_id a\<rparr>"
  have "filter (\<lambda>i. \<not> own_collection s u (ci_collection i)) (upsert (is_item c (ra_id a)) ?row (\<lambda>x. x) (rd_items (mt_reader s))) =
      filter (\<lambda>i. \<not> own_collection s u (ci_collection i)) (rd_items (mt_reader s))"
    by (rule filter_upsert) (use a(2) in \<open>auto simp: is_item_def\<close>)
  then show ?thesis using assms a
    by (auto simp: add_mobile_collection_item_def others_rows_def owns_device_def own_collection_def)
qed

lemma collection_remove_others:
  assumes "remove_mobile_collection_item u i c s = (res, s')"
  shows "others_rows u s' = others_rows u s"
proof (cases "own_collection s u c")
  case True
  have "filter (\<lambda>x. \<not> own_collection s u (ci_collection x)) (filter (\<lambda>x. \<not> is_item c i x) (rd_items (mt_reader s))) =
      filter (\<lambda>x. \<not> own_collection s u (ci_collection x)) (rd_items (mt_reader s))"
    using True by (auto simp: is_item_def intro!: filter_cong)
  then show ?thesis using assms True
    by (auto simp: remove_mobile_collection_item_def Let_def others_rows_def owns_device_def own_collection_def)
qed (use assms in \<open>simp add: remove_mobile_collection_item_def\<close>)

lemma podcast_others:
  assumes "update_mobile_podcast_state u e change s = (res, s')" "\<And>r. es_user (change r) = es_user r"
  shows "others_rows u s' = others_rows u s"
proof (cases "accessible_episode s u e")
  case True
  define previous where "previous = (case List.find (is_episode_state u e) (mt_episode_states s) of
    None \<Rightarrow> new_episode_state u e | Some r \<Rightarrow> r)"
  have "es_user previous = u"
    by (auto simp: previous_def new_episode_state_def is_episode_state_def dest: find_Some split: option.split)
  then have "filter (\<lambda>r. es_user r \<noteq> u) (upsert (is_episode_state u e) (change previous) (\<lambda>x. change previous) (mt_episode_states s)) =
      filter (\<lambda>r. es_user r \<noteq> u) (mt_episode_states s)"
    by (intro filter_upsert) (auto simp: is_episode_state_def assms(2))
  then show ?thesis using assms(1) True unfolding previous_def
    by (auto simp: update_mobile_podcast_state_def Let_def others_rows_def owns_device_def own_collection_def)
qed (use assms in \<open>simp add: update_mobile_podcast_state_def\<close>)

lemma preference_others:
  assumes "upsert_preference u now t c s = (res, s')"
  shows "others_rows u s' = others_rows u s"
proof -
  let ?r = "\<lparr>np_user = u, np_topic = t, np_channel = c, np_updated_at = now\<rparr>"
  have "filter (\<lambda>r. np_user r \<noteq> u) (upsert (is_preference u t) ?r (\<lambda>x. ?r) (mt_preferences s)) = filter (\<lambda>r. np_user r \<noteq> u) (mt_preferences s)"
    by (rule filter_upsert) (auto simp: is_preference_def)
  then show ?thesis using assms by (auto simp: upsert_preference_def Let_def others_rows_def owns_device_def own_collection_def)
qed

lemma register_others:
  assumes "register_mobile_device_installation cr u d session new_id now env t s = (res, s')" "owns_device s u d" "mutation_keys s"
  shows "others_rows u s' = others_rows u s"
proof (cases "s' = s")
  case False
  define h where "h = hash_mobile_value cr ''installation-token'' t"
  define row where "row = \<lparr>pi_id = (case row_at pi_token_hash h (mt_installations s) of None \<Rightarrow> new_id | Some i \<Rightarrow> pi_id i),
    pi_session = Some session, pi_device = d, pi_platform = ''android'', pi_environment = environment_text env,
    pi_token_hash = h, pi_last_seen_at = now, pi_disabled_at = None, pi_unregistered_at = None\<rparr>"
  have s': "s' = s\<lparr>mt_installations := upsert (\<lambda>i. pi_token_hash i = h) row (\<lambda>x. row) (mt_installations s)\<rparr>"
    and own: "\<And>i. row_at pi_token_hash h (mt_installations s) = Some i \<Longrightarrow> owns_device s u (pi_device i)"
    using assms(1) False unfolding register_mobile_device_installation_def h_def [symmetric] row_def
    by (auto simp: Let_def owns_device_def split: if_splits option.splits)
  have "owns_device s u (pi_device i)" if "i \<in> set (mt_installations s)" "pi_token_hash i = h" for i
    using row_at_distinct [of pi_token_hash "mt_installations s" i] assms(3) that own by (auto simp: mutation_keys_def)
  then have "filter (\<lambda>i. \<not> owns_device s u (pi_device i)) (upsert (\<lambda>i. pi_token_hash i = h) row (\<lambda>x. row) (mt_installations s)) =
      filter (\<lambda>i. \<not> owns_device s u (pi_device i)) (mt_installations s)"
    by (intro filter_upsert) (use assms(2) in \<open>auto simp: row_def\<close>)
  then show ?thesis unfolding s' by (simp add: others_rows_def owns_device_def own_collection_def)
qed simp

lemma unregister_others:
  assumes "unregister_mobile_device_installation cr d now t s = (res, s')" "owns_device s u d" "mutation_keys s"
  shows "others_rows u s' = others_rows u s"
proof (cases "List.find (\<lambda>i. pi_device i = d \<and> pi_token_hash i = hash_mobile_value cr ''installation-token'' t) (mt_installations s)")
  case None
  then show ?thesis using assms(1) by (simp add: unregister_mobile_device_installation_def)
next
  case (Some i)
  let ?f = "\<lambda>x. x\<lparr>pi_disabled_at := Some now, pi_unregistered_at := Some now\<rparr>"
  have i: "i \<in> set (mt_installations s)" "pi_device i = d" using find_Some [OF Some] by auto
  have "x = i" if "x \<in> set (mt_installations s)" "pi_id x = pi_id i" for x
    using that i(1) assms(3) by (auto simp: mutation_keys_def distinct_map inj_on_def)
  then have "filter (\<lambda>i. \<not> owns_device s u (pi_device i)) (fst (update_many (\<lambda>x. pi_id x = pi_id i) ?f (mt_installations s))) =
      filter (\<lambda>i. \<not> owns_device s u (pi_device i)) (mt_installations s)"
    by (intro filter_update_many) (use assms(2) i(2) in auto)
  then show ?thesis using assms(1) Some
    by (auto simp: unregister_mobile_device_installation_def others_rows_def owns_device_def own_collection_def)
qed

lemma run_mutation_others:
  assumes "run_mutation cr q s = (res, s')" "owns_device s (mq_user q) (mq_device q)" "mutation_keys s"
  shows "others_rows (mq_user q) s' = others_rows (mq_user q) s"
proof (cases "mq_mutation q")
  case (Podcast_Progress e n)
  then show ?thesis using assms(1) by (auto simp: run_mutation_def elim!: podcast_others)
next
  case (Podcast_State e a b)
  have "es_user (played_state now a b r) = es_user r" for now r
    by (simp add: played_state_def Let_def split: option.split)
  then show ?thesis using assms(1) Podcast_State by (auto simp: run_mutation_def elim!: podcast_others)
qed (use assms in \<open>auto simp: run_mutation_def Let_def elim!: article_state_others collection_add_others
      collection_remove_others preference_others register_others unregister_others\<close>)

subsection \<open>Properties\<close>


text \<open>C40: A mutation leaves every row of other accounts as it was, and one that is refused or replayed leaves
  the whole database as it was.\<close>

theorem mutation_own_rows:
  assumes "finish_mutation cr rank q s = (outcome, s')" "owns_device s (mq_user q) (mq_device q)" "mutation_keys s"
  shows "others_rows (mq_user q) s' = others_rows (mq_user q) s \<and> ((\<exists>result. outcome = Inr (result, False)) \<or> s' = s)"
  using assms(1)
proof (cases rule: finish_cases)
  case (applied result)
  define t where "t = snd (run_mutation cr q s)"
  have t: "others_rows (mq_user q) t = others_rows (mq_user q) s"
    using run_mutation_others [of cr q s "fst (run_mutation cr q s)" t] assms(2,3) by (simp add: t_def)
  have receipts: "mt_receipts t = mt_receipts s"
    using run_mutation_receipts [of cr q s "fst (run_mutation cr q s)" t] by (simp add: t_def)
  have "mt_devices t = mt_devices s" using arg_cong [OF t, of mt_devices] by (simp add: others_rows_def)
  then have own: "owns_device t u d = owns_device s u d" for u d by (simp add: owns_device_def)
  have "filter (\<lambda>r. \<not> owns_device t (mq_user q) (mw_device r)) (mt_receipts s') =
      filter (\<lambda>r. \<not> owns_device t (mq_user q) (mw_device r)) (mt_receipts t)"
    using assms(2) own by (simp add: applied(3) receipts receipt_row_def)
  with applied(4) have "others_rows (mq_user q) s' = others_rows (mq_user q) t"
    by (intro others_receipts [where rs = "mt_receipts s'"]) (simp_all only: t_def)
  then show ?thesis using t applied(1) by simp
qed auto


definition tiny_hash :: crypto where
  "tiny_hash = \<lparr>cr_sha256 = (\<lambda>s. [length s mod 256]), cr_hmac = (\<lambda>k s. [length s])\<rparr>"

definition phone_info :: mobile_device_info where
  "phone_info = \<lparr>in_app_version = ''1'', in_device_name = ''p'', in_platform = ''android''\<rparr>"

definition phone_db :: mutation_db where
  "phone_db =
     \<lparr>mt_sessions = [\<lparr>ds_id = ''s'', ds_user = ''u'', ds_device = Some ''d'', ds_family = ''f'', ds_token_hash = ''h'',
        ds_info = phone_info, ds_auth_version = 0, ds_last_used_at = 0, ds_access_issued_at = 0, ds_refresh_expires_at = 9,
        ds_revoked_at = None, ds_replaced_by = None, ds_reuse_detected_at = None\<rparr>],
      mt_devices = [\<lparr>md_id = ''d'', md_user = ''u'', md_family = ''f'', md_info = phone_info, md_auth_version = 0,
        md_last_used_at = 0, md_refresh_expires_at = 9, md_revoked_at = None, md_reuse_detected_at = None\<rparr>],
      mt_receipts = [], mt_installations = [],
      mt_reader = \<lparr>rd_articles = [], rd_feed_urls = [], rd_subscriptions = [], rd_items = [], rd_states = []\<rparr>,
      mt_collections = [], mt_episodes = [(''e'', ''p'')], mt_podcast_subscriptions = [(''u'', ''p'')],
      mt_episode_states = [new_episode_state ''x'' ''e''], mt_preferences = []\<rparr>"

definition phone_request :: "string \<Rightarrow> int \<Rightarrow> mutation_request" where
  "phone_request receipt position =
     \<lparr>mq_device = ''d'', mq_session = ''s'', mq_user = ''u'', mq_key = ''k'', mq_mutation = Podcast_Progress ''e'' position,
      mq_receipt_id = receipt, mq_installation_id = ''i'', mq_now = 5\<rparr>"

definition phone_requests :: "nat \<Rightarrow> mutation_request" where
  "phone_requests i = phone_request (if i = 0 then ''r0'' else ''r1'') 30"

definition replayed_once :: "mutation_world \<Rightarrow> bool" where
  "replayed_once w \<longleftrightarrow>
     mx_results w 0 = Some (Inr (podcast_state_result ((new_episode_state ''u'' ''e'')\<lparr>es_position := 30\<rparr>), True)) \<and>
     mx_results w 1 = Some (Inr (podcast_state_result ((new_episode_state ''u'' ''e'')\<lparr>es_position := 30\<rparr>), False))"


theorem mutation_own_rows_witness:
  "let (outcome, s') = finish_mutation tiny_hash length (phone_request ''r'' 30) phone_db
    in length (mt_episode_states s') = 2 \<and> others_rows ''u'' s' = others_rows ''u'' phone_db"
proof -
  obtain outcome s' where f: "finish_mutation tiny_hash length (phone_request ''r'' 30) phone_db = (outcome, s')" by fastforce
  have "length (mt_episode_states (snd (finish_mutation tiny_hash length (phone_request ''r'' 30) phone_db))) = 2" by code_simp
  moreover have "owns_device phone_db (mq_user (phone_request ''r'' 30)) (mq_device (phone_request ''r'' 30))" by code_simp
  moreover have "mutation_keys phone_db" by code_simp
  ultimately show ?thesis using mutation_own_rows [OF f] f by (simp add: phone_request_def)
qed

end
