(* ===== verification/Ai_Usage.thy ===== *)
theory Ai_Usage
  imports Fenced_Lease Calendar Mobile_Auth
begin

text \<open>
  The allowance of AI requests, \<open>src/lib/ai-usage.ts\<close>: an operation reserves a unit of the user's
  month before the provider is asked, the worker that holds its lease turns the unit into a consumed
  one or gives it back, and a reconciliation job releases units whose lease ran out. A transaction is
  atomic and undone when it throws (\<open>transact\<close>); the unique indexes are those of the schema, a
  statement that violates one throws. Generated ids are arguments. No caller finishes an operation
  without its lease, apart from the failure path of \<open>ai-digests.ts\<close>; both forms are modelled.
\<close>

datatype ai_action = Article_Summary | Daily_Digest | Story_Comparison
datatype ai_status = Ai_Reserved | Ai_Processing | Ai_Completed | Ai_Failed

record ai_operation =
  ao_id :: string
  ao_key :: string
  ao_user :: string
  ao_period :: "string option"
  ao_action :: ai_action
  ao_status :: ai_status
  ao_reserved :: int
  ao_consumed :: int
  ao_provider :: string
  ao_model :: string
  ao_request_id :: "string option"
  ao_error :: "string option"
  ao_owner :: "string option"
  ao_lease_expires :: "time option"
  ao_attempt :: int
  ao_heartbeat :: "time option"
  ao_retryable :: "time option"
  ao_completed :: "time option"

record ai_period =
  ap_id :: string
  ap_user :: string
  ap_start :: time
  ap_limit :: int
  ap_reserved :: int
  ap_consumed :: int

record ai_db =
  ad_users :: "(string \<times> int) list"
  ad_operations :: "ai_operation list"
  ad_periods :: "ai_period list"

record ai_lease =
  al_operation :: string
  al_attempt :: int
  al_owner :: string

datatype ai_error =
    User_Not_Found
  | Could_Not_Reserve
  | Unique_Violation
  | Database_Failure
  | Lease_Not_Claimed
  | Owned_By_Another
  | Lease_Not_Owned
  | Operation_Not_Found
  | Not_Eligible
  | Reservation_Not_Completed
  | Not_Leader

type_synonym 'a ai_result = "(ai_error + 'a) \<times> ai_db"

definition reserved_units_per_operation :: int where
  "reserved_units_per_operation = 1"

definition ai_operation_lease_duration_ms :: int where
  "ai_operation_lease_duration_ms = 60000"

definition get_ai_usage_period_start :: "time \<Rightarrow> time" where
  "get_ai_usage_period_start now = make_day (p_year (utc_parts now)) (p_month (utc_parts now)) 1 * ms_per_day"

definition ai_open :: "ai_operation \<Rightarrow> bool" where
  "ai_open r \<longleftrightarrow> ao_status r = Ai_Reserved \<or> ao_status r = Ai_Processing"

definition ai_add_milliseconds :: "time \<Rightarrow> int \<Rightarrow> time" where
  "ai_add_milliseconds now ms = now + max 1 ms"

definition set_operation :: "string \<Rightarrow> (ai_operation \<Rightarrow> ai_operation) \<Rightarrow> ai_db \<Rightarrow> ai_db" where
  "set_operation i f s = s\<lparr>ad_operations := fst (update_many (\<lambda>r. ao_id r = i) f (ad_operations s))\<rparr>"

subsection \<open>Reserving\<close>

text \<open>The upsert of the month: the id of the row it inserted or updated, none when the allowance is used up.\<close>

definition reserve_unit :: "string \<Rightarrow> string \<Rightarrow> time \<Rightarrow> int \<Rightarrow> ai_db \<Rightarrow> (string option) ai_result" where
  "reserve_unit period_id u period_start limit s =
     (let capacity = max 0 limit; unit = reserved_units_per_operation
      in if \<not> unit \<le> capacity then (Inr None, s)
         else (case List.find (\<lambda>p. ap_user p = u \<and> ap_start p = period_start) (ad_periods s) of
             None \<Rightarrow>
               if period_id \<in> ap_id ` set (ad_periods s) then (Inl Database_Failure, s)
               else (Inr (Some period_id), s\<lparr>ad_periods := ad_periods s @
                 [\<lparr>ap_id = period_id, ap_user = u, ap_start = period_start, ap_limit = capacity, ap_reserved = unit, ap_consumed = 0\<rparr>]\<rparr>)
           | Some p \<Rightarrow>
               if ap_reserved p + ap_consumed p + unit \<le> ap_limit p
               then (Inr (Some (ap_id p)),
                     s\<lparr>ad_periods := fst (update_many (\<lambda>x. ap_id x = ap_id p) (\<lambda>x. x\<lparr>ap_reserved := ap_reserved x + unit\<rparr>) (ad_periods s))\<rparr>)
               else (Inr None, s)))"

definition reserved_operation :: "string \<Rightarrow> ai_operation \<Rightarrow> ai_operation" where
  "reserved_operation period r =
     r\<lparr>ao_period := Some period, ao_reserved := reserved_units_per_operation, ao_status := Ai_Reserved\<rparr>"

definition limited_operation :: "ai_operation \<Rightarrow> ai_operation" where
  "limited_operation r = r\<lparr>ao_error := Some ''MONTHLY_LIMIT_REACHED'', ao_reserved := 0, ao_status := Ai_Failed\<rparr>"

text \<open>The reservation of a unit and the update of the operation that follows it.\<close>

definition settle_reservation :: "string \<Rightarrow> string \<Rightarrow> time \<Rightarrow> int \<Rightarrow> string \<Rightarrow> ai_db \<Rightarrow> unit ai_result" where
  "settle_reservation period_id u now limit i s =
     (case reserve_unit period_id u (get_ai_usage_period_start now) limit s of
        (Inl e, s') \<Rightarrow> (Inl e, s')
      | (Inr None, s') \<Rightarrow> (Inr (), set_operation i limited_operation s')
      | (Inr (Some p), s') \<Rightarrow> (Inr (), set_operation i (reserved_operation p) s'))"

record ai_request =
  aq_action :: ai_action
  aq_key :: string
  aq_model :: string
  aq_provider :: string
  aq_user :: string

definition new_operation :: "string \<Rightarrow> ai_request \<Rightarrow> ai_operation" where
  "new_operation i q =
     \<lparr>ao_id = i, ao_key = aq_key q, ao_user = aq_user q, ao_period = None, ao_action = aq_action q, ao_status = Ai_Reserved,
      ao_reserved = 0, ao_consumed = 0, ao_provider = aq_provider q, ao_model = aq_model q, ao_request_id = None,
      ao_error = None, ao_owner = None, ao_lease_expires = None, ao_attempt = 0, ao_heartbeat = None, ao_retryable = None,
      ao_completed = None\<rparr>"

definition reserve_transaction :: "string \<Rightarrow> time \<Rightarrow> ai_request \<Rightarrow> ai_db \<Rightarrow> (bool \<times> ai_operation) ai_result" where
  "reserve_transaction new_id now q s =
     (case map_of (ad_users s) (aq_user q) of
        None \<Rightarrow> (Inl User_Not_Found, s)
      | Some limit \<Rightarrow>
          if aq_key q \<in> ao_key ` set (ad_operations s) \<or> new_id \<in> ao_id ` set (ad_operations s) then (Inl Unique_Violation, s)
          else (case settle_reservation (new_id @ '':period'') (aq_user q) now limit new_id
                  (s\<lparr>ad_operations := ad_operations s @ [new_operation new_id q]\<rparr>) of
              (Inl e, s') \<Rightarrow> (Inl e, s')
            | (Inr _, s') \<Rightarrow> (Inr (True, the (row_at ao_id new_id (ad_operations s'))), s')))"

definition retryable_now :: "time \<Rightarrow> ai_operation \<Rightarrow> bool" where
  "retryable_now now r \<longleftrightarrow> ao_status r = Ai_Failed \<and> ao_reserved r = 0 \<and> lte_opt (ao_retryable r) now"

definition reopened_operation :: "ai_operation \<Rightarrow> ai_operation" where
  "reopened_operation r =
     r\<lparr>ao_error := None, ao_heartbeat := None, ao_lease_expires := None, ao_owner := None, ao_period := None,
       ao_retryable := None, ao_status := Ai_Reserved\<rparr>"

definition retry_transaction :: "time \<Rightarrow> ai_operation \<Rightarrow> ai_db \<Rightarrow> (bool \<times> ai_operation) ai_result" where
  "retry_transaction now operation s =
     (case row_at ao_id (ao_id operation) (ad_operations s) of
        None \<Rightarrow> (Inr (False, operation), s)
      | Some current \<Rightarrow>
          if \<not> retryable_now now current then (Inr (False, current), s)
          else (case map_of (ad_users s) (ao_user current) of
              None \<Rightarrow> (Inl User_Not_Found, s)
            | Some limit \<Rightarrow>
                (case settle_reservation (ao_id current @ '':period:'' @ int_text (ao_attempt current + 1)) (ao_user current) now limit
                    (ao_id current) (set_operation (ao_id current) reopened_operation s) of
                   (Inl e, s') \<Rightarrow> (Inl e, s')
                 | (Inr _, s') \<Rightarrow> (Inr (False, the (row_at ao_id (ao_id current) (ad_operations s'))), s'))))"

text \<open>\<open>env\<close> is what others commit after the transaction failed on the key, and again before a retry.\<close>

definition reserve_ai_usage_operation ::
  "(nat \<Rightarrow> ai_db \<Rightarrow> ai_db) \<Rightarrow> string \<Rightarrow> time \<Rightarrow> ai_request \<Rightarrow> ai_db \<Rightarrow> (bool \<times> ai_operation) ai_result" where
  "reserve_ai_usage_operation env new_id now q s =
     (case transact (reserve_transaction new_id now q) s of
        (Inl Unique_Violation, s1) \<Rightarrow>
          (let s2 = env 0 s1
           in case row_at ao_key (aq_key q) (ad_operations s2) of
                None \<Rightarrow> (Inl Could_Not_Reserve, s2)
              | Some existing \<Rightarrow>
                  if retryable_now now existing then transact (retry_transaction now existing) (env 1 s2)
                  else (Inr (False, existing), s2))
      | result \<Rightarrow> result)"

subsection \<open>The lease\<close>

definition lease_claim_where :: "time \<Rightarrow> string \<Rightarrow> ai_operation \<Rightarrow> bool" where
  "lease_claim_where now i r \<longleftrightarrow>
     ao_id r = i \<and> (ao_lease_expires r = None \<or> lte_opt (ao_lease_expires r) now \<or> ao_owner r = None) \<and>
     (ao_retryable r = None \<or> lte_opt (ao_retryable r) now) \<and> ai_open r"

definition claimed_operation :: "time \<Rightarrow> time \<Rightarrow> string \<Rightarrow> ai_operation \<Rightarrow> ai_operation" where
  "claimed_operation now expires owner r =
     r\<lparr>ao_attempt := ao_attempt r + 1, ao_heartbeat := Some now, ao_lease_expires := Some expires, ao_owner := Some owner,
       ao_retryable := None, ao_status := Ai_Processing\<rparr>"

definition claim_ai_usage_operation ::
  "(ai_db \<Rightarrow> ai_db) \<Rightarrow> int \<Rightarrow> string \<Rightarrow> time \<Rightarrow> string \<Rightarrow> ai_db \<Rightarrow> ((ai_lease \<times> ai_operation) option) ai_result" where
  "claim_ai_usage_operation env ms owner now i s =
     (let (operations, count) = update_many (lease_claim_where now i) (claimed_operation now (ai_add_milliseconds now ms) owner) (ad_operations s);
          s1 = s\<lparr>ad_operations := operations\<rparr>
      in if count \<noteq> 1 then (Inr None, s1)
         else let s2 = env s1
           in case row_at ao_id i (ad_operations s2) of
                None \<Rightarrow> (Inl Lease_Not_Claimed, s2)
              | Some r \<Rightarrow>
                  if ao_owner r \<noteq> Some owner then (Inl Lease_Not_Claimed, s2)
                  else (Inr (Some (\<lparr>al_operation = i, al_attempt = ao_attempt r, al_owner = owner\<rparr>, r)), s2))"

definition ai_lease_where :: "ai_lease \<Rightarrow> ai_operation \<Rightarrow> bool" where
  "ai_lease_where l r \<longleftrightarrow>
     ao_attempt r = al_attempt l \<and> ao_id r = al_operation l \<and> ao_owner r = Some (al_owner l) \<and> ao_status r = Ai_Processing"

definition extended_operation :: "time \<Rightarrow> int \<Rightarrow> ai_operation \<Rightarrow> ai_operation" where
  "extended_operation now ms r = r\<lparr>ao_heartbeat := Some now, ao_lease_expires := Some (ai_add_milliseconds now ms)\<rparr>"

definition renew_ai_usage_operation_lease :: "int \<Rightarrow> time \<Rightarrow> ai_lease \<Rightarrow> ai_db \<Rightarrow> bool \<times> ai_db" where
  "renew_ai_usage_operation_lease ms now l s =
     (let (operations, count) =
        update_many (\<lambda>r. ai_lease_where l r \<and> gt_opt (ao_lease_expires r) now) (extended_operation now ms) (ad_operations s)
      in (count = 1, s\<lparr>ad_operations := operations\<rparr>))"

definition hold_ai_operation_lease_for_finalization :: "bool \<Rightarrow> time \<Rightarrow> ai_lease \<Rightarrow> ai_db \<Rightarrow> bool \<times> ai_db" where
  "hold_ai_operation_lease_for_finalization allow_expired now l s =
     (let (operations, count) =
        update_many (\<lambda>r. ai_lease_where l r \<and> (allow_expired \<or> gt_opt (ao_lease_expires r) now))
          (extended_operation now ai_operation_lease_duration_ms) (ad_operations s)
      in (count = 1, s\<lparr>ad_operations := operations\<rparr>))"

definition hold_if_leased :: "bool \<Rightarrow> time \<Rightarrow> ai_lease option \<Rightarrow> ai_db \<Rightarrow> bool \<times> ai_db" where
  "hold_if_leased allow_expired now lease s =
     (case lease of None \<Rightarrow> (True, s) | Some l \<Rightarrow> hold_ai_operation_lease_for_finalization allow_expired now l s)"

text \<open>The timer fires every half lease (at least a second) while the work runs; a renewal that fails is ignored, the result passes through.\<close>

definition ai_heartbeat_interval_ms :: "int \<Rightarrow> int" where
  "ai_heartbeat_interval_ms ms = max 1000 (ms div 2)"

definition run_with_ai_operation_lease_heartbeat ::
  "int \<Rightarrow> ai_lease \<Rightarrow> ai_db heartbeat_event list \<Rightarrow> 'a option \<Rightarrow> ai_db \<Rightarrow> 'a option \<times> ai_db" where
  "run_with_ai_operation_lease_heartbeat ms l events work s =
     (work, fold (\<lambda>e s. case e of Renewal now \<Rightarrow> snd (renew_ai_usage_operation_lease ms now l s) | Renewal_Error \<Rightarrow> s | Other f \<Rightarrow> f s)
        events s)"

definition mark_ai_usage_operation_processing ::
  "(ai_db \<Rightarrow> ai_db) \<Rightarrow> string \<Rightarrow> time \<Rightarrow> string \<Rightarrow> ai_db \<Rightarrow> ai_operation ai_result" where
  "mark_ai_usage_operation_processing env owner now i s =
     (case claim_ai_usage_operation env ai_operation_lease_duration_ms owner now i s of
        (Inl e, s') \<Rightarrow> (Inl e, s')
      | (Inr None, s') \<Rightarrow> (Inl Owned_By_Another, s')
      | (Inr (Some (l, r)), s') \<Rightarrow> (Inr r, s'))"

subsection \<open>Finishing\<close>

definition completed_operation :: "time \<Rightarrow> time \<Rightarrow> string option \<Rightarrow> ai_operation \<Rightarrow> ai_operation" where
  "completed_operation clock now request_id r =
     r\<lparr>ao_completed := Some clock, ao_consumed := reserved_units_per_operation, ao_heartbeat := Some now,
       ao_lease_expires := None, ao_owner := None, ao_request_id := request_id, ao_reserved := 0, ao_retryable := None,
       ao_status := Ai_Completed\<rparr>"

definition complete_transaction ::
  "ai_lease option \<Rightarrow> time \<Rightarrow> time \<Rightarrow> string \<Rightarrow> string option \<Rightarrow> ai_db \<Rightarrow> ai_operation ai_result" where
  "complete_transaction lease clock now i request_id s =
     (case hold_if_leased False now lease s of
        (False, s1) \<Rightarrow> (Inl Lease_Not_Owned, s1)
      | (True, s1) \<Rightarrow>
          (case row_at ao_id i (ad_operations s1) of
             None \<Rightarrow> (Inl Operation_Not_Found, s1)
           | Some r \<Rightarrow>
               if ao_status r = Ai_Completed then (Inr r, s1)
               else if \<not> ai_open r \<or> \<not> truthy (ao_period r) \<or> ao_reserved r < reserved_units_per_operation
                 then (Inl Not_Eligible, s1)
               else let (periods, count) =
                      update_many (\<lambda>p. Some (ap_id p) = ao_period r \<and> ao_reserved r \<le> ap_reserved p)
                        (\<lambda>p. p\<lparr>ap_reserved := ap_reserved p - ao_reserved r,
                              ap_consumed := ap_consumed p + reserved_units_per_operation\<rparr>) (ad_periods s1)
                 in if count = 0 then (Inl Reservation_Not_Completed, s1)
                    else let s2 = set_operation i (completed_operation clock now request_id) (s1\<lparr>ad_periods := periods\<rparr>)
                      in (Inr (the (row_at ao_id i (ad_operations s2))), s2)))"

definition complete_ai_usage_operation ::
  "ai_lease option \<Rightarrow> time \<Rightarrow> time \<Rightarrow> string \<Rightarrow> string option \<Rightarrow> ai_db \<Rightarrow> ai_operation ai_result" where
  "complete_ai_usage_operation lease clock now i request_id = transact (complete_transaction lease clock now i request_id)"

definition failed_operation :: "time \<Rightarrow> string \<Rightarrow> time option \<Rightarrow> ai_operation \<Rightarrow> ai_operation" where
  "failed_operation now error_code retryable r =
     r\<lparr>ao_error := Some error_code, ao_heartbeat := Some now, ao_lease_expires := None, ao_owner := None, ao_reserved := 0,
       ao_retryable := retryable, ao_status := Ai_Failed\<rparr>"

definition fail_ai_usage_operation ::
  "string \<Rightarrow> ai_lease option \<Rightarrow> time \<Rightarrow> string \<Rightarrow> time option \<Rightarrow> ai_db \<Rightarrow> bool \<times> ai_db" where
  "fail_ai_usage_operation error_code lease now i retryable s =
     (case hold_if_leased True now lease s of
        (False, s1) \<Rightarrow> (False, s1)
      | (True, s1) \<Rightarrow>
          (case List.find (\<lambda>r. ao_id r = i \<and> ai_open r) (ad_operations s1) of
             None \<Rightarrow> (False, s1)
           | Some r \<Rightarrow>
               let s2 = set_operation i (failed_operation now error_code retryable) s1
               in if \<not> truthy (ao_period r) \<or> ao_reserved r \<le> 0 then (True, s2)
                  else (True, s2\<lparr>ad_periods := fst (update_many (\<lambda>p. Some (ap_id p) = ao_period r)
                    (\<lambda>p. p\<lparr>ap_reserved := max 0 (ap_reserved p - ao_reserved r)\<rparr>) (ad_periods s2))\<rparr>)))"

subsection \<open>Reconciliation\<close>

record reconciliation =
  rc_expired :: nat
  rc_divergences :: nat
  rc_released :: nat
  rc_skipped :: bool

definition reconcile_batch :: "int \<Rightarrow> nat" where
  "reconcile_batch n = nat (max 1 (min 500 n))"

definition expired_operations :: "nat \<Rightarrow> time \<Rightarrow> ai_db \<Rightarrow> ai_operation list" where
  "expired_operations n now s =
     take n (sort_key (\<lambda>r. the (ao_lease_expires r)) (sort_key ao_id
       (filter (\<lambda>r. lte_opt (ao_lease_expires r) now \<and> ai_open r) (ad_operations s))))"

text \<open>\<open>leader k\<close>: the check of the worker's leadership passes at the \<open>k\<close>-th operation; \<open>owner k\<close> is the owner it claims with.\<close>

fun reconcile_operations ::
  "(nat \<Rightarrow> bool) \<Rightarrow> (nat \<Rightarrow> string) \<Rightarrow> time \<Rightarrow> nat \<Rightarrow> ai_operation list \<Rightarrow> nat \<Rightarrow> ai_db \<Rightarrow> nat ai_result" where
  "reconcile_operations leader owner now k [] released s = (Inr released, s)"
| "reconcile_operations leader owner now k (r # rest) released s =
     (if \<not> leader k then (Inl Not_Leader, s)
      else case claim_ai_usage_operation (\<lambda>s. s) ai_operation_lease_duration_ms (owner k) now (ao_id r) s of
             (Inl e, s') \<Rightarrow> (Inl e, s')
           | (Inr None, s') \<Rightarrow> reconcile_operations leader owner now (k + 1) rest released s'
           | (Inr (Some (l, _)), s') \<Rightarrow>
               (case fail_ai_usage_operation ''LEASE_EXPIRED'' (Some l) now (ao_id r) (Some now) s' of
                  (failed, s'') \<Rightarrow>
                    reconcile_operations leader owner now (k + 1) rest (if failed then released + 1 else released) s''))"

definition divergent_periods :: "nat \<Rightarrow> ai_db \<Rightarrow> string list" where
  "divergent_periods n s =
     take n (map ap_id (filter (\<lambda>p.
       let open_here = filter (\<lambda>r. ao_period r = Some (ap_id p) \<and> ai_open r) (ad_operations s)
       in open_here \<noteq> [] \<and> sum_list (map ao_reserved open_here) \<noteq> ap_reserved p) (ad_periods s)))"

definition reconcile_with_store ::
  "(nat \<Rightarrow> bool) \<Rightarrow> (nat \<Rightarrow> string) \<Rightarrow> time \<Rightarrow> nat \<Rightarrow> ai_db \<Rightarrow> reconciliation ai_result" where
  "reconcile_with_store leader owner now n s =
     (let operations = expired_operations n now s
      in case reconcile_operations leader owner now 0 operations 0 s of
           (Inl e, s') \<Rightarrow> (Inl e, s')
         | (Inr released, s') \<Rightarrow>
             (Inr \<lparr>rc_expired = length operations, rc_divergences = length (divergent_periods n s'),
                rc_released = released, rc_skipped = False\<rparr>, s'))"

definition reconcile_expired_ai_usage_operations ::
  "bool \<Rightarrow> (nat \<Rightarrow> bool) \<Rightarrow> (nat \<Rightarrow> string) \<Rightarrow> time \<Rightarrow> int \<Rightarrow> ai_db \<Rightarrow> reconciliation ai_result" where
  "reconcile_expired_ai_usage_operations locked leader owner now batch_size =
     transact (\<lambda>s.
       if \<not> locked then (Inr \<lparr>rc_expired = 0, rc_divergences = 0, rc_released = 0, rc_skipped = True\<rparr>, s)
       else reconcile_with_store leader owner now (reconcile_batch batch_size) s)"

end
