(* ===== verification/Ai_Ledger.thy ===== *)
theory Ai_Ledger
  imports Ai_Usage
begin

text \<open>
  The ledger of AI allowances under all its transactions: the counters of a month are the numbers of
  its open and its completed operations and never exceed its limit; and the lease contract of
  \<open>Fenced_Lease\<close> for the operations.
\<close>

subsection \<open>The invariant\<close>

definition paid_by :: "ai_period list \<Rightarrow> ai_operation \<Rightarrow> bool" where
  "paid_by ps r \<longleftrightarrow> (\<exists>p \<in> set ps. ao_period r = Some (ap_id p) \<and> ap_user p = ao_user r \<and> ap_id p \<noteq> [])"

definition operation_ok :: "ai_period list \<Rightarrow> ai_operation \<Rightarrow> bool" where
  "operation_ok ps r \<longleftrightarrow>
     (case ao_status r of
        Ai_Failed \<Rightarrow> ao_reserved r = 0 \<and> ao_consumed r = 0
      | Ai_Completed \<Rightarrow> ao_reserved r = 0 \<and> ao_consumed r = 1 \<and> paid_by ps r
      | _ \<Rightarrow> ao_reserved r = 1 \<and> ao_consumed r = 0 \<and> paid_by ps r)"

definition open_in :: "string \<Rightarrow> ai_operation \<Rightarrow> bool" where
  "open_in p r \<longleftrightarrow> ai_open r \<and> ao_period r = Some p"

definition completed_in :: "string \<Rightarrow> ai_operation \<Rightarrow> bool" where
  "completed_in p r \<longleftrightarrow> ao_status r = Ai_Completed \<and> ao_period r = Some p"

definition period_ok :: "ai_operation list \<Rightarrow> ai_period \<Rightarrow> bool" where
  "period_ok ops p \<longleftrightarrow>
     ap_reserved p = int (length (filter (open_in (ap_id p)) ops)) \<and>
     ap_consumed p = int (length (filter (completed_in (ap_id p)) ops)) \<and>
     ap_reserved p + ap_consumed p \<le> ap_limit p \<and> ap_id p \<noteq> []"

definition ledger_ok :: "ai_db \<Rightarrow> bool" where
  "ledger_ok s \<longleftrightarrow>
     distinct (map ao_id (ad_operations s)) \<and> distinct (map ao_key (ad_operations s)) \<and> distinct (map ap_id (ad_periods s)) \<and>
     (\<forall>r \<in> set (ad_operations s). operation_ok (ad_periods s) r) \<and> (\<forall>p \<in> set (ad_periods s). period_ok (ad_operations s) p)"

lemma ledgerD:
  assumes "ledger_ok s"
  shows "distinct (map ao_id (ad_operations s))" "distinct (map ao_key (ad_operations s))" "distinct (map ap_id (ad_periods s))"
    "r \<in> set (ad_operations s) \<Longrightarrow> operation_ok (ad_periods s) r"
    "p \<in> set (ad_periods s) \<Longrightarrow> period_ok (ad_operations s) p"
  using assms by (simp_all add: ledger_ok_def)

lemma update_many_by_key:
  assumes "distinct (map key t)" "\<And>x. P x \<Longrightarrow> key x = k"
  shows "fst (update_many P f t) =
    (case row_at key k t of None \<Rightarrow> t | Some r \<Rightarrow> if P r then fst (update_many (\<lambda>x. key x = k) f t) else t)"
  using assms(1)
proof (induction t)
  case (Cons x t)
  have other: "\<not> P y" "key y \<noteq> k" if "key x = k" "y \<in> set t" for y
    using Cons.prems assms(2) [of y] that by (auto simp: image_iff)
  show ?case
  proof (cases "key x = k")
    case True
    then have "map (\<lambda>r. if P r then f r else r) t = t" "map (\<lambda>r. if key r = k then f r else r) t = t"
      using other by (auto intro!: map_idI)
    then show ?thesis using True by (simp add: update_many_def)
  next
    case False
    then have "\<not> P x" using assms(2) by blast
    then show ?thesis using Cons False by (auto simp: update_many_def split: option.splits)
  qed
qed (simp add: update_many_def)

text \<open>One operation is rewritten and the months follow it.\<close>

lemma ledger_update:
  assumes ok: "ledger_ok s" and r: "row_at ao_id i (ad_operations s) = Some r"
    and f: "\<And>x. ao_id (f x) = ao_id x" "\<And>x. ao_key (f x) = ao_key x"
    and g: "\<And>p. ap_id (g p) = ap_id p \<and> ap_user (g p) = ap_user p \<and> ap_limit (g p) = ap_limit p"
    and row: "operation_ok (ad_periods s) (f r)"
    and month: "\<And>p. p \<in> set (ad_periods s) \<Longrightarrow>
      ap_reserved (g p) = ap_reserved p - of_bool (open_in (ap_id p) r) + of_bool (open_in (ap_id p) (f r)) \<and>
      ap_consumed (g p) = ap_consumed p - of_bool (completed_in (ap_id p) r) + of_bool (completed_in (ap_id p) (f r)) \<and>
      ap_reserved (g p) + ap_consumed (g p) \<le> ap_limit p"
    and s': "ad_operations s' = fst (update_many (\<lambda>x. ao_id x = i) f (ad_operations s))" "ad_periods s' = map g (ad_periods s)"
  shows "ledger_ok s'"
proof -
  note ok = ledgerD [OF ok]
  have paid: "paid_by (map g (ad_periods s)) x = paid_by (ad_periods s) x" for x
    by (simp add: paid_by_def g)
  have ops: "operation_ok (map g (ad_periods s)) x = operation_ok (ad_periods s) x" for x
    by (simp add: operation_ok_def paid split: ai_status.split)
  have "operation_ok (ad_periods s) x" if x: "x \<in> set (ad_operations s')" for x
  proof -
    obtain y where y: "y \<in> set (ad_operations s)" "x = (if ao_id y = i then f y else y)"
      using x unfolding s' by (auto simp: update_many_set)
    have "y = r" if "ao_id y = i" using row_at_distinct [OF ok(1) y(1)] r that by simp
    then show ?thesis using y row ok(4) by auto
  qed
  moreover have "period_ok (ad_operations s') (g p)" if p: "p \<in> set (ad_periods s)" for p
    using ok(5) [OF p] month [OF p] g [of p] count_row_update [OF ok(1) r, where f = f]
    by (simp add: period_ok_def s')
  ultimately show ?thesis
    using ok(1,2,3) f g by (simp add: ledger_ok_def s' ops comp_def)
qed

text \<open>A rewritten operation that counts as before.\<close>

lemma ledger_same:
  assumes ok: "ledger_ok s" and r: "row_at ao_id i (ad_operations s) = Some r"
    and f: "\<And>x. ao_id (f x) = ao_id x" "\<And>x. ao_key (f x) = ao_key x"
    and row: "ao_period (f r) = ao_period r" "ao_reserved (f r) = ao_reserved r" "ao_consumed (f r) = ao_consumed r"
      "ao_user (f r) = ao_user r" "ao_status (f r) = ao_status r \<or> ai_open r \<and> ai_open (f r)"
  shows "ledger_ok (set_operation i f s)"
proof (rule ledger_update [OF ok r f, where g = "\<lambda>p. p"])
  have "r \<in> set (ad_operations s)" using row_at_SomeD [OF r] by simp
  then have "operation_ok (ad_periods s) r" using ledgerD(4) [OF ok] by simp
  then show "operation_ok (ad_periods s) (f r)"
    using row by (auto simp: operation_ok_def paid_by_def ai_open_def split: ai_status.splits)
  have "open_in p (f r) = open_in p r" "completed_in p (f r) = completed_in p r" for p
    using row by (auto simp: open_in_def completed_in_def ai_open_def)
  then show "ap_reserved p = ap_reserved p - of_bool (open_in (ap_id p) r) + of_bool (open_in (ap_id p) (f r)) \<and>
      ap_consumed p = ap_consumed p - of_bool (completed_in (ap_id p) r) + of_bool (completed_in (ap_id p) (f r)) \<and>
      ap_reserved p + ap_consumed p \<le> ap_limit p" if "p \<in> set (ad_periods s)" for p
    using ledgerD(5) [OF ok that] by (simp add: period_ok_def)
qed (simp_all add: set_operation_def)

lemma ledger_same_many:
  assumes ok: "ledger_ok s" and P: "\<And>x. P x \<Longrightarrow> ao_id x = i"
    and f: "\<And>x. ao_id (f x) = ao_id x" "\<And>x. ao_key (f x) = ao_key x"
    and row: "\<And>r. P r \<Longrightarrow> ao_period (f r) = ao_period r \<and> ao_reserved (f r) = ao_reserved r \<and> ao_consumed (f r) = ao_consumed r \<and>
      ao_user (f r) = ao_user r \<and> (ao_status (f r) = ao_status r \<or> ai_open r \<and> ai_open (f r))"
  shows "ledger_ok (s\<lparr>ad_operations := fst (update_many P f (ad_operations s))\<rparr>)"
proof (cases "\<exists>r. row_at ao_id i (ad_operations s) = Some r \<and> P r")
  case True
  then obtain r where r: "row_at ao_id i (ad_operations s) = Some r" "P r" by blast
  then have "s\<lparr>ad_operations := fst (update_many P f (ad_operations s))\<rparr> = set_operation i f s"
    using update_many_by_key [OF ledgerD(1) [OF ok] P] by (simp add: set_operation_def)
  then show ?thesis using ledger_same [OF ok r(1) f] row [OF r(2)] by simp
next
  case False
  then have "fst (update_many P f (ad_operations s)) = ad_operations s"
    using update_many_by_key [OF ledgerD(1) [OF ok] P] by (auto split: option.split)
  then show ?thesis using ok by simp
qed

lemma ledger_new_failed:
  assumes ok: "ledger_ok s" and new: "ao_id r \<notin> ao_id ` set (ad_operations s)" "ao_key r \<notin> ao_key ` set (ad_operations s)"
    and r: "ao_status r = Ai_Failed" "ao_reserved r = 0" "ao_consumed r = 0"
  shows "ledger_ok (s\<lparr>ad_operations := ad_operations s @ [r]\<rparr>)"
  using ok new r by (auto simp: ledger_ok_def operation_ok_def period_ok_def open_in_def completed_in_def ai_open_def)

lemma ledger_new_month:
  assumes ok: "ledger_ok s" and new: "ap_id p \<notin> ap_id ` set (ad_periods s)" and p: "ap_reserved p = 0" "ap_consumed p = 0" "0 \<le> ap_limit p" "ap_id p \<noteq> []"
  shows "ledger_ok (s\<lparr>ad_periods := ad_periods s @ [p]\<rparr>)"
proof -
  have fresh: "\<not> open_in (ap_id p) r \<and> \<not> completed_in (ap_id p) r" if "r \<in> set (ad_operations s)" for r
    using ledgerD(4) [OF ok that] new
    by (auto simp: operation_ok_def paid_by_def open_in_def completed_in_def ai_open_def split: ai_status.splits)
  then have "filter (open_in (ap_id p)) (ad_operations s) = []" "filter (completed_in (ap_id p)) (ad_operations s) = []"
    by (simp_all add: filter_empty_conv)
  then have "period_ok (ad_operations s) p" using p by (simp add: period_ok_def)
  moreover have "operation_ok (ad_periods s @ [p]) r" if "operation_ok (ad_periods s) r" for r
    using that by (auto simp: operation_ok_def paid_by_def split: ai_status.splits)
  ultimately show ?thesis using ok new by (auto simp: ledger_ok_def)
qed


subsection \<open>The transactions\<close>

lemmas ledger_lease_rows = lease_claim_where_def claimed_operation_def ai_lease_where_def extended_operation_def ai_open_def

lemma claim_ledger:
  assumes "ledger_ok s"
  shows "ledger_ok (snd (claim_ai_usage_operation (\<lambda>s. s) ms owner now i s))"
proof -
  have "ledger_ok (s\<lparr>ad_operations := fst (update_many (lease_claim_where now i)
      (claimed_operation now (ai_add_milliseconds now ms) owner) (ad_operations s))\<rparr>)"
    by (rule ledger_same_many [OF assms, where i = i]) (auto simp: ledger_lease_rows)
  then show ?thesis
    by (auto simp: claim_ai_usage_operation_def Let_def split_beta split: option.split)
qed

lemma renew_ledger:
  assumes "ledger_ok s"
  shows "ledger_ok (snd (renew_ai_usage_operation_lease ms now l s))"
proof -
  have "ledger_ok (s\<lparr>ad_operations := fst (update_many (\<lambda>r. ai_lease_where l r \<and> gt_opt (ao_lease_expires r) now)
      (extended_operation now ms) (ad_operations s))\<rparr>)"
    by (rule ledger_same_many [OF assms, where i = "al_operation l"]) (auto simp: ledger_lease_rows)
  then show ?thesis by (simp add: renew_ai_usage_operation_lease_def split_beta)
qed

lemma hold_ledger:
  assumes "ledger_ok s" "hold_if_leased b now lease s = (held, s1)"
  shows "ledger_ok s1"
proof -
  have "ledger_ok (s\<lparr>ad_operations := fst (update_many (\<lambda>r. ai_lease_where l r \<and> (b \<or> gt_opt (ao_lease_expires r) now))
      (extended_operation now ai_operation_lease_duration_ms) (ad_operations s))\<rparr>)" for l
    by (rule ledger_same_many [OF assms(1), where i = "al_operation l"]) (auto simp: ledger_lease_rows)
  then show ?thesis using assms
    by (auto simp: hold_if_leased_def hold_ai_operation_lease_for_finalization_def split_beta split: option.splits)
qed

lemma transact_ledger:
  assumes "ledger_ok s" "\<And>v s'. f s = (Inr v, s') \<Longrightarrow> ledger_ok s'"
  shows "ledger_ok (snd (transact f s))"
  using assms by (auto simp: transact_def split: prod.split sum.split)

lemma open_month:
  assumes ok: "ledger_ok s" and r: "r \<in> set (ad_operations s)" "ai_open r" and p: "p \<in> set (ad_periods s)" "ao_period r = Some (ap_id p)"
  shows "1 \<le> ap_reserved p"
proof -
  have "r \<in> set (filter (open_in (ap_id p)) (ad_operations s))" using r p by (simp add: open_in_def)
  then have "filter (open_in (ap_id p)) (ad_operations s) \<noteq> []" by force
  then show ?thesis using ledgerD(5) [OF ok p(1)] by (simp add: period_ok_def Suc_le_eq flip: length_greater_0_conv)
qed

text \<open>An open operation leaves its month.\<close>

lemma ledger_leave:
  assumes ok: "ledger_ok s" and r: "row_at ao_id i (ad_operations s) = Some r" "ai_open r"
    and f: "\<And>x. ao_id (f x) = ao_id x" "\<And>x. ao_key (f x) = ao_key x"
    and fr: "ao_user (f r) = ao_user r" "ao_period (f r) = ao_period r" "ao_reserved (f r) = 0"
      "ao_status (f r) = Ai_Failed \<and> ao_consumed (f r) = 0 \<and> n = 0 \<or> ao_status (f r) = Ai_Completed \<and> ao_consumed (f r) = 1 \<and> n = 1"
    and s': "ad_operations s' = fst (update_many (\<lambda>x. ao_id x = i) f (ad_operations s))"
      "ad_periods s' = map (\<lambda>p. if ao_period r = Some (ap_id p)
        then p\<lparr>ap_reserved := ap_reserved p - 1, ap_consumed := ap_consumed p + n\<rparr> else p) (ad_periods s)"
  shows "ledger_ok s'"
proof (rule ledger_update [OF ok r(1) f])
  have mem: "r \<in> set (ad_operations s)" using row_at_SomeD [OF r(1)] by simp
  have "operation_ok (ad_periods s) r" using ledgerD(4) [OF ok mem] .
  then show "operation_ok (ad_periods s) (f r)"
    using r(2) fr by (auto simp: operation_ok_def paid_by_def ai_open_def split: ai_status.splits)
  let ?g = "\<lambda>p. if ao_period r = Some (ap_id p)
    then p\<lparr>ap_reserved := ap_reserved p - 1, ap_consumed := ap_consumed p + n\<rparr> else p"
  show "ap_reserved (?g p) = ap_reserved p - of_bool (open_in (ap_id p) r) + of_bool (open_in (ap_id p) (f r)) \<and>
      ap_consumed (?g p) = ap_consumed p - of_bool (completed_in (ap_id p) r) + of_bool (completed_in (ap_id p) (f r)) \<and>
      ap_reserved (?g p) + ap_consumed (?g p) \<le> ap_limit p" if "p \<in> set (ad_periods s)" for p
    using ledgerD(5) [OF ok that] r(2) fr
    by (auto simp: period_ok_def open_in_def completed_in_def ai_open_def)
qed (use s' in auto)

lemma complete_ledger:
  assumes ok: "ledger_ok s"
  shows "ledger_ok (snd (complete_ai_usage_operation lease clock now i request_id s))"
  unfolding complete_ai_usage_operation_def
proof (rule transact_ledger [OF ok])
  fix v s' assume c: "complete_transaction lease clock now i request_id s = (Inr v, s')"
  obtain held s1 where h: "hold_if_leased False now lease s = (held, s1)" by fastforce
  have ok1: "ledger_ok s1" by (rule hold_ledger [OF ok h])
  obtain r where r: "row_at ao_id i (ad_operations s1) = Some r" and held: held
    using c h by (auto simp: complete_transaction_def split: if_splits option.splits bool.splits)
  show "ledger_ok s'"
  proof (cases "ao_status r = Ai_Completed")
    case True
    then show ?thesis using c h r held ok1 by (simp add: complete_transaction_def)
  next
    case False
    define g :: "ai_period \<Rightarrow> ai_period" where "g = (\<lambda>p. p\<lparr>ap_reserved := ap_reserved p - ao_reserved r, ap_consumed := ap_consumed p + reserved_units_per_operation\<rparr>)"
    have opened: "ai_open r" and s': "s' = set_operation i (completed_operation clock now request_id)
        (s1\<lparr>ad_periods := fst (update_many (\<lambda>p. Some (ap_id p) = ao_period r \<and> ao_reserved r \<le> ap_reserved p) g (ad_periods s1))\<rparr>)"
      using c h r held False by (auto simp: complete_transaction_def Let_def split_beta g_def split: if_splits)
    have mem: "r \<in> set (ad_operations s1)" using row_at_SomeD [OF r] by simp
    have one: "ao_reserved r = 1" using ledgerD(4) [OF ok1 mem] opened by (auto simp: operation_ok_def ai_open_def split: ai_status.splits)
    have months: "fst (update_many (\<lambda>p. Some (ap_id p) = ao_period r \<and> ao_reserved r \<le> ap_reserved p) g (ad_periods s1)) =
        map (\<lambda>p. if ao_period r = Some (ap_id p) then p\<lparr>ap_reserved := ap_reserved p - 1, ap_consumed := ap_consumed p + 1\<rparr> else p) (ad_periods s1)"
      using open_month [OF ok1 mem opened] one by (auto simp: update_many_def g_def reserved_units_per_operation_def)
    show ?thesis
    proof (rule ledger_leave [OF ok1 r opened, where f = "completed_operation clock now request_id" and n = 1])
      show "ad_periods s' = map (\<lambda>p. if ao_period r = Some (ap_id p)
          then p\<lparr>ap_reserved := ap_reserved p - 1, ap_consumed := ap_consumed p + 1\<rparr> else p) (ad_periods s1)"
        unfolding s' months by (simp add: set_operation_def)
    qed (simp_all add: s' set_operation_def completed_operation_def reserved_units_per_operation_def)
  qed
qed

lemma find_row_at:
  assumes "distinct (map key t)" "List.find (\<lambda>x. key x = k \<and> P x) t = Some r"
  shows "row_at key k t = Some r \<and> P r"
proof -
  have "r \<in> set t" "key r = k" "P r" using assms(2) by (auto simp: find_Some_iff)
  then show ?thesis using row_at_distinct [OF assms(1)] by auto
qed

lemma fail_ledger:
  assumes ok: "ledger_ok s"
  shows "ledger_ok (snd (fail_ai_usage_operation error_code lease now i retryable s))"
proof -
  obtain held s1 where h: "hold_if_leased True now lease s = (held, s1)" by fastforce
  have ok1: "ledger_ok s1" by (rule hold_ledger [OF ok h])
  show ?thesis
  proof (cases "held \<and> List.find (\<lambda>r. ao_id r = i \<and> ai_open r) (ad_operations s1) \<noteq> None")
    case False
    then show ?thesis using h ok1 by (cases held) (auto simp: fail_ai_usage_operation_def)
  next
    case True
    then obtain r where found: "List.find (\<lambda>r. ao_id r = i \<and> ai_open r) (ad_operations s1) = Some r" and held: held by auto
    then have r: "row_at ao_id i (ad_operations s1) = Some r" "ai_open r" using find_row_at [OF ledgerD(1) [OF ok1]] by auto
    have mem: "r \<in> set (ad_operations s1)" using row_at_SomeD [OF r(1)] by simp
    have one: "ao_reserved r = 1" "truthy (ao_period r)"
      using ledgerD(4) [OF ok1 mem] r(2) by (auto simp: operation_ok_def ai_open_def paid_by_def truthy_def split: ai_status.splits)
    let ?f = "failed_operation now error_code retryable"
    have s': "snd (fail_ai_usage_operation error_code lease now i retryable s) =
        (set_operation i ?f s1)\<lparr>ad_periods := fst (update_many (\<lambda>p. Some (ap_id p) = ao_period r)
          (\<lambda>p. p\<lparr>ap_reserved := max 0 (ap_reserved p - ao_reserved r)\<rparr>) (ad_periods s1))\<rparr>"
      using h held found one by (simp add: fail_ai_usage_operation_def Let_def set_operation_def)
    have months: "fst (update_many (\<lambda>p. Some (ap_id p) = ao_period r)
          (\<lambda>p. p\<lparr>ap_reserved := max 0 (ap_reserved p - ao_reserved r)\<rparr>) (ad_periods s1)) =
        map (\<lambda>p. if ao_period r = Some (ap_id p) then p\<lparr>ap_reserved := ap_reserved p - 1, ap_consumed := ap_consumed p + 0\<rparr> else p) (ad_periods s1)"
    proof -
      have low: "max 0 (ap_reserved p - 1) = ap_reserved p - 1" if "p \<in> set (ad_periods s1)" "ao_period r = Some (ap_id p)" for p
        using open_month [OF ok1 mem r(2) that] by simp
      show ?thesis unfolding update_many_def one(1) by (auto simp: low)
    qed
    show ?thesis
    proof (rule ledger_leave [OF ok1 r, where f = ?f and n = 0])
      show "ao_status (?f r) = Ai_Failed \<and> ao_consumed (?f r) = 0 \<and> (0::int) = 0 \<or>
          ao_status (?f r) = Ai_Completed \<and> ao_consumed (?f r) = 1 \<and> (0::int) = 1"
        using ledgerD(4) [OF ok1 mem] r(2) by (auto simp: failed_operation_def operation_ok_def ai_open_def split: ai_status.splits)
      show "ad_periods (snd (fail_ai_usage_operation error_code lease now i retryable s)) =
          map (\<lambda>p. if ao_period r = Some (ap_id p) then p\<lparr>ap_reserved := ap_reserved p - 1, ap_consumed := ap_consumed p + 0\<rparr> else p) (ad_periods s1)"
        unfolding s' months by simp
    qed (simp_all add: s' set_operation_def failed_operation_def)
  qed
qed


subsection \<open>Reservations\<close>

definition bump :: "string \<Rightarrow> ai_period \<Rightarrow> ai_period" where
  "bump i p = (if ap_id p = i then p\<lparr>ap_reserved := ap_reserved p + 1\<rparr> else p)"

lemma reserve_unit_operations:
  "reserve_unit i u t limit (s\<lparr>ad_operations := ops\<rparr>) =
    (case reserve_unit i u t limit s of (res, s') \<Rightarrow> (res, s'\<lparr>ad_operations := ops\<rparr>))"
  by (auto simp: reserve_unit_def Let_def split: option.split)

lemma reserve_unit_none:
  "reserve_unit i u t limit s = (Inr None, s') \<Longrightarrow> s' = s"
  by (auto simp: reserve_unit_def Let_def split: option.splits if_splits)

lemma reserve_unit_some:
  assumes ok: "ledger_ok s" and res: "reserve_unit i u t limit s = (Inr (Some p), s')" and "i \<noteq> []"
  obtains ps q where "ledger_ok (s\<lparr>ad_periods := ps\<rparr>)" "s' = s\<lparr>ad_periods := map (bump p) ps\<rparr>"
    "q \<in> set ps" "ap_id q = p" "ap_user q = u" "ap_reserved q + ap_consumed q + 1 \<le> ap_limit q"
proof (cases "List.find (\<lambda>p. ap_user p = u \<and> ap_start p = t) (ad_periods s)")
  case None
  define q where "q = \<lparr>ap_id = i, ap_user = u, ap_start = t, ap_limit = max 0 limit, ap_reserved = 0, ap_consumed = 0\<rparr>"
  have new: "i \<notin> ap_id ` set (ad_periods s)" "p = i" "1 \<le> max 0 limit"
    "s' = s\<lparr>ad_periods := ad_periods s @ [q\<lparr>ap_reserved := 1\<rparr>]\<rparr>"
    using res None by (auto simp: reserve_unit_def Let_def q_def reserved_units_per_operation_def split: if_splits)
  have "ledger_ok (s\<lparr>ad_periods := ad_periods s @ [q]\<rparr>)"
    by (rule ledger_new_month [OF ok]) (use new \<open>i \<noteq> []\<close> in \<open>auto simp: q_def\<close>)
  moreover have "map (bump p) (ad_periods s @ [q]) = ad_periods s @ [q\<lparr>ap_reserved := 1\<rparr>]"
    using new(1,2) by (auto simp: bump_def q_def intro!: map_idI)
  ultimately show thesis using that [of "ad_periods s @ [q]" q] new by (simp add: q_def)
next
  case (Some q)
  then have q: "q \<in> set (ad_periods s)" "ap_user q = u" by (auto simp: find_Some_iff)
  have bumped: "(\<lambda>x. if ap_id x = ap_id q then x\<lparr>ap_reserved := ap_reserved x + 1\<rparr> else x) = bump (ap_id q)"
    by (simp add: bump_def fun_eq_iff)
  let ?room = "1 \<le> max 0 limit \<and> ap_reserved q + ap_consumed q + 1 \<le> ap_limit q"
  have "reserve_unit i u t limit s =
      (if ?room then (Inr (Some (ap_id q)), s\<lparr>ad_periods := map (bump (ap_id q)) (ad_periods s)\<rparr>) else (Inr None, s))"
    using Some unfolding reserve_unit_def Let_def reserved_units_per_operation_def update_many_def by (simp add: bumped)
  with res have e: "(if ?room then (Inr (Some (ap_id q)), s\<lparr>ad_periods := map (bump (ap_id q)) (ad_periods s)\<rparr>) else (Inr None, s)) =
      ((Inr (Some p), s') :: (ai_error + string option) \<times> ai_db)" by simp
  have room: ?room by (rule ccontr) (use e in \<open>simp only: if_False prod.inject sum.inject option.distinct simp_thms\<close>)
  have moved: "ap_id q = p \<and> s\<lparr>ad_periods := map (bump (ap_id q)) (ad_periods s)\<rparr> = s'"
    using e room by (auto simp only: if_True prod.inject sum.inject option.inject simp_thms)
  show thesis
    by (rule that [of "ad_periods s" q]) (use moved q ok room in auto)
qed

text \<open>A failed operation enters a month that has room.\<close>

lemma ledger_enter:
  assumes ok: "ledger_ok (s\<lparr>ad_periods := ps\<rparr>)" and r: "row_at ao_id i (ad_operations s) = Some r" "ao_status r = Ai_Failed"
    and q: "q \<in> set ps" "ap_id q = p" "ap_user q = ao_user r" "ap_reserved q + ap_consumed q + 1 \<le> ap_limit q"
    and f: "\<And>x. ao_id (f x) = ao_id x" "\<And>x. ao_key (f x) = ao_key x"
    and fr: "ao_user (f r) = ao_user r" "ao_period (f r) = Some p" "ao_reserved (f r) = 1" "ao_consumed (f r) = 0" "ao_status (f r) = Ai_Reserved"
  shows "ledger_ok (s\<lparr>ad_periods := map (bump p) ps, ad_operations := fst (update_many (\<lambda>x. ao_id x = i) f (ad_operations s))\<rparr>)"
proof (rule ledger_update [OF ok, where f = f and g = "bump p" and r = r])
  have distinct: "distinct (map ap_id ps)" and named: "p \<noteq> []" using ledgerD(3,5) [OF ok] q(1,2) by (auto simp: period_ok_def)
  then show "operation_ok (ad_periods (s\<lparr>ad_periods := ps\<rparr>)) (f r)"
    using q fr by (auto simp: operation_ok_def paid_by_def)
  show "ap_reserved (bump p x) = ap_reserved x - of_bool (open_in (ap_id x) r) + of_bool (open_in (ap_id x) (f r)) \<and>
      ap_consumed (bump p x) = ap_consumed x - of_bool (completed_in (ap_id x) r) + of_bool (completed_in (ap_id x) (f r)) \<and>
      ap_reserved (bump p x) + ap_consumed (bump p x) \<le> ap_limit x" if "x \<in> set (ad_periods (s\<lparr>ad_periods := ps\<rparr>))" for x
  proof -
    have "x = q" if "ap_id x = p" using \<open>x \<in> _\<close> that distinct q(1,2) by (auto simp: distinct_map inj_on_def)
    moreover have "period_ok (ad_operations s) x" using ledgerD(5) [OF ok that] by simp
    ultimately show ?thesis using r(2) fr(2,5) q(4)
      by (auto simp: bump_def open_in_def completed_in_def ai_open_def period_ok_def)
  qed
qed (use r(1) f in \<open>auto simp: bump_def\<close>)

lemma update_many_twice:
  assumes "\<And>x. key (f x) = key x"
  shows "fst (update_many (\<lambda>x. key x = k) g (fst (update_many (\<lambda>x. key x = k) f t))) = fst (update_many (\<lambda>x. key x = k) (\<lambda>x. g (f x)) t)"
  by (simp add: update_many_def assms)

lemma update_many_last:
  "k \<notin> key ` set t \<Longrightarrow> key x = k \<Longrightarrow> fst (update_many (\<lambda>x. key x = k) f (t @ [x])) = t @ [f x]"
  by (auto simp: update_many_def image_iff intro!: map_idI)

lemma set_operation_fields [simp]:
  "ad_periods (set_operation i f s) = ad_periods s" "ad_users (set_operation i f s) = ad_users s"
  by (simp_all add: set_operation_def)

lemma row_at_append_new: "k \<notin> key ` set t \<Longrightarrow> key x = k \<Longrightarrow> row_at key k (t @ [x]) = Some x"
  using row_at_None_iff [of key k t] by (simp add: row_at_append)

lemma reserve_ledger:
  assumes ok: "ledger_ok s"
  shows "ledger_ok (snd (transact (reserve_transaction new_id now q) s))"
proof (rule transact_ledger [OF ok])
  fix v s' assume c: "reserve_transaction new_id now q s = (Inr v, s')"
  define new where "new = new_operation new_id q"
  obtain limit where fresh: "aq_key q \<notin> ao_key ` set (ad_operations s)" "new_id \<notin> ao_id ` set (ad_operations s)"
    and st: "settle_reservation (new_id @ '':period'') (aq_user q) now limit new_id (s\<lparr>ad_operations := ad_operations s @ [new]\<rparr>) = (Inr (), s')"
    using c by (auto simp: reserve_transaction_def new_def split: option.splits if_splits prod.splits sum.splits)
  define failed where "failed = limited_operation new"
  have n: "ao_id new = new_id" "ao_key new = aq_key q" "ao_user new = aq_user q" "ao_consumed new = 0"
    by (simp_all add: new_def new_operation_def)
  have failed: "ao_id failed = new_id" "ao_key failed = aq_key q" "ao_user failed = aq_user q" "ao_status failed = Ai_Failed"
    "ao_reserved failed = 0" "ao_consumed failed = 0"
    by (simp_all add: failed_def limited_operation_def n)
  define t where "t = s\<lparr>ad_operations := ad_operations s @ [failed]\<rparr>"
  have ok_t: "ledger_ok t" unfolding t_def by (rule ledger_new_failed [OF ok]) (use fresh failed in auto)
  obtain res t' where ru: "reserve_unit (new_id @ '':period'') (aq_user q) (get_ai_usage_period_start now) limit t = (res, t')" by fastforce
  have "s\<lparr>ad_operations := ad_operations s @ [new]\<rparr> = t\<lparr>ad_operations := ad_operations s @ [new]\<rparr>" by (simp add: t_def)
  then have "reserve_unit (new_id @ '':period'') (aq_user q) (get_ai_usage_period_start now) limit (s\<lparr>ad_operations := ad_operations s @ [new]\<rparr>) =
      (res, t'\<lparr>ad_operations := ad_operations s @ [new]\<rparr>)"
    using ru by (simp add: reserve_unit_operations)
  note st' = st [unfolded settle_reservation_def this prod.case]
  consider (none) "res = Inr None" | (some) p where "res = Inr (Some p)" using st' by (cases res) (auto split: option.splits)
  then show "ledger_ok s'"
  proof cases
    case none
    then have "t' = t" using reserve_unit_none ru by simp
    then have "s' = set_operation new_id limited_operation (t\<lparr>ad_operations := ad_operations s @ [new]\<rparr>)" using st' none by simp
    then have "s' = t" using update_many_last [OF fresh(2) n(1)] by (simp add: set_operation_def t_def failed_def)
    then show ?thesis using ok_t by simp
  next
    case (some p)
    from ok_t ru [unfolded some] obtain ps x where ps: "ledger_ok (t\<lparr>ad_periods := ps\<rparr>)" "t' = t\<lparr>ad_periods := map (bump p) ps\<rparr>"
      "x \<in> set ps" "ap_id x = p" "ap_user x = aq_user q" "ap_reserved x + ap_consumed x + 1 \<le> ap_limit x"
      by (rule reserve_unit_some) auto
    let ?f = "\<lambda>r. (reserved_operation p r)\<lparr>ao_error := None\<rparr>"
    have at_failed: "row_at ao_id new_id (ad_operations t) = Some failed"
      unfolding t_def using row_at_append_new [OF fresh(2) failed(1)] by simp
    have "ledger_ok (t\<lparr>ad_periods := map (bump p) ps, ad_operations := fst (update_many (\<lambda>x. ao_id x = new_id) ?f (ad_operations t))\<rparr>)"
      by (rule ledger_enter [OF ps(1) at_failed failed(4) ps(3,4)])
        (use ps(5,6) failed in \<open>simp_all add: reserved_operation_def reserved_units_per_operation_def\<close>)
    moreover have "fst (update_many (\<lambda>x. ao_id x = new_id) ?f (ad_operations t)) = ad_operations s @ [reserved_operation p new]"
      unfolding t_def using update_many_last [OF fresh(2) failed(1), of ?f]
      by (simp add: failed_def limited_operation_def reserved_operation_def new_def new_operation_def)
    moreover have "s' = t\<lparr>ad_periods := map (bump p) ps, ad_operations := ad_operations s @ [reserved_operation p new]\<rparr>"
      using st' some ps(2) update_many_last [OF fresh(2) n(1)] by (auto simp: set_operation_def)
    ultimately show ?thesis by simp
  qed
qed

lemma retry_ledger:
  assumes ok: "ledger_ok s"
  shows "ledger_ok (snd (transact (retry_transaction now operation) s))"
proof (rule transact_ledger [OF ok])
  fix v s' assume c: "retry_transaction now operation s = (Inr v, s')"
  show "ledger_ok s'"
  proof (cases "\<exists>r. row_at ao_id (ao_id operation) (ad_operations s) = Some r \<and> retryable_now now r")
    case False
    then show ?thesis using c ok by (auto simp: retry_transaction_def split: option.splits if_splits)
  next
    case True
    then obtain r where r: "row_at ao_id (ao_id operation) (ad_operations s) = Some r" "retryable_now now r" by blast
    have id: "ao_id operation = ao_id r" using row_at_key [OF r(1)] by simp
    have mem: "r \<in> set (ad_operations s)" using row_at_SomeD [OF r(1)] by simp
    have failed: "ao_status r = Ai_Failed" "ao_consumed r = 0"
      using r(2) ledgerD(4) [OF ok mem] by (auto simp: retryable_now_def operation_ok_def)
    define i where "i = ao_id r @ '':period:'' @ int_text (ao_attempt r + 1)"
    obtain limit where st: "settle_reservation i (ao_user r) now limit (ao_id r) (set_operation (ao_id r) reopened_operation s) = (Inr (), s')"
      using c r id by (auto simp: retry_transaction_def i_def split: option.splits prod.splits sum.splits)
    obtain res t' where ru: "reserve_unit i (ao_user r) (get_ai_usage_period_start now) limit s = (res, t')" by fastforce
    have "reserve_unit i (ao_user r) (get_ai_usage_period_start now) limit (set_operation (ao_id r) reopened_operation s) =
        (res, t'\<lparr>ad_operations := ad_operations (set_operation (ao_id r) reopened_operation s)\<rparr>)"
      using ru by (simp add: reserve_unit_operations set_operation_def)
    note st' = st [unfolded settle_reservation_def this prod.case]
    have twice: "fst (update_many (\<lambda>x. ao_id x = ao_id r) g (fst (update_many (\<lambda>x. ao_id x = ao_id r) reopened_operation (ad_operations s)))) =
        fst (update_many (\<lambda>x. ao_id x = ao_id r) (\<lambda>x. g (reopened_operation x)) (ad_operations s))" for g
      by (rule update_many_twice) (simp add: reopened_operation_def)
    have at_r: "row_at ao_id (ao_id r) (ad_operations s) = Some r" using r(1) id by simp
    consider (none) "res = Inr None" | (some) p where "res = Inr (Some p)" using st' by (cases res) (auto split: option.splits)
    then show ?thesis
    proof cases
      case none
      then have "t' = s" using reserve_unit_none ru by simp
      then have s': "s' = s\<lparr>ad_operations := fst (update_many (\<lambda>x. ao_id x = ao_id r) (\<lambda>x. limited_operation (reopened_operation x)) (ad_operations s))\<rparr>"
        using st' none twice by (simp add: set_operation_def)
      show ?thesis
      proof (rule ledger_update [OF ok at_r, where f = "\<lambda>x. limited_operation (reopened_operation x)" and g = "\<lambda>p. p"])
        show "ap_reserved p = ap_reserved p - of_bool (open_in (ap_id p) r) + of_bool (open_in (ap_id p) (limited_operation (reopened_operation r))) \<and>
            ap_consumed p = ap_consumed p - of_bool (completed_in (ap_id p) r) +
              of_bool (completed_in (ap_id p) (limited_operation (reopened_operation r))) \<and>
            ap_reserved p + ap_consumed p \<le> ap_limit p" if "p \<in> set (ad_periods s)" for p
          using ledgerD(5) [OF ok that] failed
          by (simp add: period_ok_def open_in_def completed_in_def ai_open_def limited_operation_def reopened_operation_def)
      qed (use s' failed in \<open>simp_all add: limited_operation_def reopened_operation_def operation_ok_def\<close>)
    next
      case (some p)
      from ok ru [unfolded some] obtain ps x where ps: "ledger_ok (s\<lparr>ad_periods := ps\<rparr>)" "t' = s\<lparr>ad_periods := map (bump p) ps\<rparr>"
        "x \<in> set ps" "ap_id x = p" "ap_user x = ao_user r" "ap_reserved x + ap_consumed x + 1 \<le> ap_limit x"
        by (rule reserve_unit_some) (auto simp: i_def)
      let ?f = "\<lambda>x. reserved_operation p (reopened_operation x)"
      have "ledger_ok (s\<lparr>ad_periods := map (bump p) ps, ad_operations := fst (update_many (\<lambda>x. ao_id x = ao_id r) ?f (ad_operations s))\<rparr>)"
        by (rule ledger_enter [OF ps(1) at_r failed(1) ps(3,4,5,6)])
          (use failed in \<open>simp_all add: reserved_operation_def reopened_operation_def reserved_units_per_operation_def\<close>)
      moreover have "s' = s\<lparr>ad_periods := map (bump p) ps, ad_operations := fst (update_many (\<lambda>x. ao_id x = ao_id r) ?f (ad_operations s))\<rparr>"
        using st' some ps(2) twice by (auto simp: set_operation_def)
      ultimately show ?thesis by simp
    qed
  qed
qed


subsection \<open>Reconciliation\<close>

text \<open>What every claim and every failure keeps, the reconciliation keeps.\<close>

lemma reconcile_operations_keeps:
  assumes claim: "\<And>ms owner now i s. I s \<Longrightarrow> I (snd (claim_ai_usage_operation (\<lambda>s. s) ms owner now i s))"
    and fail: "\<And>e lease now i x s. I s \<Longrightarrow> I (snd (fail_ai_usage_operation e lease now i x s))"
  shows "I s \<Longrightarrow> I (snd (reconcile_operations leader owner now k rs n s))"
proof (induction rs arbitrary: k n s)
  case (Cons r rest)
  obtain res s1 where c: "claim_ai_usage_operation (\<lambda>s. s) ai_operation_lease_duration_ms (owner k) now (ao_id r) s = (res, s1)"
    by fastforce
  have ok1: "I s1" using claim [OF Cons.prems, of ai_operation_lease_duration_ms "owner k" now "ao_id r"] c by simp
  have "I s2" if "fail_ai_usage_operation ''LEASE_EXPIRED'' lease now (ao_id r) (Some now) s1 = (b, s2)" for lease b s2
    using fail [OF ok1, of "''LEASE_EXPIRED''" lease now "ao_id r" "Some now"] that by simp
  then show ?case
    using c ok1 Cons.IH Cons.prems by (auto split: sum.split option.split prod.split)
qed simp

lemma reconcile_keeps:
  assumes "\<And>ms owner now i s. I s \<Longrightarrow> I (snd (claim_ai_usage_operation (\<lambda>s. s) ms owner now i s))"
    and "\<And>e lease now i x s. I s \<Longrightarrow> I (snd (fail_ai_usage_operation e lease now i x s))" and ok: "I s"
  shows "I (snd (reconcile_expired_ai_usage_operations locked leader owner now n s))"
proof -
  have "I (snd (reconcile_operations leader owner now 0 (expired_operations (reconcile_batch n) now s) 0 s))"
    by (rule reconcile_operations_keeps) (fact assms)+
  then show ?thesis using ok
    by (auto simp: reconcile_expired_ai_usage_operations_def transact_def reconcile_with_store_def Let_def
        split: prod.split sum.split)
qed

lemmas reconcile_ledger = reconcile_keeps [of ledger_ok, OF claim_ledger fail_ledger]

subsection \<open>All transactions\<close>

text \<open>
  A call of \<open>reserveAiUsageOperation\<close> is a \<open>Reserve_Step\<close>, followed by a \<open>Retry_Step\<close> when the key was
  taken by an operation that may be tried again; \<open>Limit_Step\<close> is a change of the plan.
\<close>

datatype ai_step =
    Reserve_Step string time ai_request
  | Retry_Step time ai_operation
  | Claim_Step int string time string
  | Renew_Step int time ai_lease
  | Complete_Step "ai_lease option" time time string "string option"
  | Fail_Step string "ai_lease option" time string "time option"
  | Reconcile_Step bool "nat \<Rightarrow> bool" "nat \<Rightarrow> string" time int
  | Limit_Step string int

fun ai_at :: "ai_step \<Rightarrow> ai_db \<Rightarrow> ai_db" where
  "ai_at (Reserve_Step new_id now q) s = snd (transact (reserve_transaction new_id now q) s)"
| "ai_at (Retry_Step now operation) s = snd (transact (retry_transaction now operation) s)"
| "ai_at (Claim_Step ms owner now i) s = snd (claim_ai_usage_operation (\<lambda>s. s) ms owner now i s)"
| "ai_at (Renew_Step ms now l) s = snd (renew_ai_usage_operation_lease ms now l s)"
| "ai_at (Complete_Step lease clock now i request_id) s = snd (complete_ai_usage_operation lease clock now i request_id s)"
| "ai_at (Fail_Step error_code lease now i retryable) s = snd (fail_ai_usage_operation error_code lease now i retryable s)"
| "ai_at (Reconcile_Step locked leader owner now n) s = snd (reconcile_expired_ai_usage_operations locked leader owner now n s)"
| "ai_at (Limit_Step u n) s = s\<lparr>ad_users := (u, n) # ad_users s\<rparr>"

definition ai_run :: "ai_step list \<Rightarrow> ai_db \<Rightarrow> ai_db" where
  "ai_run steps s = fold ai_at steps s"

definition empty_ledger :: "(string \<times> int) list \<Rightarrow> ai_db" where
  "empty_ledger users = \<lparr>ad_users = users, ad_operations = [], ad_periods = []\<rparr>"

lemma ai_run_append: "ai_run (steps @ steps') s = ai_run steps' (ai_run steps s)"
  by (simp add: ai_run_def)

lemma ai_at_ledger: "ledger_ok s \<Longrightarrow> ledger_ok (ai_at step s)"
proof (cases step)
  case (Limit_Step u n)
  then show "ledger_ok s \<Longrightarrow> ?thesis" by (simp add: ledger_ok_def)
qed (simp_all add: reserve_ledger retry_ledger claim_ledger renew_ledger complete_ledger fail_ledger reconcile_ledger)

lemma ai_run_ledger: "ledger_ok s \<Longrightarrow> ledger_ok (ai_run steps s)"
  by (induction steps arbitrary: s) (simp_all add: ai_run_def ai_at_ledger)

lemma empty_ledger_ok: "ledger_ok (empty_ledger users)"
  by (simp add: ledger_ok_def empty_ledger_def)

text \<open>Any call of \<open>reserveAiUsageOperation\<close> is a sequence of these steps.\<close>

lemma reserve_as_steps:
  assumes "\<And>k s. env k s = ai_run (others k) s"
  shows "\<exists>steps. snd (reserve_ai_usage_operation env new_id now q s) = ai_run steps s"
proof -
  obtain res s1 where t: "transact (reserve_transaction new_id now q) s = (res, s1)" by fastforce
  have s1: "s1 = ai_run [Reserve_Step new_id now q] s" by (simp add: ai_run_def t)
  have retry: "snd (transact (retry_transaction now op) (env 1 (env 0 s1))) = ai_run ([Reserve_Step new_id now q] @ others 0 @ others 1 @ [Retry_Step now op]) s" for op
    by (simp only: ai_run_append assms s1) (simp add: ai_run_def)
  have env0: "env 0 s1 = ai_run ([Reserve_Step new_id now q] @ others 0) s"
    by (simp only: ai_run_append assms s1)
  show ?thesis
    unfolding reserve_ai_usage_operation_def t prod.case
    using s1 retry env0 by (auto simp: Let_def split: sum.split ai_error.split option.split)
qed

text \<open>A user has one row for each month.\<close>

definition month :: "ai_period \<Rightarrow> string \<times> time" where
  "month p = (ap_user p, ap_start p)"

definition one_month :: "ai_db \<Rightarrow> bool" where
  "one_month s \<longleftrightarrow> distinct (map month (ad_periods s))"

lemma month_update [simp]:
  "map month (fst (update_many P (\<lambda>p. p\<lparr>ap_reserved := f p\<rparr>) t)) = map month t"
  "map month (fst (update_many P (\<lambda>p. p\<lparr>ap_reserved := f p, ap_consumed := g p\<rparr>) t)) = map month t"
  by (simp_all add: month_def)

lemma reserve_unit_month:
  assumes "one_month s" "reserve_unit i u t limit s = (res, s')"
  shows "one_month s'"
proof (cases "List.find (\<lambda>p. ap_user p = u \<and> ap_start p = t) (ad_periods s)")
  case None
  then have "(u, t) \<notin> month ` set (ad_periods s)" by (auto simp: find_None_iff month_def)
  then show ?thesis
    using assms None by (auto simp: reserve_unit_def Let_def one_month_def month_def split: if_splits)
next
  case (Some p)
  then show ?thesis using assms by (auto simp: reserve_unit_def Let_def one_month_def split: if_splits)
qed

lemma settle_month:
  assumes "one_month s" "settle_reservation i u now limit k s = (res, s')"
  shows "one_month s'"
proof -
  obtain r t where ru: "reserve_unit i u (get_ai_usage_period_start now) limit s = (r, t)" by fastforce
  have "one_month t" by (rule reserve_unit_month [OF assms(1) ru])
  then show ?thesis using assms(2) ru
    by (auto simp: settle_reservation_def one_month_def split: sum.splits option.splits)
qed

lemma one_month_operations [simp]: "one_month (s\<lparr>ad_operations := ops\<rparr>) = one_month s"
  by (simp add: one_month_def)

lemma one_month_set [simp]: "one_month (set_operation i f s) = one_month s"
  by (simp add: one_month_def)

lemma transact_month:
  assumes "one_month s" "\<And>v s'. f s = (Inr v, s') \<Longrightarrow> one_month s'"
  shows "one_month (snd (transact f s))"
  using assms by (auto simp: transact_def split: prod.split sum.split)

lemma claim_month: "one_month s \<Longrightarrow> one_month (snd (claim_ai_usage_operation (\<lambda>s. s) ms owner now i s))"
  by (auto simp: claim_ai_usage_operation_def Let_def split_beta split: option.split)

lemma hold_month:
  assumes "hold_if_leased b now lease s = (held, s1)" "one_month s"
  shows "one_month s1"
  using assms by (auto simp: hold_if_leased_def hold_ai_operation_lease_for_finalization_def split_beta split: option.splits)

lemma fail_month: "one_month s \<Longrightarrow> one_month (snd (fail_ai_usage_operation error_code lease now i retryable s))"
  using hold_month [of True now lease s]
  by (auto simp: fail_ai_usage_operation_def Let_def one_month_def split: prod.split bool.split option.split)

lemma ai_at_month: "one_month s \<Longrightarrow> one_month (ai_at step s)"
proof (cases step)
  assume ok: "one_month s"
  {
    case (Reserve_Step new_id now q)
    show ?thesis unfolding Reserve_Step ai_at.simps
      by (rule transact_month [OF ok])
        (use ok in \<open>auto simp: reserve_transaction_def split: option.splits if_splits prod.splits sum.splits intro: settle_month [rotated]\<close>)
  next
    case (Retry_Step now operation)
    show ?thesis unfolding Retry_Step ai_at.simps
      by (rule transact_month [OF ok])
        (use ok in \<open>auto simp: retry_transaction_def split: option.splits if_splits prod.splits sum.splits intro: settle_month [rotated]\<close>)
  next
    case (Claim_Step ms owner now i)
    then show ?thesis using claim_month [OF ok] by simp
  next
    case (Renew_Step ms now l)
    then show ?thesis using ok by (simp add: renew_ai_usage_operation_lease_def split_beta)
  next
    case (Complete_Step lease clock now i request_id)
    show ?thesis unfolding Complete_Step ai_at.simps complete_ai_usage_operation_def
    proof (rule transact_month [OF ok])
      fix v s' assume c: "complete_transaction lease clock now i request_id s = (Inr v, s')"
      obtain held s1 where h: "hold_if_leased False now lease s = (held, s1)" by fastforce
      note hold_month [OF h ok]
      then show "one_month s'" using c h
        by (auto simp: complete_transaction_def Let_def split_beta one_month_def split: bool.splits option.splits if_splits)
    qed
  next
    case (Fail_Step error_code lease now i retryable)
    then show ?thesis using fail_month [OF ok] by simp
  next
    case (Reconcile_Step locked leader owner now n)
    then show ?thesis using reconcile_keeps [of one_month, OF claim_month fail_month ok] by simp
  next
    case (Limit_Step u n)
    then show ?thesis using ok by (simp add: one_month_def)
  }
qed

lemma ai_run_month: "one_month s \<Longrightarrow> one_month (ai_run steps s)"
  by (induction steps arbitrary: s) (simp_all add: ai_run_def ai_at_month)

subsection \<open>The allowance\<close>

text \<open>C16: However reservations, retries, claims, completions, failures, reconciliations and changes of
  the plan interleave, the row of a month reserves one unit for each open operation charged to it and has
  consumed one for each completed operation, the two together never exceed its limit, no user has a
  second row for the month, and every operation that did not fail is charged to a month of its user.\<close>

theorem ai_allowance:
  assumes "s = ai_run steps (empty_ledger users)"
  shows "(\<forall>p \<in> set (ad_periods s).
      ap_reserved p = int (length (filter (\<lambda>r. ai_open r \<and> ao_period r = Some (ap_id p)) (ad_operations s))) \<and>
      ap_consumed p = int (length (filter (\<lambda>r. ao_status r = Ai_Completed \<and> ao_period r = Some (ap_id p)) (ad_operations s))) \<and>
      ap_reserved p + ap_consumed p \<le> ap_limit p \<and>
      (\<forall>p' \<in> set (ad_periods s). ap_user p' = ap_user p \<and> ap_start p' = ap_start p \<longrightarrow> p' = p)) \<and>
    (\<forall>r \<in> set (ad_operations s). ao_status r \<noteq> Ai_Failed \<longrightarrow>
      (\<exists>p \<in> set (ad_periods s). ao_period r = Some (ap_id p) \<and> ap_user p = ao_user r))"
proof -
  have ok: "ledger_ok s" unfolding assms by (rule ai_run_ledger [OF empty_ledger_ok])
  have "one_month s" unfolding assms by (rule ai_run_month) (simp add: one_month_def empty_ledger_def)
  then have "inj_on month (set (ad_periods s))" by (simp add: one_month_def distinct_map)
  then have "p' = p" if "p \<in> set (ad_periods s)" "p' \<in> set (ad_periods s)" "ap_user p' = ap_user p" "ap_start p' = ap_start p" for p p'
    using that by (auto simp: inj_on_def month_def)
  moreover have "open_in i = (\<lambda>r. ai_open r \<and> ao_period r = Some i)" "completed_in i = (\<lambda>r. ao_status r = Ai_Completed \<and> ao_period r = Some i)" for i
    by (simp_all add: open_in_def completed_in_def fun_eq_iff)
  then have "ap_reserved p = int (length (filter (\<lambda>r. ai_open r \<and> ao_period r = Some (ap_id p)) (ad_operations s))) \<and>
      ap_consumed p = int (length (filter (\<lambda>r. ao_status r = Ai_Completed \<and> ao_period r = Some (ap_id p)) (ad_operations s))) \<and>
      ap_reserved p + ap_consumed p \<le> ap_limit p" if "p \<in> set (ad_periods s)" for p
    using ledgerD(5) [OF ok that] by (simp add: period_ok_def)
  moreover have "\<exists>p \<in> set (ad_periods s). ao_period r = Some (ap_id p) \<and> ap_user p = ao_user r"
    if "r \<in> set (ad_operations s)" "ao_status r \<noteq> Ai_Failed" for r
    using ledgerD(4) [OF ok that(1)] that(2) by (auto simp: operation_ok_def paid_by_def split: ai_status.splits)
  ultimately show ?thesis by blast
qed

definition example_request :: "string \<Rightarrow> ai_request" where
  "example_request key = \<lparr>aq_action = Daily_Digest, aq_key = key, aq_model = ''m'', aq_provider = ''p'', aq_user = ''u''\<rparr>"

text \<open>The second request finds the allowance used up, the first one is claimed and completed.\<close>

definition example_month :: "ai_step list" where
  "example_month =
     [Reserve_Step ''a'' 0 (example_request ''k''), Reserve_Step ''b'' 0 (example_request ''l''), Claim_Step 60000 ''w'' 0 ''a'',
      Complete_Step (Some \<lparr>al_operation = ''a'', al_attempt = 1, al_owner = ''w''\<rparr>) 5 5 ''a'' None,
      Retry_Step 9 (new_operation ''b'' (example_request ''l''))]"

definition used_up :: "ai_db \<Rightarrow> bool" where
  "used_up s \<longleftrightarrow> map ao_status (ad_operations s) = [Ai_Completed, Ai_Failed] \<and>
     map (\<lambda>p. (ap_limit p, ap_reserved p, ap_consumed p)) (ad_periods s) = [(1, 0, 1)]"

theorem ai_allowance_witness:
  "used_up (ai_run example_month (empty_ledger [(''u'', 1)])) \<and>
   (\<exists>p \<in> set (ad_periods (ai_run example_month (empty_ledger [(''u'', 1)]))). ap_user p = ''u'' \<and> ap_consumed p \<le> ap_limit p)"
proof -
  define s where "s = ai_run example_month (empty_ledger [(''u'', 1)])"
  have used: "used_up s" unfolding s_def by code_simp
  then obtain p where p: "ad_periods s = [p]" "ap_reserved p = 0" by (auto simp: used_up_def map_eq_Cons_conv)
  have first: "map ao_user (ad_operations s) = [''u'', ''u'']" unfolding s_def by code_simp
  obtain r r' where r: "ad_operations s = [r, r']" "ao_status r = Ai_Completed" "ao_user r = ''u''"
    using used first by (auto simp: used_up_def map_eq_Cons_conv)
  have "ap_user p = ''u'' \<and> ap_consumed p \<le> ap_limit p"
    using ai_allowance [OF s_def] p r by auto
  then show ?thesis using used p by (simp flip: s_def)
qed

end
