(* ===== verification/Ai_Lease.thy ===== *)
theory Ai_Lease
  imports Ai_Ledger
begin

text \<open>
  The leases of the AI operations (\<open>src/lib/ai-usage.ts\<close>) satisfy the contract of \<open>Fenced_Lease\<close>, and
  a worker whose operation was claimed again is refused by every later write, in any run of the ledger.
\<close>

definition ai_rows :: "ai_db \<Rightarrow> bool" where
  "ai_rows s \<longleftrightarrow> distinct (map ao_id (ad_operations s))"

definition ai_gen :: "ai_db \<Rightarrow> string \<Rightarrow> int" where
  "ai_gen s i = (case row_at ao_id i (ad_operations s) of None \<Rightarrow> 0 | Some r \<Rightarrow> ao_attempt r)"

definition ai_live :: "time \<Rightarrow> ai_lease \<Rightarrow> ai_db \<Rightarrow> bool" where
  "ai_live now l s \<longleftrightarrow>
     (case row_at ao_id (al_operation l) (ad_operations s) of
        None \<Rightarrow> False | Some r \<Rightarrow> ai_lease_where l r \<and> gt_opt (ao_lease_expires r) now)"

definition ai_claim :: "int \<Rightarrow> time \<Rightarrow> string \<times> string \<Rightarrow> ai_db \<Rightarrow> ai_lease option \<times> ai_db" where
  "ai_claim ms now w s =
     (case claim_ai_usage_operation (\<lambda>s. s) ms (fst w) now (snd w) s of
        (Inr (Some (l, r)), s') \<Rightarrow> (Some l, s')
      | (_, s') \<Rightarrow> (None, s'))"

definition ai_finish :: "time \<Rightarrow> time \<times> string option \<Rightarrow> ai_lease \<Rightarrow> ai_db \<Rightarrow> bool \<times> ai_db" where
  "ai_finish now x l s =
     (case complete_ai_usage_operation (Some l) (fst x) now (al_operation l) (snd x) s of
        (Inl e, s') \<Rightarrow> (False, s') | (Inr r, s') \<Rightarrow> (True, s'))"

lemma lease_where_id: "ai_lease_where l r \<Longrightarrow> ao_id r = al_operation l" "lease_claim_where now i r \<Longrightarrow> ao_id r = i"
  by (simp_all add: ai_lease_where_def lease_claim_where_def)

lemma lease_row_fields [simp]:
  "ao_id (extended_operation now ms r) = ao_id r" "ao_attempt (extended_operation now ms r) = ao_attempt r"
  "ao_id (claimed_operation now e w r) = ao_id r" "ao_attempt (claimed_operation now e w r) = ao_attempt r + 1"
  "ao_id (completed_operation c now q r) = ao_id r" "ao_attempt (completed_operation c now q r) = ao_attempt r"
  "ao_id (failed_operation now ec x r) = ao_id r" "ao_attempt (failed_operation now ec x r) = ao_attempt r"
  "ao_id (reserved_operation p r) = ao_id r" "ao_attempt (reserved_operation p r) = ao_attempt r"
  "ao_id (limited_operation r) = ao_id r" "ao_attempt (limited_operation r) = ao_attempt r"
  "ao_id (reopened_operation r) = ao_id r" "ao_attempt (reopened_operation r) = ao_attempt r"
  by (simp_all add: extended_operation_def claimed_operation_def completed_operation_def failed_operation_def
      reserved_operation_def limited_operation_def reopened_operation_def)

text \<open>A claim takes the row of the operation, or changes nothing.\<close>

lemma ai_claim_cases:
  assumes "ai_rows s"
  shows "(\<exists>r. row_at ao_id (snd w) (ad_operations s) = Some r \<and> lease_claim_where now (snd w) r \<and>
            claim_ai_usage_operation (\<lambda>s. s) ms (fst w) now (snd w) s =
              (Inr (Some (\<lparr>al_operation = snd w, al_attempt = ao_attempt r + 1, al_owner = fst w\<rparr>,
                  claimed_operation now (ai_add_milliseconds now ms) (fst w) r)),
               s\<lparr>ad_operations := fst (update_many (lease_claim_where now (snd w))
                 (claimed_operation now (ai_add_milliseconds now ms) (fst w)) (ad_operations s))\<rparr>))
         \<or> claim_ai_usage_operation (\<lambda>s. s) ms (fst w) now (snd w) s = (Inr None, s)"
proof -
  let ?f = "claimed_operation now (ai_add_milliseconds now ms) (fst w)"
  let ?u = "update_many (lease_claim_where now (snd w)) ?f (ad_operations s)"
  have count: "snd ?u = (case row_at ao_id (snd w) (ad_operations s) of None \<Rightarrow> 0 | Some r \<Rightarrow> if lease_claim_where now (snd w) r then 1 else 0)"
    by (rule update_many_count) (use assms in \<open>auto simp: ai_rows_def lease_where_id\<close>)
  have row: "row_at ao_id (snd w) (fst ?u) = map_option (\<lambda>r. if lease_claim_where now (snd w) r then ?f r else r) (row_at ao_id (snd w) (ad_operations s))"
    by (simp add: row_at_update_many)
  show ?thesis
  proof (cases "\<exists>r. row_at ao_id (snd w) (ad_operations s) = Some r \<and> lease_claim_where now (snd w) r")
    case True
    then obtain r where r: "row_at ao_id (snd w) (ad_operations s) = Some r" "lease_claim_where now (snd w) r" by blast
    have "ao_owner (?f r) = Some (fst w)" by (simp add: claimed_operation_def)
    then show ?thesis using r count row by (simp add: claim_ai_usage_operation_def Let_def split_beta)
  next
    case False
    then have none: "snd ?u = 0" using count by (auto split: option.splits)
    then show ?thesis using update_many_none [OF none] by (simp add: claim_ai_usage_operation_def Let_def split_beta)
  qed
qed

lemma lease_count:
  "ai_rows s \<Longrightarrow> snd (update_many (\<lambda>r. ai_lease_where l r \<and> Q r) f (ad_operations s)) =
    (case row_at ao_id (al_operation l) (ad_operations s) of None \<Rightarrow> 0 | Some r \<Rightarrow> if ai_lease_where l r \<and> Q r then 1 else 0)"
  by (rule update_many_count) (auto simp: ai_rows_def lease_where_id)

lemma renew_cases:
  assumes "ai_rows s"
  shows "renew_ai_usage_operation_lease ms now l s =
    (ai_live now l s,
     s\<lparr>ad_operations := fst (update_many (\<lambda>r. ai_lease_where l r \<and> gt_opt (ao_lease_expires r) now) (extended_operation now ms) (ad_operations s))\<rparr>)"
  using lease_count [OF assms]
  by (auto simp: renew_ai_usage_operation_lease_def split_beta ai_live_def split: option.split)

lemma renew_dead:
  assumes "ai_rows s" "\<not> ai_live now l s"
  shows "renew_ai_usage_operation_lease ms now l s = (False, s)"
proof -
  let ?u = "update_many (\<lambda>r. ai_lease_where l r \<and> gt_opt (ao_lease_expires r) now) (extended_operation now ms) (ad_operations s)"
  have none: "snd ?u = 0" using lease_count [OF assms(1)] assms(2) by (auto simp: ai_live_def split: option.split)
  show ?thesis using renew_cases [OF assms(1)] assms(2) update_many_none [OF none] by simp
qed

text \<open>Finishing holds the lease first.\<close>

lemma hold_cases:
  assumes "ai_rows s"
  shows "hold_ai_operation_lease_for_finalization b now l s =
    ((case row_at ao_id (al_operation l) (ad_operations s) of None \<Rightarrow> False | Some r \<Rightarrow> ai_lease_where l r \<and> (b \<or> gt_opt (ao_lease_expires r) now)),
     s\<lparr>ad_operations := fst (update_many (\<lambda>r. ai_lease_where l r \<and> (b \<or> gt_opt (ao_lease_expires r) now))
       (extended_operation now ai_operation_lease_duration_ms) (ad_operations s))\<rparr>)"
  using lease_count [OF assms]
  by (auto simp: hold_ai_operation_lease_for_finalization_def split_beta split: option.split)

lemma finish_dead: "ai_rows s \<Longrightarrow> \<not> ai_live now l s \<Longrightarrow> complete_ai_usage_operation (Some l) clock now i q s = (Inl Lease_Not_Owned, s)"
  by (auto simp: complete_ai_usage_operation_def transact_def complete_transaction_def hold_if_leased_def hold_cases ai_live_def
      split: option.splits)

lemma complete_outcome:
  assumes "complete_transaction (Some l) clock now (al_operation l) q s = (Inr v, s')" "ai_rows s"
  shows "ai_live now l s \<and> ai_rows s' \<and> ai_gen s' = ai_gen s \<and> \<not> ai_live t l s'"
proof -
  obtain s1 where h: "hold_if_leased False now (Some l) s = (True, s1)" and live: "ai_live now l s"
    using assms by (auto simp: complete_transaction_def hold_if_leased_def hold_cases ai_live_def split: option.splits prod.splits bool.splits)
  have s1: "s1 = s\<lparr>ad_operations := fst (update_many (\<lambda>r. ai_lease_where l r \<and> gt_opt (ao_lease_expires r) now)
       (extended_operation now ai_operation_lease_duration_ms) (ad_operations s))\<rparr>"
    using h assms(2) by (simp add: hold_if_leased_def hold_cases)
  obtain r where r: "row_at ao_id (al_operation l) (ad_operations s) = Some r" "ai_lease_where l r"
    using live by (auto simp: ai_live_def split: option.splits)
  have "row_at ao_id (al_operation l) (ad_operations s1) = Some (extended_operation now ai_operation_lease_duration_ms r)"
    using r live by (auto simp: s1 row_at_update_many ai_live_def)
  moreover have "ao_status (extended_operation now ai_operation_lease_duration_ms r) \<noteq> Ai_Completed"
    using r(2) by (simp add: ai_lease_where_def extended_operation_def)
  ultimately obtain ps where s': "s' = set_operation (al_operation l) (completed_operation clock now q) (s1\<lparr>ad_periods := ps\<rparr>)"
    using assms(1) h by (auto simp: complete_transaction_def Let_def split_beta split: if_splits)
  have rows: "ai_rows s'" using assms(2) by (simp add: ai_rows_def s' s1 set_operation_def)
  have "ai_gen s' = ai_gen s"
    by (auto simp: ai_gen_def fun_eq_iff s' s1 set_operation_def row_at_update_many split: option.split)
  moreover have "\<not> ai_live t l s'"
    using r by (auto simp: ai_live_def s' s1 set_operation_def row_at_update_many ai_lease_where_def completed_operation_def)
  ultimately show ?thesis using live rows by simp
qed

interpretation ai: fenced_lease
  "ai_claim ms" "renew_ai_usage_operation_lease ms" ai_finish ai_live al_operation al_attempt ai_gen ai_rows
proof unfold_locales
  fix s s' :: ai_db and w now l l' x t
  assume inv: "ai_rows s"
  note cc = ai_claim_cases [OF inv, of w now ms]
  show "ai_rows (snd (ai_claim ms now w s))"
    using cc inv by (auto simp: ai_claim_def ai_rows_def)
  show "ai_live now l s'" if "ai_claim ms now w s = (Some l, s')"
    using cc that
    by (auto simp: ai_claim_def ai_live_def row_at_update_many ai_lease_where_def claimed_operation_def ai_add_milliseconds_def
        lease_claim_where_def)
  show "al_operation l' \<noteq> al_operation l" if "ai_live now l s" "ai_claim ms now w s = (Some l', s')"
    using cc that
    by (auto simp: ai_claim_def ai_live_def ai_lease_where_def lease_claim_where_def gt_opt_iff lte_opt_iff)
  show "al_attempt l = ai_gen s (al_operation l) + 1 \<and> ai_gen s' = (ai_gen s)(al_operation l := ai_gen s (al_operation l) + 1)"
    if c: "ai_claim ms now w s = (Some l, s')"
  proof -
    obtain r where r: "row_at ao_id (snd w) (ad_operations s) = Some r" "lease_claim_where now (snd w) r"
      "al_operation l = snd w" "al_attempt l = ao_attempt r + 1"
      and s': "s' = s\<lparr>ad_operations := fst (update_many (lease_claim_where now (snd w))
        (claimed_operation now (ai_add_milliseconds now ms) (fst w)) (ad_operations s))\<rparr>"
      using cc c by (auto simp: ai_claim_def)
    have "ai_gen s' i = (if i = snd w then ao_attempt r + 1 else ai_gen s i)" for i
      using r(1,2) by (auto simp: s' ai_gen_def row_at_update_many lease_claim_where_def split: option.splits dest: row_at_key)
    then show ?thesis using r by (auto simp: ai_gen_def)
  qed
  show "s' = s" if "ai_claim ms now w s = (None, s')" using cc that by (auto simp: ai_claim_def)
  show "ai_rows (snd (renew_ai_usage_operation_lease ms now l s))" using inv by (simp add: renew_cases ai_rows_def)
  show "fst (renew_ai_usage_operation_lease ms now l s) = ai_live now l s" by (simp add: renew_cases inv)
  show "ai_live now l (snd (renew_ai_usage_operation_lease ms now l s))" if "ai_live now l s"
    using that by (auto simp: renew_cases [OF inv] ai_live_def row_at_update_many ai_lease_where_def extended_operation_def
        ai_add_milliseconds_def split: option.splits)
  show "snd (renew_ai_usage_operation_lease ms now l s) = s" if "\<not> ai_live now l s" using renew_dead [OF inv that] by simp
  show "ai_gen (snd (renew_ai_usage_operation_lease ms now l s)) = ai_gen s"
    by (auto simp: renew_cases [OF inv] ai_gen_def fun_eq_iff row_at_update_many split: option.split)
  obtain res s1 where c: "complete_transaction (Some l) (fst x) now (al_operation l) (snd x) s = (res, s1)" by fastforce
  note finish = ai_finish_def complete_ai_usage_operation_def transact_def
  show "ai_rows (snd (ai_finish now x l s))"
    using c complete_outcome [of l "fst x" now "snd x" s _ s1] inv by (cases res) (auto simp: finish)
  show "\<not> ai_live t l (snd (ai_finish now x l s))" if "fst (ai_finish now x l s)"
    using c complete_outcome [of l "fst x" now "snd x" s _ s1] inv that by (cases res) (auto simp: finish)
  show "ai_finish now x l s = (False, s)" if "\<not> ai_live now l s" using finish_dead [OF inv that] by (simp add: ai_finish_def)
  show "ai_gen (snd (ai_finish now x l s)) = ai_gen s"
    using c complete_outcome [of l "fst x" now "snd x" s _ s1] inv by (cases res) (auto simp: finish)
next
  fix s now l t
  show "al_attempt l = ai_gen s (al_operation l)" if "ai_live now l s"
    using that by (auto simp: ai_live_def ai_gen_def ai_lease_where_def split: option.splits)
  show "ai_live t l s" if "ai_live now l s" "t \<le> now"
    using that by (auto simp: ai_live_def intro: gt_opt_antimono split: option.splits)
qed

subsection \<open>Attempts only grow\<close>

definition grown :: "ai_db \<Rightarrow> ai_db \<Rightarrow> bool" where
  "grown s s' \<longleftrightarrow> (\<forall>i. ai_gen s i \<le> ai_gen s' i)"

lemma grown_refl [simp]: "grown s s"
  by (simp add: grown_def)

lemma grown_trans: "grown s t \<Longrightarrow> grown t u \<Longrightarrow> grown s u"
  unfolding grown_def by (meson order_trans)

lemma grown_same: "ad_operations s' = ad_operations s \<Longrightarrow> grown s s'"
  by (simp add: grown_def ai_gen_def)

lemma grown_update:
  assumes "\<And>r. ao_id (f r) = ao_id r" "\<And>r. ao_attempt r \<le> ao_attempt (f r)"
    and "ad_operations s' = fst (update_many P f (ad_operations s))"
  shows "grown s s'"
  using assms(1,2) by (auto simp: grown_def ai_gen_def assms(3) row_at_update_many [of ao_id, OF assms(1)] split: option.split)

lemma grown_append: "ao_attempt r = 0 \<Longrightarrow> grown s (s\<lparr>ad_operations := ad_operations s @ [r]\<rparr>)"
  by (auto simp: grown_def ai_gen_def row_at_append split: option.split)

lemma reserve_unit_rows: "reserve_unit i u t limit s = (res, s') \<Longrightarrow> ad_operations s' = ad_operations s"
  by (auto simp: reserve_unit_def Let_def split: option.splits if_splits)

lemma settle_grown:
  assumes "settle_reservation i u now limit k s = (res, s')"
  shows "grown s s'"
proof -
  obtain r t where ru: "reserve_unit i u (get_ai_usage_period_start now) limit s = (r, t)" by fastforce
  have t: "ad_operations t = ad_operations s" by (rule reserve_unit_rows [OF ru])
  have "grown s (set_operation k limited_operation t)" "grown s (set_operation k (reserved_operation p) t)" for p
    by (rule grown_update; simp add: set_operation_def t)+
  then show ?thesis using assms ru grown_same [OF t]
    by (auto simp: settle_reservation_def split: sum.splits option.splits)
qed

lemma transact_grown:
  assumes "\<And>v s'. f s = (Inr v, s') \<Longrightarrow> grown s s'"
  shows "grown s (snd (transact f s))"
  using assms by (auto simp: transact_def split: prod.split sum.split)

lemma reserve_grown: "grown s (snd (transact (reserve_transaction new_id now q) s))"
proof (rule transact_grown)
  fix v s' assume c: "reserve_transaction new_id now q s = (Inr v, s')"
  then obtain limit where st: "settle_reservation (new_id @ '':period'') (aq_user q) now limit new_id
      (s\<lparr>ad_operations := ad_operations s @ [new_operation new_id q]\<rparr>) = (Inr (), s')"
    by (auto simp: reserve_transaction_def split: option.splits if_splits prod.splits sum.splits)
  show "grown s s'"
    by (rule grown_trans [OF grown_append settle_grown [OF st]]) (simp add: new_operation_def)
qed

lemma retry_grown: "grown s (snd (transact (retry_transaction now operation) s))"
proof (rule transact_grown)
  fix v s' assume c: "retry_transaction now operation s = (Inr v, s')"
  have "grown s (set_operation i reopened_operation s)" for i
    by (rule grown_update) (simp_all add: set_operation_def)
  then show "grown s s'"
    using c by (auto simp: retry_transaction_def split: option.splits if_splits prod.splits sum.splits intro: grown_trans [OF _ settle_grown])
qed

lemma claim_grown: "grown s (snd (claim_ai_usage_operation (\<lambda>s. s) ms owner now i s))"
proof -
  have "grown s (s\<lparr>ad_operations := fst (update_many (lease_claim_where now i) (claimed_operation now (ai_add_milliseconds now ms) owner) (ad_operations s))\<rparr>)"
    by (rule grown_update) simp_all
  then show ?thesis by (auto simp: claim_ai_usage_operation_def Let_def split_beta split: option.split)
qed

lemma hold_grown:
  assumes "hold_if_leased b now lease s = (held, s1)"
  shows "grown s s1"
proof -
  have "grown s (s\<lparr>ad_operations := fst (update_many P (extended_operation now ms) (ad_operations s))\<rparr>)" for P ms
    by (rule grown_update) simp_all
  then show ?thesis
    using assms by (auto simp: hold_if_leased_def hold_ai_operation_lease_for_finalization_def split_beta split: option.splits)
qed

lemma renew_grown: "grown s (snd (renew_ai_usage_operation_lease ms now l s))"
  unfolding renew_ai_usage_operation_lease_def split_beta Let_def
  by (simp only: snd_conv) (rule grown_update, simp_all)

lemma complete_grown: "grown s (snd (complete_ai_usage_operation lease clock now i q s))"
  unfolding complete_ai_usage_operation_def
proof (rule transact_grown)
  fix v s' assume c: "complete_transaction lease clock now i q s = (Inr v, s')"
  obtain held s1 where h: "hold_if_leased False now lease s = (held, s1)" by fastforce
  have "grown s1 (set_operation i (completed_operation clock now q) (s1\<lparr>ad_periods := ps\<rparr>))" for ps
    by (rule grown_update) (simp_all add: set_operation_def)
  then show "grown s s'"
    using c h hold_grown [OF h]
    by (auto simp: complete_transaction_def Let_def split_beta split: bool.splits option.splits if_splits intro: grown_trans)
qed

lemma fail_grown: "grown s (snd (fail_ai_usage_operation e lease now i x s))"
proof -
  obtain held s1 where h: "hold_if_leased True now lease s = (held, s1)" by fastforce
  have "grown s1 ((set_operation i (failed_operation now e x) s1)\<lparr>ad_periods := ps\<rparr>)" "grown s1 (set_operation i (failed_operation now e x) s1)" for ps
    by (rule grown_update; simp add: set_operation_def)+
  then show ?thesis
    using h hold_grown [OF h]
    by (auto simp: fail_ai_usage_operation_def Let_def split: bool.split option.split intro: grown_trans)
qed

lemma ai_at_grown: "grown s (ai_at step s)"
proof (cases step)
  case (Reconcile_Step locked leader owner now n)
  show ?thesis unfolding Reconcile_Step ai_at.simps
    by (rule reconcile_keeps [where I = "grown s"]) (blast intro: grown_trans claim_grown fail_grown grown_refl)+
next
  case (Limit_Step u n)
  then show ?thesis by (simp add: grown_same)
qed (simp_all add: reserve_grown retry_grown claim_grown renew_grown complete_grown fail_grown)

lemma ai_run_grown: "grown s (ai_run steps s)"
  by (induction steps arbitrary: s) (auto simp: ai_run_def intro: grown_trans [OF ai_at_grown])

lemma ledger_rows: "ledger_ok s \<Longrightarrow> ai_rows s"
  by (simp add: ledger_ok_def ai_rows_def)

lemma superseded_dead:
  assumes "ai_rows s" "al_attempt l < ai_gen s (al_operation l)"
  shows "renew_ai_usage_operation_lease ms now l s = (False, s)"
    "complete_ai_usage_operation (Some l) clock now i q s = (Inl Lease_Not_Owned, s)"
    "fail_ai_usage_operation e (Some l) now i x s = (False, s)"
proof -
  have dead: "\<not> ai_live now l s" using ai.live_token [of now l s] assms(2) by auto
  show "renew_ai_usage_operation_lease ms now l s = (False, s)" by (rule renew_dead [OF assms(1) dead])
  show "complete_ai_usage_operation (Some l) clock now i q s = (Inl Lease_Not_Owned, s)" by (rule finish_dead [OF assms(1) dead])
  have "\<not> ai_lease_where l r" if "row_at ao_id (al_operation l) (ad_operations s) = Some r" for r
    using assms(2) that by (auto simp: ai_gen_def ai_lease_where_def)
  then have none: "snd (update_many (\<lambda>r. ai_lease_where l r \<and> Q r) f (ad_operations s)) = 0" for Q f
    using lease_count [OF assms(1)] by (auto split: option.split)
  then have "hold_ai_operation_lease_for_finalization True now l s = (False, s)"
    using none [of "\<lambda>_. True"] update_many_none [OF none, of "\<lambda>_. True"]
    by (simp add: hold_ai_operation_lease_for_finalization_def split_beta)
  then show "fail_ai_usage_operation e (Some l) now i x s = (False, s)"
    by (simp add: fail_ai_usage_operation_def hold_if_leased_def)
qed

text \<open>C20: A worker whose operation another worker claimed after it can do nothing with it any more: whatever
  other reservations, claims, completions, failures and reconciliations happen in between, it neither
  renews its lease nor completes the operation (which would charge the unit twice) nor fails it (which
  would give the other worker's unit back).\<close>

theorem ai_superseded:
  assumes "s = ai_run steps (empty_ledger users)"
    and "claim_ai_usage_operation (\<lambda>s. s) ms owner now i s = (Inr (Some (l, r)), s1)"
    and "claim_ai_usage_operation (\<lambda>s. s) ms' owner' now' i (ai_run between s1) = (Inr (Some (l', r')), s2)"
    and "u = ai_run afterwards s2"
  shows "renew_ai_usage_operation_lease ms later l u = (False, u) \<and>
    complete_ai_usage_operation (Some l) clock later i q u = (Inl Lease_Not_Owned, u) \<and>
    fail_ai_usage_operation e (Some l) later i x u = (False, u)"
proof -
  have ok: "ledger_ok s" unfolding assms(1) by (rule ai_run_ledger [OF empty_ledger_ok])
  have ok1: "ledger_ok (ai_run between s1)" using ai_run_ledger claim_ledger [OF ok, of ms owner now i] assms(2) by simp
  have okU: "ledger_ok u" unfolding assms(4) using ai_run_ledger claim_ledger [OF ok1, of ms' owner' now' i] assms(3) by simp
  have c1: "ai_claim ms now (owner, i) s = (Some l, s1)" and c2: "ai_claim ms' now' (owner', i) (ai_run between s1) = (Some l', s2)"
    using assms(2,3) by (simp_all add: ai_claim_def)
  have res: "al_operation l = i" "al_operation l' = i"
    using ai_claim_cases [OF ledger_rows [OF ok], of "(owner, i)" now ms] ai_claim_cases [OF ledger_rows [OF ok1], of "(owner', i)" now' ms'] assms(2,3)
    by auto
  have "al_attempt l = ai_gen s1 i" using ai.claim_gen [OF ledger_rows [OF ok] c1] res by simp
  also have "\<dots> \<le> ai_gen (ai_run between s1) i" using ai_run_grown [of s1 between] by (simp add: grown_def)
  also have "\<dots> < ai_gen s2 i" using ai.claim_gen [OF ledger_rows [OF ok1] c2] res by simp
  also have "\<dots> \<le> ai_gen u i" using ai_run_grown [of s2 afterwards] by (simp add: grown_def assms(4))
  finally have "al_attempt l < ai_gen u (al_operation l)" using res by simp
  then show ?thesis using superseded_dead [OF ledger_rows [OF okU]] by blast
qed

text \<open>The lease of the first worker runs out, a second worker takes the operation.\<close>

definition first_claim :: "(ai_error + (ai_lease \<times> ai_operation) option) \<times> ai_db" where
  "first_claim = claim_ai_usage_operation (\<lambda>s. s) 60000 ''w'' 0 ''a''
     (ai_run [Reserve_Step ''a'' 0 (example_request ''k'')] (empty_ledger [(''u'', 1)]))"

definition second_claim :: "(ai_error + (ai_lease \<times> ai_operation) option) \<times> ai_db" where
  "second_claim = claim_ai_usage_operation (\<lambda>s. s) 60000 ''v'' 60000 ''a'' (ai_run [] (snd first_claim))"

theorem ai_superseded_witness:
  "complete_ai_usage_operation (Some \<lparr>al_operation = ''a'', al_attempt = 1, al_owner = ''w''\<rparr>) 60001 60001 ''a'' None (snd second_claim) =
     (Inl Lease_Not_Owned, snd second_claim)"
proof -
  have "map_sum id (map_option fst) (fst first_claim) = Inr (Some \<lparr>al_operation = ''a'', al_attempt = 1, al_owner = ''w''\<rparr>)"
    "map_sum id (map_option fst) (fst second_claim) = Inr (Some \<lparr>al_operation = ''a'', al_attempt = 2, al_owner = ''v''\<rparr>)"
    by code_simp+
  then obtain r r' where claims: "fst first_claim = Inr (Some (\<lparr>al_operation = ''a'', al_attempt = 1, al_owner = ''w''\<rparr>, r))"
    "fst second_claim = Inr (Some (\<lparr>al_operation = ''a'', al_attempt = 2, al_owner = ''v''\<rparr>, r'))"
    by (auto simp: map_sum_def split: sum.splits)
  have first: "claim_ai_usage_operation (\<lambda>s. s) 60000 ''w'' 0 ''a'' (ai_run [Reserve_Step ''a'' 0 (example_request ''k'')] (empty_ledger [(''u'', 1)])) =
      (Inr (Some (\<lparr>al_operation = ''a'', al_attempt = 1, al_owner = ''w''\<rparr>, r)), snd first_claim)"
    using claims(1) by (simp add: first_claim_def prod_eq_iff)
  have second: "claim_ai_usage_operation (\<lambda>s. s) 60000 ''v'' 60000 ''a'' (ai_run [] (snd first_claim)) =
      (Inr (Some (\<lparr>al_operation = ''a'', al_attempt = 2, al_owner = ''v''\<rparr>, r')), snd second_claim)"
    using claims(2) by (simp add: second_claim_def prod_eq_iff)
  have "snd second_claim = ai_run [] (snd second_claim)" by (simp add: ai_run_def)
  from ai_superseded [OF refl first second this] show ?thesis by blast
qed

end
