(* ===== verification/Spec2Isabelle.thy ===== *)
theory Spec2Isabelle
  imports Source_Refresh_Lease Opml_Import Digest_Processing Host_Limiter Safe_Fetch Bulk_Read Mobile_Safety Rate_Limit Sync_Safety Mutation_Safety Ai_Lease
begin

text \<open>Verification development of Arctic RSS.\<close>

end
